(* ===== verification/Go_Prelude.thy ===== *)
theory Go_Prelude
  imports Main "HOL-Library.Signed_Division" "HOL-Library.Word"
    "HOL-Library.Char_ord" "HOL-Library.List_Lexorder" "HOL-Library.Product_Lexorder"
    "HOL-Library.Multiset" "HOL-Library.AList"
begin

text \<open>
  What every component of the model shares: Go's 64-bit signed integers, written as
  \<open>int\<close> with the wrap-around of every operation made explicit; the error monad
  \<open>'e + 'a\<close> of Go's two-value returns; Go strings as byte lists, ordered byte by byte;
  and the generic lemmas on lists and sums that carry the component proofs.
\<close>

named_theorems i64_simps \<open>range facts of the int64 model\<close>
named_theorems err_simps \<open>rewriting of the error monad\<close>

subsection \<open>Machine integers\<close>

text \<open>An \<open>int64\<close> is an \<open>int\<close> in \<open>[MinInt64, MaxInt64]\<close>; every Go operator on it wraps.\<close>

abbreviation min_i64 :: int where "min_i64 \<equiv> - 9223372036854775808"
abbreviation max_i64 :: int where "max_i64 \<equiv> 9223372036854775807"
abbreviation two63 :: int where "two63 \<equiv> 9223372036854775808"
abbreviation two64 :: int where "two64 \<equiv> 18446744073709551616"

definition is_i64 :: "int \<Rightarrow> bool" where
  "is_i64 x \<longleftrightarrow> min_i64 \<le> x \<and> x \<le> max_i64"

definition wrap64 :: "int \<Rightarrow> int" where
  "wrap64 x = (x + two63) mod two64 - two63"

lemma wrap64_id [simp]: "is_i64 x \<Longrightarrow> wrap64 x = x"
  by (simp add: is_i64_def wrap64_def)

lemma is_i64_wrap64 [simp]: "is_i64 (wrap64 x)"
  using pos_mod_bound [of two64 "x + two63"] pos_mod_sign [of two64 "x + two63"]
  by (simp add: is_i64_def wrap64_def)

lemma wrap64_cong: "wrap64 x mod two64 = x mod two64"
  by (simp add: wrap64_def mod_simps)

lemma is_i64_0 [simp]: "is_i64 0" and is_i64_1 [simp]: "is_i64 1"
  by (simp_all add: is_i64_def)

lemma is_i64_between: "is_i64 a \<Longrightarrow> is_i64 b \<Longrightarrow> a \<le> x \<Longrightarrow> x \<le> b \<Longrightarrow> is_i64 x"
  by (simp add: is_i64_def)

lemma wrap64_simps [simp, i64_simps]:
  "wrap64 (wrap64 a + b) = wrap64 (a + b)" "wrap64 (a + wrap64 b) = wrap64 (a + b)"
  "wrap64 (wrap64 a - b) = wrap64 (a - b)" "wrap64 (a - wrap64 b) = wrap64 (a - b)"
  "wrap64 (- wrap64 a) = wrap64 (- a)" "wrap64 (wrap64 a) = wrap64 a"
proof -
  have shift: "wrap64 x = wrap64 y" if "x mod two64 = y mod two64" for x y
    using mod_add_cong [OF that refl, of two63] by (simp add: wrap64_def)
  show "wrap64 (wrap64 a + b) = wrap64 (a + b)" by (rule shift, rule mod_add_cong [OF wrap64_cong refl])
  show "wrap64 (a + wrap64 b) = wrap64 (a + b)" by (rule shift, rule mod_add_cong [OF refl wrap64_cong])
  show "wrap64 (wrap64 a - b) = wrap64 (a - b)" by (rule shift, rule mod_diff_cong [OF wrap64_cong refl])
  show "wrap64 (a - wrap64 b) = wrap64 (a - b)" by (rule shift, rule mod_diff_cong [OF refl wrap64_cong])
  have "wrap64 (0 - wrap64 a) = wrap64 (0 - a)" by (rule shift, rule mod_diff_cong [OF refl wrap64_cong])
  then show "wrap64 (- wrap64 a) = wrap64 (- a)" by simp
  show "wrap64 (wrap64 a) = wrap64 a" by (rule shift, rule wrap64_cong)
qed

text \<open>The wrap is the reading of a 64-bit word as two's complement.\<close>

lemma wrap64_sint: "wrap64 x = sint (word_of_int x :: 64 word)"
proof -
  have "sint (word_of_int x :: 64 word) = signed_take_bit 63 x"
    by (simp add: sint_sbintrunc')
  also have "\<dots> = (x + 2 ^ 63) mod 2 ^ 64 - 2 ^ 63"
    by (simp add: signed_take_bit_eq_take_bit_shift take_bit_eq_mod)
  finally show ?thesis by (simp add: wrap64_def)
qed

text \<open>Go's \<open>/\<close> and \<open>%\<close> truncate towards zero; a zero divisor panics (\<open>None\<close>).\<close>

definition go_div :: "int \<Rightarrow> int \<Rightarrow> int option" where
  "go_div a b = (if b = 0 then None else Some (wrap64 (a sdiv b)))"

definition go_rem :: "int \<Rightarrow> int \<Rightarrow> int option" where
  "go_rem a b = (if b = 0 then None else Some (a smod b))"

lemma sdiv_pos: "0 \<le> (a::int) \<Longrightarrow> 0 < b \<Longrightarrow> a sdiv b = a div b"
  by (cases "a = 0") (simp_all add: signed_divide_int_def sgn_if)

lemma smod_pos: "0 \<le> (a::int) \<Longrightarrow> 0 < b \<Longrightarrow> a smod b = a mod b"
  by (cases "a = 0") (auto simp: signed_modulo_int_def sgn_if)

lemma abs_sdiv: "\<bar>a sdiv b\<bar> = \<bar>a\<bar> div \<bar>b::int\<bar>"
proof (cases "a = 0 \<or> b = 0")
  case True
  then show ?thesis by (auto simp: signed_divide_int_def)
next
  case False
  have "0 \<le> \<bar>a\<bar> div \<bar>b\<bar>" by (rule div_int_pos_iff [THEN iffD2]) simp
  with False show ?thesis by (simp add: signed_divide_int_def abs_mult)
qed

subsection \<open>Errors as values\<close>

text \<open>A Go function \<open>func (...) (T, error)\<close> returns \<open>Inl err\<close> or \<open>Inr v\<close>.\<close>

definition bindE :: "('e + 'a) \<Rightarrow> ('a \<Rightarrow> 'e + 'b) \<Rightarrow> 'e + 'b" where
  "bindE r f = (case r of Inl e \<Rightarrow> Inl e | Inr v \<Rightarrow> f v)"

lemma bindE_simps [simp, err_simps]: "bindE (Inl e) f = Inl e" "bindE (Inr v) f = f v"
  by (simp_all add: bindE_def)

lemma bindE_Inr_iff: "bindE r f = Inr y \<longleftrightarrow> (\<exists>v. r = Inr v \<and> f v = Inr y)"
  by (cases r) auto

lemma bindE_Inl_iff: "bindE r f = Inl e \<longleftrightarrow> r = Inl e \<or> (\<exists>v. r = Inr v \<and> f v = Inl e)"
  by (cases r) auto

lemma bindE_cong [fundef_cong]:
  "r = r' \<Longrightarrow> (\<And>v. r' = Inr v \<Longrightarrow> f v = g v) \<Longrightarrow> bindE r f = bindE r' g"
  by (cases r') auto

text \<open>A fold that stops at the first error: the shape of most accumulation loops of the code.\<close>

fun foldE :: "('s \<Rightarrow> 'x \<Rightarrow> 'e + 's) \<Rightarrow> 's \<Rightarrow> 'x list \<Rightarrow> 'e + 's" where
  "foldE f s [] = Inr s"
| "foldE f s (x # xs) = bindE (f s x) (\<lambda>s'. foldE f s' xs)"

lemma foldE_append: "foldE f s (xs @ ys) = bindE (foldE f s xs) (\<lambda>s'. foldE f s' ys)"
proof (induction xs arbitrary: s)
  case Nil
  then show ?case by simp
next
  case (Cons x xs)
  then show ?case by (cases "f s x") auto
qed

lemma foldE_invariant:
  assumes "I s" and "\<And>s x s'. I s \<Longrightarrow> x \<in> set xs \<Longrightarrow> f s x = Inr s' \<Longrightarrow> I s'"
    and "foldE f s xs = Inr r"
  shows "I r"
  using assms
proof (induction xs arbitrary: s)
  case Nil
  then show ?case by simp
next
  case (Cons x xs)
  from Cons.prems(3) obtain s' where s': "f s x = Inr s'" "foldE f s' xs = Inr r"
    by (auto simp: bindE_Inr_iff)
  have "I s'" by (rule Cons.prems(2)[OF Cons.prems(1) _ s'(1)]) simp
  then show ?case by (rule Cons.IH[OF _ _ s'(2)]) (use Cons.prems(2) in auto)
qed

subsection \<open>Go strings\<close>

text \<open>
  A Go string is a byte sequence, an Isabelle \<open>string\<close> a list of 8-bit characters; \<open><\<close> and
  \<open>strings.Compare\<close> are the lexicographic order of the bytes, which is the order that
  \<open>List_Lexorder\<close> and \<open>Char_ord\<close> put on \<open>string\<close>. \<open>strings.TrimSpace\<close> strips the code
  points of \<open>unicode.IsSpace\<close> in their UTF-8 encoding. \<open>strings.ToUpper\<close> and
  \<open>strings.ToLower\<close> are given on ASCII letters; other bytes are kept.
\<close>

definition bytes :: "nat list \<Rightarrow> string" where
  "bytes ns = map (\<lambda>n. char_of n) ns"

definition space_seqs :: "string list" where
  "space_seqs = map bytes
     ([[9], [10], [11], [12], [13], [32], [0xC2, 0x85], [0xC2, 0xA0], [0xE1, 0x9A, 0x80]]
      @ map (\<lambda>k. [0xE2, 0x80, k]) ([0x80..<0x8B] @ [0xA8, 0xA9, 0xAF])
      @ [[0xE2, 0x81, 0x9F], [0xE3, 0x80, 0x80]])"

fun strip_prefix :: "string \<Rightarrow> string \<Rightarrow> string option" where
  "strip_prefix [] s = Some s"
| "strip_prefix (p # ps) [] = None"
| "strip_prefix (p # ps) (c # s) = (if p = c then strip_prefix ps s else None)"

fun strip_any :: "string list \<Rightarrow> string \<Rightarrow> string option" where
  "strip_any [] s = None"
| "strip_any (p # ps) s = (case strip_prefix p s of Some r \<Rightarrow> Some r | None \<Rightarrow> strip_any ps s)"

lemma strip_prefix_Some: "strip_prefix p s = Some r \<longleftrightarrow> s = p @ r"
  by (induction p s rule: strip_prefix.induct) auto

lemma strip_prefix_length: "strip_prefix p s = Some r \<Longrightarrow> p \<noteq> [] \<Longrightarrow> length r < length s"
  by (simp add: strip_prefix_Some)

lemma strip_any_Some: "strip_any ps s = Some r \<Longrightarrow> \<exists>p \<in> set ps. s = p @ r"
  by (induction ps) (auto split: option.splits simp: strip_prefix_Some)

lemma space_seqs_nonempty: "[] \<notin> set space_seqs"
  by (auto simp: space_seqs_def bytes_def)

lemma rev_space_seqs_nonempty: "[] \<notin> set (map rev space_seqs)"
  using space_seqs_nonempty by auto

lemma strip_any_length: "strip_any ps s = Some r \<Longrightarrow> [] \<notin> set ps \<Longrightarrow> length r < length s"
  by (auto dest!: strip_any_Some)

function trim_left_with :: "string list \<Rightarrow> string \<Rightarrow> string" where
  "trim_left_with ps s =
     (if [] \<in> set ps then s
      else case strip_any ps s of None \<Rightarrow> s | Some r \<Rightarrow> trim_left_with ps r)"
  by pat_completeness auto
termination
  by (relation "measure (\<lambda>(ps, s). length s)") (auto dest: strip_any_length)

declare trim_left_with.simps [simp del]

definition trim_left :: "string \<Rightarrow> string" where
  "trim_left s = trim_left_with space_seqs s"

definition trim_right :: "string \<Rightarrow> string" where
  "trim_right s = rev (trim_left_with (map rev space_seqs) (rev s))"

definition trim_space :: "string \<Rightarrow> string" where
  "trim_space s = trim_right (trim_left s)"

text \<open>Visible ASCII at both ends: nothing to trim.\<close>

definition is_graph :: "char \<Rightarrow> bool" where
  "is_graph c \<longleftrightarrow> 33 \<le> (of_char c :: nat) \<and> (of_char c :: nat) \<le> 126"

lemma space_seqs_ends: "p \<in> set space_seqs \<Longrightarrow> p \<noteq> [] \<and> \<not> is_graph (hd p) \<and> \<not> is_graph (last p)"
  by (auto simp: space_seqs_def bytes_def is_graph_def)

lemma trim_left_with_id:
  assumes "\<forall>p \<in> set ps. p \<noteq> [] \<and> \<not> is_graph (hd p)" "is_graph (hd s)"
  shows "trim_left_with ps s = s"
proof -
  have "strip_any ps s = None"
    using assms by (cases "strip_any ps s") (auto dest!: strip_any_Some)
  then show ?thesis by (simp add: trim_left_with.simps)
qed

lemma trim_space_id: "s = [] \<or> is_graph (hd s) \<and> is_graph (last s) \<Longrightarrow> trim_space s = s"
proof -
  have "\<forall>p \<in> set space_seqs. p \<noteq> [] \<and> \<not> is_graph (hd p)"
    "\<forall>p \<in> set (map rev space_seqs). p \<noteq> [] \<and> \<not> is_graph (hd p)"
    using space_seqs_ends by (auto simp: hd_rev)
  note id = this [THEN trim_left_with_id]
  have nil: "strip_any ps [] = None" if "[] \<notin> set ps" for ps
    using that by (cases "strip_any ps []") (auto dest!: strip_any_Some)
  assume "s = [] \<or> is_graph (hd s) \<and> is_graph (last s)"
  then show ?thesis
  proof
    assume "s = []"
    then show ?thesis
      using nil [OF space_seqs_nonempty] nil [OF rev_space_seqs_nonempty]
      by (simp add: trim_space_def trim_left_def trim_right_def trim_left_with.simps)
  next
    assume "is_graph (hd s) \<and> is_graph (last s)"
    then have "trim_left s = s" "trim_right s = s"
      unfolding trim_left_def trim_right_def by (simp_all only: id hd_rev rev_rev_ident)
    then show ?thesis by (simp add: trim_space_def)
  qed
qed

definition to_upper_char :: "char \<Rightarrow> char" where
  "to_upper_char c = (if 97 \<le> (of_char c :: nat) \<and> (of_char c :: nat) \<le> 122
     then char_of ((of_char c :: nat) - 32) else c)"

definition to_lower_char :: "char \<Rightarrow> char" where
  "to_lower_char c = (if 65 \<le> (of_char c :: nat) \<and> (of_char c :: nat) \<le> 90
     then char_of ((of_char c :: nat) + 32) else c)"

definition to_upper :: "string \<Rightarrow> string" where "to_upper s = map to_upper_char s"
definition to_lower :: "string \<Rightarrow> string" where "to_lower s = map to_lower_char s"

lemma to_upper_char_idem [simp]: "to_upper_char (to_upper_char c) = to_upper_char c"
  by (auto simp: to_upper_char_def)

lemma to_upper_idem [simp]: "to_upper (to_upper s) = to_upper s"
  by (simp add: to_upper_def comp_def)

subsection \<open>Lists\<close>

lemma sum_list_update_int:
  "i < length (xs :: int list) \<Longrightarrow> sum_list (xs[i := v]) = sum_list xs - xs ! i + v"
  by (induction xs arbitrary: i) (auto split: nat.splits)

lemma sum_list_map_sub_int: "(\<Sum>x\<leftarrow>xs. f x - g x) = (\<Sum>x\<leftarrow>xs. f x) - (\<Sum>x\<leftarrow>xs. g x :: int)"
  by (induction xs) auto

lemma sorted_prefix_before:
  assumes "sorted_wrt R xs" "x \<in> set (take n xs)" "y \<in> set xs" "y \<notin> set (take n xs)"
  shows "R x y"
proof -
  have "y \<in> set (drop n xs)" using assms(3,4) by (metis UnE append_take_drop_id set_append)
  moreover have "sorted_wrt R (take n xs @ drop n xs)" using assms(1) by simp
  ultimately show ?thesis using assms(2) by (simp only: sorted_wrt_append)
qed

subsection \<open>Go maps\<close>

text \<open>
  A \<open>map[K]V\<close> is an association list with distinct keys; its order is the order in which the
  run at hand happens to range over it, and theorems hold for every such order. \<open>m[k]\<close> of an
  absent key is the zero value, given as the first argument of \<open>map_get\<close>.
\<close>

type_synonym ('k, 'v) go_map = "('k \<times> 'v) list"

definition map_get :: "'v \<Rightarrow> ('k, 'v) go_map \<Rightarrow> 'k \<Rightarrow> 'v" where
  "map_get z m k = (case map_of m k of Some v \<Rightarrow> v | None \<Rightarrow> z)"

abbreviation map_put :: "'k \<Rightarrow> 'v \<Rightarrow> ('k, 'v) go_map \<Rightarrow> ('k, 'v) go_map" where
  "map_put \<equiv> AList.update"

abbreviation map_ok :: "('k, 'v) go_map \<Rightarrow> bool" where
  "map_ok m \<equiv> distinct (map fst m)"

lemma map_get_put [simp]: "map_get z (map_put k v m) k' = (if k = k' then v else map_get z m k')"
  by (simp add: map_get_def update_conv')

lemma map_get_Nil [simp]: "map_get z [] k = z"
  by (simp add: map_get_def)

lemma map_get_Cons: "map_get z ((k, v) # m) k' = (if k = k' then v else map_get z m k')"
  by (simp add: map_get_def)

lemma map_get_absent: "k \<notin> fst ` set m \<Longrightarrow> map_get z m k = z"
  by (simp add: map_get_def map_of_eq_None_iff [THEN iffD2])

lemma map_get_present: "map_ok m \<Longrightarrow> (k, v) \<in> set m \<Longrightarrow> map_get z m k = v"
  by (simp add: map_get_def)

lemma sum_values_put:
  "map_ok m \<Longrightarrow> sum_list (map snd (map_put k v m)) = sum_list (map snd m) - map_get 0 m k + (v :: int)"
proof (induction m)
  case (Cons p m)
  obtain k' v' where p: "p = (k', v')" by (cases p)
  have "k = k' \<Longrightarrow> map_get 0 m k = 0" using Cons.prems by (simp add: p map_get_absent)
  with Cons show ?case by (auto simp: p map_get_Cons)
qed simp

end
