(* ===== verification/Money.thy ===== *)
theory Money
  imports Go_Prelude Complex_Main
begin

text \<open>
  Package \<open>internal/money\<close>: the checked int64 operations of \<open>arithmetic.go\<close> (with the one
  rounding routine \<open>roundQuotient\<close> on unbounded intermediates) and the \<open>Money\<close> value of
  \<open>money.go\<close>. The locale \<open>checked_addition\<close> is the contract the rest of the program relies
  on: an addition that is exact or reports overflow. The accumulation loops of the other
  components are its clients.
\<close>

subsection \<open>Errors\<close>

text \<open>\<open>Join a b\<close> is \<open>fmt.Errorf("%w: %w", a, b)\<close> or \<open>errors.Join\<close>: it matches both sentinels.\<close>

datatype money_error =
    ErrOverflow | ErrCurrencyMismatch | ErrDivisionByZero | ErrRoundingMode
  | ErrInvalidWeights | ErrInvalidAmount | ErrInvalidPrecision
  | Join money_error money_error

fun errors_is :: "money_error \<Rightarrow> money_error \<Rightarrow> bool" where
  "errors_is (Join a b) t = (errors_is a t \<or> errors_is b t \<or> Join a b = t)"
| "errors_is e t = (e = t)"

subsection \<open>Checked int64 arithmetic\<close>

definition Add :: "int \<Rightarrow> int \<Rightarrow> money_error + int" where
  "Add a b =
     (if (b > 0 \<and> a > wrap64 (max_i64 - b)) \<or> (b < 0 \<and> a < wrap64 (min_i64 - b))
      then Inl ErrOverflow else Inr (wrap64 (a + b)))"

definition Sub :: "int \<Rightarrow> int \<Rightarrow> money_error + int" where
  "Sub a b =
     (if (b < 0 \<and> a > wrap64 (max_i64 + b)) \<or> (b > 0 \<and> a < wrap64 (min_i64 + b))
      then Inl ErrOverflow else Inr (wrap64 (a - b)))"

definition Neg :: "int \<Rightarrow> money_error + int" where
  "Neg a = (if a = min_i64 then Inl ErrOverflow else Inr (wrap64 (- a)))"

definition Abs :: "int \<Rightarrow> money_error + int" where
  "Abs a = (if a < 0 then Neg a else Inr a)"

text \<open>\<open>RoundingMode\<close> is a \<open>uint8\<close> whose constants start at 1; zero is not a mode.\<close>

type_synonym RoundingMode = "8 word"

abbreviation RoundTowardZero :: RoundingMode where "RoundTowardZero \<equiv> 1"
abbreviation RoundAwayFromZero :: RoundingMode where "RoundAwayFromZero \<equiv> 2"
abbreviation RoundFloor :: RoundingMode where "RoundFloor \<equiv> 3"
abbreviation RoundCeiling :: RoundingMode where "RoundCeiling \<equiv> 4"
abbreviation RoundHalfAwayFromZero :: RoundingMode where "RoundHalfAwayFromZero \<equiv> 5"
abbreviation RoundHalfEven :: RoundingMode where "RoundHalfEven \<equiv> 6"

text \<open>
  \<open>big.Int\<close> is unbounded, so \<open>num\<close> and \<open>den\<close> are plain \<open>int\<close>; \<open>QuoRem\<close> truncates towards
  zero, and \<open>Bit(0)\<close> is the parity in two's complement.
\<close>

definition roundQuotient :: "int \<Rightarrow> int \<Rightarrow> RoundingMode \<Rightarrow> money_error + int" where
  "roundQuotient num den mode =
     (if mode < RoundTowardZero \<or> mode > RoundHalfEven then Inl ErrRoundingMode
      else if den = 0 then Inl ErrDivisionByZero
      else
        let q = num sdiv den; r = num smod den;
            q' = (if r \<noteq> 0 then
                    let sign = sgn num * sgn den;
                        increment =
                          (if mode = RoundAwayFromZero then True
                           else if mode = RoundFloor then sign < 0
                           else if mode = RoundCeiling then sign > 0
                           else if mode = RoundHalfAwayFromZero \<or> mode = RoundHalfEven then
                             2 * \<bar>r\<bar> > \<bar>den\<bar> \<or>
                             (2 * \<bar>r\<bar> = \<bar>den\<bar> \<and> (mode = RoundHalfAwayFromZero \<or> odd q))
                           else False)
                    in if increment then q + sign else q
                  else q)
        in if is_i64 q' then Inr q' else Inl ErrOverflow)"

definition MulDiv :: "int \<Rightarrow> int \<Rightarrow> int \<Rightarrow> RoundingMode \<Rightarrow> money_error + int" where
  "MulDiv a num den mode = roundQuotient (a * num) den mode"

definition Mul :: "int \<Rightarrow> int \<Rightarrow> money_error + int" where
  "Mul a b = MulDiv a b 1 RoundTowardZero"

definition CeilDiv :: "int \<Rightarrow> int \<Rightarrow> money_error + int" where
  "CeilDiv a den =
     (if den = 0 then Inl ErrDivisionByZero
      else if a = min_i64 \<and> den = -1 then Inl ErrOverflow
      else
        let q = the (go_div a den); r = the (go_rem a den)
        in if r \<noteq> 0 \<and> (a < 0) = (den < 0) then Add q 1 else Inr q)"

definition SumMinor :: "int list \<Rightarrow> money_error + int" where
  "SumMinor values = foldE Add 0 values"

subsection \<open>The contract of a checked addition\<close>

text \<open>\<open>partial_ok acc xs\<close>: every running total of the loop, the first one included, fits in int64.\<close>

fun partial_ok :: "int \<Rightarrow> int list \<Rightarrow> bool" where
  "partial_ok acc [] = is_i64 acc"
| "partial_ok acc (x # xs) = (is_i64 acc \<and> partial_ok (acc + x) xs)"

lemma partial_ok_acc: "partial_ok acc xs \<Longrightarrow> is_i64 acc"
  by (cases xs) auto

lemma partial_ok_iff_take:
  "partial_ok acc xs \<longleftrightarrow> (\<forall>k \<le> length xs. is_i64 (acc + sum_list (take k xs)))"
proof (induction xs arbitrary: acc)
  case (Cons x xs)
  have split: "(\<forall>k \<le> Suc n. P k) \<longleftrightarrow> P 0 \<and> (\<forall>k \<le> n. P (Suc k))" for n and P :: "nat \<Rightarrow> bool"
    by (metis Suc_le_mono le0 not0_implies_Suc)
  show ?case by (simp add: Cons.IH split add.assoc)
qed simp

locale checked_addition =
  fixes add :: "int \<Rightarrow> int \<Rightarrow> 'e + int" and ovf :: 'e
  assumes add_exact: "is_i64 a \<Longrightarrow> is_i64 b \<Longrightarrow> is_i64 (a + b) \<Longrightarrow> add a b = Inr (a + b)"
    and add_overflow: "is_i64 a \<Longrightarrow> is_i64 b \<Longrightarrow> \<not> is_i64 (a + b) \<Longrightarrow> add a b = Inl ovf"
begin

lemma add_eq: "is_i64 a \<Longrightarrow> is_i64 b \<Longrightarrow> add a b = (if is_i64 (a + b) then Inr (a + b) else Inl ovf)"
  by (simp add: add_exact add_overflow)

lemma add_Inr_iff: "is_i64 a \<Longrightarrow> is_i64 b \<Longrightarrow> add a b = Inr c \<longleftrightarrow> c = a + b \<and> is_i64 c"
  by (auto simp: add_eq)

lemma foldE_add:
  "is_i64 acc \<Longrightarrow> list_all is_i64 xs \<Longrightarrow>
   foldE add acc xs = (if partial_ok acc xs then Inr (acc + sum_list xs) else Inl ovf)"
  by (induction xs arbitrary: acc) (auto simp: add_eq add.assoc dest: partial_ok_acc)

lemma foldE_add_nonneg:
  assumes "is_i64 acc" "\<forall>x \<in> set xs. 0 \<le> x \<and> is_i64 x"
  shows "foldE add acc xs =
    (if is_i64 (acc + sum_list xs) then Inr (acc + sum_list xs) else Inl ovf)"
  using assms
proof (induction xs arbitrary: acc)
  case (Cons x xs)
  have "0 \<le> sum_list xs" using Cons.prems by (intro sum_list_nonneg) auto
  then have "\<not> is_i64 (acc + x) \<Longrightarrow> \<not> is_i64 (acc + x + sum_list xs)"
    using Cons.prems by (auto simp: is_i64_def)
  then show ?case using Cons by (simp add: add_eq add.assoc)
qed simp

end

lemma Add_exact: "is_i64 a \<Longrightarrow> is_i64 b \<Longrightarrow> Add a b = (if is_i64 (a + b) then Inr (a + b) else Inl ErrOverflow)"
proof -
  assume ab: "is_i64 a" "is_i64 b"
  have "0 < b \<Longrightarrow> is_i64 (max_i64 - b)" "b < 0 \<Longrightarrow> is_i64 (min_i64 - b)"
    using ab by (auto simp: is_i64_def)
  with ab show ?thesis by (auto simp: Add_def is_i64_def)
qed

interpretation checked: checked_addition Add ErrOverflow
  by unfold_locales (simp_all add: Add_exact)

lemma Sub_exact: "is_i64 a \<Longrightarrow> is_i64 b \<Longrightarrow> Sub a b = (if is_i64 (a - b) then Inr (a - b) else Inl ErrOverflow)"
proof -
  assume ab: "is_i64 a" "is_i64 b"
  have "b < 0 \<Longrightarrow> is_i64 (max_i64 + b)" "0 < b \<Longrightarrow> is_i64 (min_i64 + b)"
    using ab by (auto simp: is_i64_def)
  with ab show ?thesis by (auto simp: Sub_def is_i64_def)
qed

lemma Neg_exact: "is_i64 a \<Longrightarrow> Neg a = (if is_i64 (- a) then Inr (- a) else Inl ErrOverflow)"
  by (auto simp: Neg_def is_i64_def wrap64_id)

lemma Abs_exact: "is_i64 a \<Longrightarrow> Abs a = (if is_i64 \<bar>a\<bar> then Inr \<bar>a\<bar> else Inl ErrOverflow)"
  by (auto simp: Abs_def Neg_exact abs_if)

lemma SumMinor_eq:
  "list_all is_i64 xs \<Longrightarrow>
   SumMinor xs = (if partial_ok 0 xs then Inr (sum_list xs) else Inl ErrOverflow)"
  by (simp add: SumMinor_def checked.foldE_add)

lemma SumMinor_nonneg:
  "\<forall>x \<in> set xs. 0 \<le> x \<and> is_i64 x \<Longrightarrow>
   SumMinor xs = (if is_i64 (sum_list xs) then Inr (sum_list xs) else Inl ErrOverflow)"
  by (simp add: SumMinor_def checked.foldE_add_nonneg)

subsection \<open>Rounding against the exact quotient\<close>

text \<open>The six modes on an exact rational, with floor and ceiling: the meaning of each mode.\<close>

definition round_ref :: "RoundingMode \<Rightarrow> rat \<Rightarrow> int" where
  "round_ref mode x =
     (if mode = RoundTowardZero then (if 0 \<le> x then \<lfloor>x\<rfloor> else \<lceil>x\<rceil>)
      else if mode = RoundAwayFromZero then (if 0 \<le> x then \<lceil>x\<rceil> else \<lfloor>x\<rfloor>)
      else if mode = RoundFloor then \<lfloor>x\<rfloor>
      else if mode = RoundCeiling then \<lceil>x\<rceil>
      else if mode = RoundHalfAwayFromZero then
        (if 0 \<le> x then \<lfloor>x + 1/2\<rfloor> else \<lceil>x - 1/2\<rceil>)
      else
        let f = \<lfloor>x\<rfloor>; d = x - of_int f in
        if d < 1/2 then f else if d > 1/2 then f + 1 else if even f then f else f + 1)"

text \<open>The quotient before the range check, on the magnitudes \<open>Q = |num| div |den|\<close> and
  \<open>R = |num| mod |den|\<close> and the sign.\<close>

definition round_mag :: "RoundingMode \<Rightarrow> int \<Rightarrow> int \<Rightarrow> int \<Rightarrow> int \<Rightarrow> int" where
  "round_mag mode s Q R D = s * Q +
     (if R \<noteq> 0 \<and>
         (if mode = RoundAwayFromZero then True
          else if mode = RoundFloor then s < 0
          else if mode = RoundCeiling then s > 0
          else if mode = RoundHalfAwayFromZero \<or> mode = RoundHalfEven then
            2 * R > D \<or> (2 * R = D \<and> (mode = RoundHalfAwayFromZero \<or> odd Q))
          else False)
      then s else 0)"

lemma roundQuotient_mag:
  assumes "RoundTowardZero \<le> mode" "mode \<le> RoundHalfEven" "den \<noteq> 0"
  shows "roundQuotient num den mode =
    (let v = round_mag mode (sgn num * sgn den) (\<bar>num\<bar> div \<bar>den\<bar>) (\<bar>num\<bar> mod \<bar>den\<bar>) \<bar>den\<bar>
     in if is_i64 v then Inr v else Inl ErrOverflow)"
proof -
  let ?s = "sgn num * sgn den" and ?Q = "\<bar>num\<bar> div \<bar>den\<bar>" and ?R = "\<bar>num\<bar> mod \<bar>den\<bar>"
  have q: "num sdiv den = ?s * ?Q" by (simp add: signed_divide_int_def)
  have r: "\<bar>num smod den\<bar> = ?R"
    using assms(3) pos_mod_sign [of "\<bar>den\<bar>" "\<bar>num\<bar>"]
    by (cases "num = 0") (simp_all add: signed_modulo_int_def abs_mult)
  then have r0: "num smod den \<noteq> 0 \<longleftrightarrow> ?R \<noteq> 0" by (metis abs_0_eq abs_eq_0)
  have odd: "odd (num sdiv den) = odd ?Q"
    using assms(3) by (cases "num = 0") (auto simp: q sgn_if)
  have mode: "\<not> (mode < RoundTowardZero \<or> mode > RoundHalfEven)" using assms by auto
  show ?thesis
    unfolding roundQuotient_def if_not_P [OF mode] if_not_P [OF assms(3)] Let_def r r0 odd
    unfolding q round_mag_def
    by simp
qed

lemma valid_modes:
  assumes "RoundTowardZero \<le> mode" "mode \<le> RoundHalfEven"
  shows "mode = RoundTowardZero \<or> mode = RoundAwayFromZero \<or> mode = RoundFloor \<or>
    mode = RoundCeiling \<or> mode = RoundHalfAwayFromZero \<or> mode = RoundHalfEven"
proof -
  have "1 \<le> unat mode" "unat mode \<le> 6" using assms by (simp_all add: word_le_nat_alt)
  then have "unat mode \<in> {1, 2, 3, 4, 5, 6}" by auto
  then have "mode \<in> {1, 2, 3, 4, 5, 6}"
    by (auto simp: word_unat_eq_iff)
  then show ?thesis by auto
qed

lemma floor_frac: "0 \<le> f \<Longrightarrow> f < 1 \<Longrightarrow> \<lfloor>of_int Q + f\<rfloor> = (Q :: int)" for f :: rat
  by (simp add: floor_unique)

lemma ceiling_frac: "0 \<le> f \<Longrightarrow> f < 1 \<Longrightarrow> \<lceil>of_int Q + f\<rceil> = (if f = 0 then Q else Q + 1)" for f :: rat
  by (auto intro!: ceiling_unique)

lemma floor_half_frac:
  "0 \<le> f \<Longrightarrow> f < 1 \<Longrightarrow> \<lfloor>of_int Q + f + 1/2\<rfloor> = (if f < 1/2 then Q else Q + 1)" for f :: rat
  by (auto intro!: floor_unique)

text \<open>The reference on \<open>Q + R / D\<close> with \<open>0 \<le> R < D\<close>, one sign at a time.\<close>

lemma round_ref_pos_frac:
  fixes f :: rat
  assumes f: "0 \<le> f" "f < 1" and "0 \<le> Q" "RoundTowardZero \<le> mode" "mode \<le> RoundHalfEven"
    and R: "f = 0 \<longleftrightarrow> R = 0" "1/2 < f \<longleftrightarrow> 2 * R > D" "f = 1/2 \<longleftrightarrow> 2 * R = D"
  shows "round_ref mode (of_int Q + f) = round_mag mode 1 Q R D"
proof -
  have nn: "0 \<le> of_int Q + f" using assms by simp
  from valid_modes [OF assms(4,5)] show ?thesis
    by (elim disjE)
      (use f in \<open>auto simp: round_ref_def round_mag_def Let_def nn floor_half_frac [OF f]
        floor_frac [OF f] ceiling_frac [OF f] R [symmetric] not_less\<close>)
qed

lemma round_ref_pos:
  assumes "0 \<le> R" "R < D" "0 \<le> Q" "RoundTowardZero \<le> mode" "mode \<le> RoundHalfEven"
  shows "round_ref mode (of_int Q + of_int R / of_int D) = round_mag mode 1 Q R D"
proof (rule round_ref_pos_frac)
  have D: "(0::rat) < of_int D" using assms(1,2) by simp
  show "1/2 < (of_int R / of_int D :: rat) \<longleftrightarrow> 2 * R > D"
    using D by (simp add: field_simps) (metis of_int_less_iff of_int_mult of_int_numeral)
  show "(of_int R / of_int D :: rat) = 1/2 \<longleftrightarrow> 2 * R = D"
    using D by (simp add: field_simps) (metis of_int_eq_iff of_int_mult of_int_numeral mult.commute)
qed (use assms in simp_all)

lemma round_ref_minus:
  assumes "RoundTowardZero \<le> mode" "mode \<le> RoundHalfEven"
  shows "round_ref mode (- x) = - round_ref
    (if mode = RoundFloor then RoundCeiling else if mode = RoundCeiling then RoundFloor else mode) x"
proof -
  have even: "round_ref RoundHalfEven (- x) = - round_ref RoundHalfEven x"
  proof (cases "x = of_int \<lfloor>x\<rfloor>")
    case True
    then obtain n :: int where "x = of_int n" by blast
    then have "- x = of_int (- n)" by simp
    with \<open>x = of_int n\<close> show ?thesis by (simp add: round_ref_def)
  next
    case False
    then have *: "\<lfloor>- x\<rfloor> = - \<lfloor>x\<rfloor> - 1" by (simp add: floor_minus ceiling_altdef)
    have "- x - of_int (- \<lfloor>x\<rfloor> - 1) = 1 - (x - of_int \<lfloor>x\<rfloor>)" by simp
    with * show ?thesis by (auto simp: round_ref_def Let_def)
  qed
  have h: "\<lfloor>- x + 1/2\<rfloor> = - \<lceil>x - 1/2\<rceil>" "\<lfloor>1/2 - x\<rfloor> = - \<lceil>x - 1/2\<rceil>" "\<lceil>- x - 1/2\<rceil> = - \<lfloor>x + 1/2\<rfloor>"
    using floor_minus [of "x - 1/2"] ceiling_minus [of "x + 1/2"] by (simp_all add: algebra_simps)
  have half0: "\<lfloor>1/2 :: rat\<rfloor> = 0" by (rule floor_unique) simp_all
  have "round_ref m (- x) = - round_ref m x" if "m \<in> {1, 2, 5}" for m
    using that half0 by (cases "x = 0") (auto simp: round_ref_def floor_minus ceiling_minus h)
  with even valid_modes [OF assms(1,2)] show ?thesis
    by (auto simp: round_ref_def [of 3] round_ref_def [of 4] floor_minus ceiling_minus)
qed

lemma round_mag_minus:
  "round_mag mode (- 1) Q R D = - round_mag
    (if mode = RoundFloor then RoundCeiling else if mode = RoundCeiling then RoundFloor else mode) 1 Q R D"
  by (auto simp: round_mag_def)

lemma round_mag_zero: "round_mag mode 0 Q R D = 0"
  by (simp add: round_mag_def)

lemma of_int_div_mod:
  "D \<noteq> 0 \<Longrightarrow> n = Q * D + R \<Longrightarrow> (of_int Q + of_int R / of_int D :: rat) = of_int n / of_int D"
  by (simp add: field_simps)

lemma quotient_magnitudes:
  assumes "den \<noteq> 0"
  shows "(of_int num / of_int den :: rat) = of_int (sgn num * sgn den) *
    (of_int (\<bar>num\<bar> div \<bar>den\<bar>) + of_int (\<bar>num\<bar> mod \<bar>den\<bar>) / of_int \<bar>den\<bar>)"
proof -
  have "(of_int (\<bar>num\<bar> div \<bar>den\<bar>) + of_int (\<bar>num\<bar> mod \<bar>den\<bar>) / of_int \<bar>den\<bar> :: rat)
      = of_int \<bar>num\<bar> / of_int \<bar>den\<bar>"
    by (rule of_int_div_mod) (use assms in simp_all)
  then show ?thesis
    using assms by (auto simp: sgn_if abs_if)
qed

lemma round_mag_ref:
  assumes "den \<noteq> 0" "RoundTowardZero \<le> mode" "mode \<le> RoundHalfEven"
  shows "round_mag mode (sgn num * sgn den) (\<bar>num\<bar> div \<bar>den\<bar>) (\<bar>num\<bar> mod \<bar>den\<bar>) \<bar>den\<bar>
    = round_ref mode (of_int num / of_int den)"
proof -
  let ?Q = "\<bar>num\<bar> div \<bar>den\<bar>" and ?R = "\<bar>num\<bar> mod \<bar>den\<bar>" and ?D = "\<bar>den\<bar>"
  let ?m = "if mode = RoundFloor then RoundCeiling else if mode = RoundCeiling then RoundFloor else mode"
  have D: "0 < ?D" using assms by simp
  have R: "0 \<le> ?R" "?R < ?D" using D by (rule pos_mod_sign, rule pos_mod_bound)
  have Q: "0 \<le> ?Q" using D by (simp add: pos_imp_zdiv_nonneg_iff)
  have m: "RoundTowardZero \<le> ?m" "?m \<le> RoundHalfEven" using assms by auto
  have pos: "round_ref m (of_int ?Q + of_int ?R / of_int ?D) = round_mag m 1 ?Q ?R ?D"
    if "RoundTowardZero \<le> m" "m \<le> RoundHalfEven" for m
    by (rule round_ref_pos [OF R Q that])
  have x: "of_int num / of_int den = of_int (sgn num * sgn den) *
      (of_int ?Q + of_int ?R / of_int ?D :: rat)" by (rule quotient_magnitudes [OF assms(1)])
  consider "sgn num * sgn den = 1" | "sgn num * sgn den = -1" | "num = 0"
    using assms(1) by (cases "num = 0"; cases "0 < num"; cases "0 < den") (auto simp: sgn_if)
  then show ?thesis
  proof cases
    case 1
    with x pos [OF assms(2,3)] show ?thesis by simp
  next
    case 2
    with x pos [OF m] show ?thesis
      by (simp add: round_mag_minus round_ref_minus [OF assms(2,3)] del: minus_add_distrib)
  next
    case 3
    have "round_ref mode 0 = 0" using pos [OF assms(2,3)] 3 assms(1) by (simp add: round_mag_def)
    with 3 show ?thesis by (simp add: round_mag_zero)
  qed
qed

lemma roundQuotient_eq:
  assumes "RoundTowardZero \<le> mode" "mode \<le> RoundHalfEven" "den \<noteq> 0"
  shows "roundQuotient num den mode =
    (let v = round_ref mode (of_int num / of_int den)
     in if is_i64 v then Inr v else Inl ErrOverflow)"
  by (simp only: roundQuotient_mag [OF assms] round_mag_ref [OF assms(3,1,2)])

text \<open>Go's truncating quotient adjusted upwards is the ceiling.\<close>

lemma ceiling_sdiv:
  assumes "den \<noteq> 0"
  shows "\<lceil>of_int a / of_int den :: rat\<rceil> =
    (if a smod den \<noteq> 0 \<and> (a < 0) = (den < 0) then a sdiv den + 1 else a sdiv den)"
proof -
  have "round_mag RoundCeiling (sgn a * sgn den) (\<bar>a\<bar> div \<bar>den\<bar>) (\<bar>a\<bar> mod \<bar>den\<bar>) \<bar>den\<bar>
      = \<lceil>of_int a / of_int den :: rat\<rceil>"
    using round_mag_ref [OF assms, of RoundCeiling a] by (simp add: round_ref_def)
  moreover have "a smod den \<noteq> 0 \<longleftrightarrow> \<bar>a\<bar> mod \<bar>den\<bar> \<noteq> 0"
    by (cases "a = 0") (auto simp: signed_modulo_int_def sgn_if)
  ultimately show ?thesis
    using assms by (auto simp: round_mag_def signed_divide_int_def sgn_if split: if_splits)
qed

lemma sdiv_i64:
  assumes "is_i64 a" "is_i64 b" "b \<noteq> 0" "\<not> (a = min_i64 \<and> b = -1)"
  shows "is_i64 (a sdiv b)"
proof -
  have "\<bar>a\<bar> div \<bar>b\<bar> < \<bar>a\<bar>" if "1 < \<bar>b\<bar>" "a \<noteq> 0" using that by (simp add: int_div_less_self)
  moreover have "\<bar>a sdiv b\<bar> = \<bar>a\<bar> div \<bar>b\<bar>" by (rule abs_sdiv)
  moreover have "a sdiv 1 = a" by (simp add: signed_divide_int_def sgn_mult_abs)
  moreover have "0 sdiv b = 0" by (simp add: signed_divide_int_def)
  ultimately show ?thesis
    using assms by (cases "\<bar>b\<bar> = 1"; cases "a = 0") (auto simp: is_i64_def abs_if split: if_splits)
qed

text \<open>for int64 operands \<open>CeilDiv\<close> is the mathematical ceiling of the quotient whenever that
  fits, reports a zero divisor, and reports overflow exactly when the ceiling does not fit.\<close>

theorem CeilDiv_is_ceiling:
  assumes "is_i64 a" "is_i64 den"
  shows "CeilDiv a den =
    (if den = 0 then Inl ErrDivisionByZero
     else let c = \<lceil>of_int a / of_int den :: rat\<rceil>
          in if is_i64 c then Inr c else Inl ErrOverflow)"
proof (cases "den = 0 \<or> (a = min_i64 \<and> den = -1)")
  case True
  then show ?thesis by (auto simp: CeilDiv_def is_i64_def)
next
  case False
  then have q: "is_i64 (a sdiv den)" using assms by (intro sdiv_i64) auto
  then show ?thesis
    using False ceiling_sdiv [of den a]
    by (auto simp: CeilDiv_def go_div_def go_rem_def Add_exact)
qed

lemma CeilDiv_is_ceiling_witness:
  "CeilDiv (-7) 2 = Inr (-3) \<and> CeilDiv min_i64 (-1) = Inl ErrOverflow"
  using CeilDiv_is_ceiling [of "-7" 2] CeilDiv_is_ceiling [of min_i64 "-1"]
  by (simp add: is_i64_def ceiling_def floor_divide_of_int_eq [of 7 2, simplified])

lemma Mul_exact: "Mul a b = (if is_i64 (a * b) then Inr (a * b) else Inl ErrOverflow)"
proof -
  have "round_ref RoundTowardZero (of_int (a * b) / of_int 1) = a * b"
    unfolding round_ref_def of_int_1 div_by_1 floor_of_int ceiling_of_int by simp
  moreover have "roundQuotient (a * b) 1 RoundTowardZero =
      (let v = round_ref RoundTowardZero (of_int (a * b) / of_int 1)
       in if is_i64 v then Inr v else Inl ErrOverflow)"
    by (rule roundQuotient_eq) (simp_all add: word_le_nat_alt)
  ultimately show ?thesis by (simp only: Mul_def MulDiv_def Let_def)
qed

text \<open>on int64 operands each checked operation returns the exact integer result when it fits
  in int64 and \<open>ErrOverflow\<close> otherwise; none of them ever returns a wrapped value.\<close>

theorem checked_ops_exact:
  assumes "is_i64 a" "is_i64 b"
  shows "Add a b = (if is_i64 (a + b) then Inr (a + b) else Inl ErrOverflow) \<and>
    Sub a b = (if is_i64 (a - b) then Inr (a - b) else Inl ErrOverflow) \<and>
    Mul a b = (if is_i64 (a * b) then Inr (a * b) else Inl ErrOverflow) \<and>
    Neg a = (if is_i64 (- a) then Inr (- a) else Inl ErrOverflow) \<and>
    Abs a = (if is_i64 \<bar>a\<bar> then Inr \<bar>a\<bar> else Inl ErrOverflow)"
  using assms
  by (simp add: Add_exact Sub_exact Neg_exact Abs_exact Mul_exact)

lemma checked_ops_exact_witness:
  "Mul max_i64 2 = Inl ErrOverflow \<and> Sub min_i64 1 = Inl ErrOverflow \<and> Add 3 (-5) = Inr (-2)"
  using checked_ops_exact [of max_i64 2] checked_ops_exact [of min_i64 1]
    checked_ops_exact [of 3 "-5"] by (simp add: is_i64_def)

text \<open>C26: \<open>MulDiv\<close> is the exact rational \<open>a * num / den\<close> rounded once in the requested mode: it
  returns that integer when it fits in int64 and overflow otherwise, whatever the size of the
  product; an unknown mode is reported before a zero divisor.\<close>

theorem MulDiv_rounds_once:
  "MulDiv a num den mode =
    (if mode < RoundTowardZero \<or> mode > RoundHalfEven then Inl ErrRoundingMode
     else if den = 0 then Inl ErrDivisionByZero
     else let v = round_ref mode (of_int (a * num) / of_int den)
          in if is_i64 v then Inr v else Inl ErrOverflow)"
proof (cases "(mode < RoundTowardZero \<or> mode > RoundHalfEven) \<or> den = 0")
  case True
  then show ?thesis by (auto simp: MulDiv_def roundQuotient_def)
next
  case False
  then have "RoundTowardZero \<le> mode" "mode \<le> RoundHalfEven" "den \<noteq> 0" by (auto simp only: not_less)
  from roundQuotient_eq [OF this] show ?thesis
    using False by (simp only: MulDiv_def) auto
qed

subsection \<open>Money values\<close>

record Money =
  Amount :: int
  Currency :: string

definition normalizeCode :: "string \<Rightarrow> string" where
  "normalizeCode currency = to_upper (trim_space currency)"

definition New :: "int \<Rightarrow> string \<Rightarrow> Money" where
  "New amount currency = \<lparr>Amount = amount, Currency = normalizeCode currency\<rparr>"

definition Zero :: "string \<Rightarrow> Money" where
  "Zero currency = \<lparr>Amount = 0, Currency = normalizeCode currency\<rparr>"

text \<open>\<open>Money{}\<close>, Go's zero value.\<close>

definition Money_empty :: Money where
  "Money_empty = \<lparr>Amount = 0, Currency = []\<rparr>"

definition IsZero :: "Money \<Rightarrow> bool" where "IsZero m \<longleftrightarrow> Amount m = 0"
definition IsPositive :: "Money \<Rightarrow> bool" where "IsPositive m \<longleftrightarrow> Amount m > 0"
definition IsNegative :: "Money \<Rightarrow> bool" where "IsNegative m \<longleftrightarrow> Amount m < 0"

definition NegChecked :: "Money \<Rightarrow> money_error + Money" where
  "NegChecked m = bindE (Neg (Amount m)) (\<lambda>amount. Inr \<lparr>Amount = amount, Currency = Currency m\<rparr>)"

definition AbsChecked :: "Money \<Rightarrow> money_error + Money" where
  "AbsChecked m = bindE (Abs (Amount m)) (\<lambda>amount. Inr \<lparr>Amount = amount, Currency = Currency m\<rparr>)"

text \<open>The deprecated \<open>Neg\<close> and \<open>Abs\<close> panic where the checked forms return an error.\<close>

definition Money_Neg :: "Money \<Rightarrow> Money option" where
  "Money_Neg m = (case NegChecked m of Inl _ \<Rightarrow> None | Inr v \<Rightarrow> Some v)"

definition Money_Abs :: "Money \<Rightarrow> Money option" where
  "Money_Abs m = (case AbsChecked m of Inl _ \<Rightarrow> None | Inr v \<Rightarrow> Some v)"

definition Money_Add :: "Money \<Rightarrow> Money \<Rightarrow> money_error + Money" where
  "Money_Add m n =
     (if Currency m \<noteq> Currency n then Inl ErrCurrencyMismatch
      else bindE (Add (Amount m) (Amount n)) (\<lambda>amount. Inr \<lparr>Amount = amount, Currency = Currency m\<rparr>))"

definition Money_Sub :: "Money \<Rightarrow> Money \<Rightarrow> money_error + Money" where
  "Money_Sub m n =
     (if Currency m \<noteq> Currency n then Inl ErrCurrencyMismatch
      else bindE (Sub (Amount m) (Amount n)) (\<lambda>amount. Inr \<lparr>Amount = amount, Currency = Currency m\<rparr>))"

definition Money_MulDiv :: "Money \<Rightarrow> int \<Rightarrow> int \<Rightarrow> RoundingMode \<Rightarrow> money_error + Money" where
  "Money_MulDiv m num den mode =
     bindE (MulDiv (Amount m) num den mode)
       (\<lambda>amount. Inr \<lparr>Amount = amount, Currency = Currency m\<rparr>)"

definition Money_Mul :: "Money \<Rightarrow> int \<Rightarrow> money_error + Money" where
  "Money_Mul m factor = Money_MulDiv m factor 1 RoundTowardZero"

definition Money_Cmp :: "Money \<Rightarrow> Money \<Rightarrow> money_error + int" where
  "Money_Cmp m n =
     (if Currency m \<noteq> Currency n then Inl ErrCurrencyMismatch
      else if Amount m < Amount n then Inr (- 1)
      else if Amount m > Amount n then Inr 1
      else Inr 0)"

definition Money_Equal :: "Money \<Rightarrow> Money \<Rightarrow> bool" where
  "Money_Equal m n \<longleftrightarrow> Currency m = Currency n \<and> Amount m = Amount n"

definition Money_Sum :: "Money list \<Rightarrow> money_error + Money" where
  "Money_Sum values =
     (case values of [] \<Rightarrow> Inr Money_empty | first # rest \<Rightarrow> foldE Money_Add first rest)"

lemma Money_Add_eq:
  "is_i64 (Amount m) \<Longrightarrow> is_i64 (Amount n) \<Longrightarrow>
   Money_Add m n =
     (if Currency m \<noteq> Currency n then Inl ErrCurrencyMismatch
      else if is_i64 (Amount m + Amount n)
        then Inr \<lparr>Amount = Amount m + Amount n, Currency = Currency m\<rparr>
      else Inl ErrOverflow)"
  by (simp add: Money_Add_def Add_exact)

text \<open>\<open>Sum\<close> of Money values stops at the first value of another currency or at the first
  partial sum outside int64, whichever comes first; otherwise it is the exact total in the
  currency of the first value.\<close>

theorem Money_Sum_first_failure:
  assumes "list_all (\<lambda>m. is_i64 (Amount m)) (v # vs)"
  shows "Money_Sum (v # vs) =
    (let same = takeWhile (\<lambda>n. Currency n = Currency v) vs
     in if \<not> partial_ok (Amount v) (map Amount same) then Inl ErrOverflow
        else if length same < length vs then Inl ErrCurrencyMismatch
        else Inr \<lparr>Amount = sum_list (map Amount (v # vs)), Currency = Currency v\<rparr>)"
proof -
  have "list_all (\<lambda>m. is_i64 (Amount m)) (v # vs) \<Longrightarrow> foldE Money_Add v vs =
    (let same = takeWhile (\<lambda>n. Currency n = Currency v) vs
     in if \<not> partial_ok (Amount v) (map Amount same) then Inl ErrOverflow
        else if length same < length vs then Inl ErrCurrencyMismatch
        else Inr \<lparr>Amount = sum_list (map Amount (v # vs)), Currency = Currency v\<rparr>)"
  proof (induction vs arbitrary: v)
    case (Cons n vs)
    show ?case
    proof (cases "Currency n = Currency v \<and> is_i64 (Amount v + Amount n)")
      case True
      then show ?thesis
        using Cons.prems Cons.IH [of "\<lparr>Amount = Amount v + Amount n, Currency = Currency v\<rparr>"]
        by (simp add: Money_Add_eq Let_def add.assoc)
    next
      case False
      then show ?thesis
        using Cons.prems by (auto simp: Money_Add_eq Let_def dest: partial_ok_acc)
    qed
  qed simp
  with assms show ?thesis by (simp add: Money_Sum_def)
qed

lemma Money_Sum_first_failure_witness:
  "Money_Sum [\<lparr>Amount = 5, Currency = ''USD''\<rparr>, \<lparr>Amount = - 7, Currency = ''USD''\<rparr>] =
     Inr \<lparr>Amount = - 2, Currency = ''USD''\<rparr> \<and>
   Money_Sum [\<lparr>Amount = 5, Currency = ''USD''\<rparr>, \<lparr>Amount = 7, Currency = ''EUR''\<rparr>] =
     Inl ErrCurrencyMismatch"
  using Money_Sum_first_failure [of "\<lparr>Amount = 5, Currency = ''USD''\<rparr>" "[\<lparr>Amount = - 7, Currency = ''USD''\<rparr>]"]
    Money_Sum_first_failure [of "\<lparr>Amount = 5, Currency = ''USD''\<rparr>" "[\<lparr>Amount = 7, Currency = ''EUR''\<rparr>]"]
  by (simp add: is_i64_def)

lemmas money_defs = Money_Add_def Money_Sub_def Money_MulDiv_def Money_Mul_def Money_Cmp_def
  Money_Equal_def NegChecked_def AbsChecked_def

end
