(* ===== verification/Allocation.thy ===== *)
theory Allocation
  imports Money
begin

text \<open>
  \<open>internal/money/allocation.go\<close>: largest-remainder apportionment on unsigned 128-bit
  products, with the eight-pass radix ordering of the remainders. A \<open>uint64\<close> is a \<open>nat\<close> below
  \<open>2^64\<close> with the modulus written out; \<open>None\<close> is a panic (\<open>bits.Div64\<close> on a quotient that does
  not fit, an index out of range). The locale \<open>apportion\<close> is what the splitting code relies on.
\<close>

subsection \<open>Unsigned arithmetic\<close>

abbreviation u64 :: nat where "u64 \<equiv> 18446744073709551616"

definition Mul64 :: "nat \<Rightarrow> nat \<Rightarrow> nat \<times> nat" where
  "Mul64 x y = ((x * y) div u64, (x * y) mod u64)"

definition Div64 :: "nat \<Rightarrow> nat \<Rightarrow> nat \<Rightarrow> (nat \<times> nat) option" where
  "Div64 hi lo y =
     (if y = 0 \<or> y \<le> hi then None else Some ((hi * u64 + lo) div y, (hi * u64 + lo) mod y))"

definition sub_u64 :: "nat \<Rightarrow> nat \<Rightarrow> nat" where
  "sub_u64 a b = (a + u64 - b) mod u64"

text \<open>\<open>int64(q)\<close> and \<open>uint64(x)\<close>.\<close>

definition i64_of_u64 :: "nat \<Rightarrow> int" where "i64_of_u64 q = wrap64 (int q)"
definition u64_of_i64 :: "int \<Rightarrow> nat" where "u64_of_i64 x = nat (x mod two64)"

definition magnitude :: "int \<Rightarrow> nat" where
  "magnitude amount =
     (if amount < 0 then (u64_of_i64 (wrap64 (- wrap64 (amount + 1))) + 1) mod u64
      else u64_of_i64 amount)"

lemma magnitude_abs: "is_i64 a \<Longrightarrow> magnitude a = nat \<bar>a\<bar>"
proof -
  assume a: "is_i64 a"
  have "a < 0 \<Longrightarrow> is_i64 (a + 1) \<and> is_i64 (- (a + 1))" using a by (auto simp: is_i64_def)
  then show ?thesis
    using a by (auto simp: magnitude_def u64_of_i64_def is_i64_def nat_add_distrib [symmetric])
qed

lemma mul_div_64: "w \<le> W \<Longrightarrow> 0 < W \<Longrightarrow> a < u64 \<Longrightarrow>
   (case Mul64 a w of (hi, lo) \<Rightarrow> Div64 hi lo W) = Some (a * w div W, a * w mod W)"
proof -
  assume "w \<le> W" "0 < W" "a < u64"
  then have "a * w < W * u64"
    by (metis le_less_trans mult.commute mult_le_mono2 mult_less_cancel2)
  then have "a * w div u64 < W" by (simp add: less_mult_imp_div_less)
  then show ?thesis by (simp add: Mul64_def Div64_def)
qed

subsection \<open>The radix ordering\<close>

text \<open>\<open>key\<close> of a pass: \<open>255 - byte(remainders[index]>>shift)\<close>.\<close>

definition radix_key :: "nat list \<Rightarrow> nat \<Rightarrow> nat \<Rightarrow> nat" where
  "radix_key remainders shift index = 255 - (remainders ! index div 2 ^ shift) mod 256"

definition count_keys :: "(nat \<Rightarrow> nat) \<Rightarrow> nat list \<Rightarrow> nat list" where
  "count_keys key order = foldl (\<lambda>offsets i. offsets[key i := offsets ! key i + 1]) (replicate 256 0) order"

text \<open>The running \<open>position\<close> turns the counts into the start of each bucket.\<close>

fun bucket_starts :: "nat \<Rightarrow> nat list \<Rightarrow> nat list" where
  "bucket_starts position [] = []"
| "bucket_starts position (c # cs) = position # bucket_starts (position + c) cs"

fun scatter :: "(nat \<Rightarrow> nat) \<Rightarrow> nat list \<times> nat list \<Rightarrow> nat list \<Rightarrow> nat list \<times> nat list" where
  "scatter key (scratch, offsets) [] = (scratch, offsets)"
| "scatter key (scratch, offsets) (i # order) =
     scatter key (scratch[offsets ! key i := i], offsets[key i := offsets ! key i + 1]) order"

text \<open>One pass; the result is the swapped pair \<open>(order, scratch)\<close>.\<close>

definition radix_pass :: "nat list \<Rightarrow> nat list \<times> nat list \<Rightarrow> nat \<Rightarrow> nat list \<times> nat list" where
  "radix_pass remainders st shift =
     (case st of (order, scratch) \<Rightarrow>
       let key = radix_key remainders shift;
           offsets = bucket_starts 0 (count_keys key order)
       in (fst (scatter key (scratch, offsets) order), order))"

definition remainderOrder :: "nat list \<Rightarrow> nat list" where
  "remainderOrder remainders =
     fst (foldl (radix_pass remainders)
       ([0..<length remainders], replicate (length remainders) 0)
       [0, 8, 16, 24, 32, 40, 48, 56])"

subsection \<open>Allocate\<close>

definition sum_weights :: "int list \<Rightarrow> money_error + int" where
  "sum_weights weights =
     foldE (\<lambda>s w. if w < 0 then Inl ErrInvalidWeights else Add s w) 0 weights"

text \<open>The loop over the weights: the quotients, the remainders and what is left of the amount.\<close>

fun floor_shares :: "nat \<Rightarrow> nat \<Rightarrow> int list \<Rightarrow> nat \<Rightarrow> (nat list \<times> nat list \<times> nat) option" where
  "floor_shares amount den [] left = Some ([], [], left)"
| "floor_shares amount den (w # ws) left =
     (case Mul64 amount (u64_of_i64 w) of (hi, lo) \<Rightarrow>
       case Div64 hi lo den of None \<Rightarrow> None
       | Some (q, r) \<Rightarrow>
           (case floor_shares amount den ws (sub_u64 left q) of None \<Rightarrow> None
            | Some (qs, rs, left') \<Rightarrow> Some (q # qs, r # rs, left')))"

text \<open>\<open>for i := 0; i < left; i++ { quotients[order[i]]++ }\<close>.\<close>

fun award :: "nat list \<Rightarrow> nat list \<Rightarrow> nat \<Rightarrow> nat list option" where
  "award quotients [] left = (if left = 0 then Some quotients else None)"
| "award quotients (i # order) left =
     (if left = 0 then Some quotients
      else if i < length quotients
        then award (quotients[i := (quotients ! i + 1) mod u64]) order (left - 1)
      else None)"

definition signed_share :: "int \<Rightarrow> nat \<Rightarrow> int" where
  "signed_share tot q =
     (if tot < 0 then (if q = 2 ^ 63 then min_i64 else wrap64 (- i64_of_u64 q)) else i64_of_u64 q)"

definition Allocate :: "int \<Rightarrow> int list \<Rightarrow> (money_error + int list) option" where
  "Allocate tot weights =
     (case sum_weights weights of
        Inl e \<Rightarrow> Some (Inl e)
      | Inr weightSum \<Rightarrow>
          if weightSum = 0 then Some (Inl ErrInvalidWeights)
          else if tot = 0 then Some (Inr (replicate (length weights) 0))
          else
            (case floor_shares (magnitude tot) (u64_of_i64 weightSum) weights (magnitude tot) of
               None \<Rightarrow> None
             | Some (quotients, remainders, left) \<Rightarrow>
                 (case (if left > 0 then award quotients (remainderOrder remainders) left
                        else Some quotients) of
                    None \<Rightarrow> None
                  | Some quotients' \<Rightarrow> Some (Inr (map (signed_share tot) quotients')))))"

subsection \<open>One pass is a stable sort by its key\<close>

abbreviation bucket :: "('a \<Rightarrow> nat) \<Rightarrow> 'a list \<Rightarrow> nat \<Rightarrow> 'a list" where
  "bucket key xs k \<equiv> filter (\<lambda>x. key x = k) xs"

definition start_of :: "('a \<Rightarrow> nat) \<Rightarrow> 'a list \<Rightarrow> nat \<Rightarrow> nat" where
  "start_of key xs k = (\<Sum>j < k. length (bucket key xs j))"

lemma start_of_Suc: "start_of key xs (Suc k) = start_of key xs k + length (bucket key xs k)"
  by (simp add: start_of_def)

lemma start_of_mono: "j \<le> k \<Longrightarrow> start_of key xs j \<le> start_of key xs k"
  unfolding start_of_def by (rule sum_mono2) auto

lemma slots_disjoint:
  assumes "start_of key xs j + m = start_of key xs k + n"
    "m < length (bucket key xs j)" "n < length (bucket key xs k)"
  shows "j = k"
proof -
  have "False" if "a < b" "start_of key xs a + m' = start_of key xs b + n'"
    "m' < length (bucket key xs a)" for a b m' n'
    using start_of_mono [of "Suc a" b key xs] that by (simp add: start_of_Suc)
  with assms show ?thesis by (metis linorder_neqE_nat)
qed

lemma length_concat_buckets: "length (concat (map (bucket key xs) [0..<k])) = start_of key xs k"
  by (induction k) (simp_all add: start_of_def)

lemma concat_buckets_nth:
  "j < k \<Longrightarrow> m < length (bucket key xs j) \<Longrightarrow>
   concat (map (bucket key xs) [0..<k]) ! (start_of key xs j + m) = bucket key xs j ! m"
proof (induction k)
  case (Suc k)
  show ?case
  proof (cases "j = k")
    case True
    then show ?thesis using Suc.prems by (simp add: nth_append length_concat_buckets)
  next
    case False
    then have "start_of key xs j + m < start_of key xs k"
      using Suc.prems start_of_mono [of "Suc j" k key xs] by (simp add: start_of_Suc)
    with Suc False show ?thesis by (simp add: nth_append length_concat_buckets)
  qed
qed simp

lemma slot_exists:
  "p < start_of key xs k \<Longrightarrow> \<exists>j m. j < k \<and> m < length (bucket key xs j) \<and> p = start_of key xs j + m"
proof (induction k)
  case (Suc k)
  show ?case
  proof (cases "p < start_of key xs k")
    case False
    with Suc.prems have "p - start_of key xs k < length (bucket key xs k)" "p = start_of key xs k + (p - start_of key xs k)"
      by (simp_all add: start_of_Suc)
    then show ?thesis by blast
  qed (use Suc.IH less_SucI in blast)
qed (simp add: start_of_def)

lemma mset_concat_buckets:
  "\<forall>x \<in> set xs. key x < n \<Longrightarrow> mset (concat (map (bucket key xs) [0..<n])) = mset xs"
proof (induction xs)
  case Nil
  then show ?case by (induction n) auto
next
  case (Cons x xs)
  have "mset (concat (map (bucket key (x # xs)) [0..<m])) =
      mset (concat (map (bucket key xs) [0..<m])) + (if key x < m then {#x#} else {#})" for m
    by (induction m) auto
  with Cons show ?case by simp
qed

lemma filter_concat_buckets:
  "filter (\<lambda>x. key x = k) (concat (map (bucket key xs) [0..<n])) = (if k < n then bucket key xs k else [])"
  by (induction n) (auto simp: less_Suc_eq intro!: filter_False)

lemma sorted_concat_buckets: "sorted (map key (concat (map (bucket key xs) [0..<n])))"
  by (induction n) (auto simp: sorted_append sorted_map intro!: sorted_wrt_mono_rel [OF _ sorted_wrt_true])

text \<open>The concatenation of the buckets is HOL's stable \<open>sort_key\<close>.\<close>

lemma concat_buckets_sort_key:
  assumes "\<forall>x \<in> set xs. key x < n"
  shows "concat (map (bucket key xs) [0..<n]) = sort_key key xs"
proof (rule properties_for_sort_key [symmetric])
  show "mset (concat (map (bucket key xs) [0..<n])) = mset xs" by (rule mset_concat_buckets [OF assms])
  show "sorted (map key (concat (map (bucket key xs) [0..<n])))" by (rule sorted_concat_buckets)
  fix k assume "k \<in> set (concat (map (bucket key xs) [0..<n]))"
  then have kn: "(key k < n) = True" by auto
  have eq: "(\<lambda>x. key k = key x) = (\<lambda>x. key x = key k)" by auto
  show "filter (\<lambda>x. key k = key x) (concat (map (bucket key xs) [0..<n]))
      = filter (\<lambda>x. key k = key x) xs"
    using filter_concat_buckets [of key "key k" xs n] by (simp only: eq kn if_True)
qed

lemma length_count_keys_aux:
  "length (foldl (\<lambda>offsets i. offsets[key i := Suc (offsets ! key i)]) offs xs) = length offs"
  by (induction xs arbitrary: offs) auto

lemma count_keys_aux:
  assumes "\<forall>i \<in> set xs. key i < length offs" "k < length offs"
  shows "foldl (\<lambda>offsets i. offsets[key i := Suc (offsets ! key i)]) offs xs ! k
    = offs ! k + length (bucket key xs k)"
  using assms by (induction xs arbitrary: offs) auto

lemma count_keys_eq:
  "\<forall>i \<in> set xs. key i < 256 \<Longrightarrow> count_keys key xs = map (\<lambda>k. length (bucket key xs k)) [0..<256]"
  by (rule nth_equalityI)
    (simp_all add: count_keys_def length_count_keys_aux count_keys_aux)

lemma bucket_starts_eq:
  "bucket_starts p cs = map (\<lambda>k. p + sum_list (take k cs)) [0..<length cs]"
proof (induction p cs rule: bucket_starts.induct)
  case (2 p c cs)
  have "[0..<length (c # cs)] = 0 # map Suc [0..<length cs]" by (simp add: upt_conv_Cons map_Suc_upt del: upt_Suc)
  then show ?case by (simp add: 2 add.assoc del: upt_Suc)
qed simp

lemma starts_eq:
  assumes "\<forall>i \<in> set xs. key i < 256"
  shows "bucket_starts 0 (count_keys key xs) = map (start_of key xs) [0..<256]"
proof -
  have "sum_list (take k (map (\<lambda>k. length (bucket key xs k)) [0..<256])) = start_of key xs k"
    if "k < 256" for k
    using that by (simp add: take_map start_of_def interv_sum_list_conv_sum_set_nat atLeast0LessThan)
  then show ?thesis by (simp add: count_keys_eq [OF assms] bucket_starts_eq)
qed

text \<open>The scatter loop: after the prefix \<open>ys\<close> every bucket holds its part of the prefix in order.\<close>

definition scattered :: "(nat \<Rightarrow> nat) \<Rightarrow> nat list \<Rightarrow> nat list \<Rightarrow> nat list \<Rightarrow> bool" where
  "scattered key all ys scratch \<longleftrightarrow> length scratch = length all \<and>
     (\<forall>k < 256. \<forall>m < length (bucket key ys k). scratch ! (start_of key all k + m) = bucket key ys k ! m)"

lemma length_buckets:
  assumes "\<forall>x \<in> set xs. key x < n"
  shows "start_of key xs n = length xs"
  using mset_concat_buckets [OF assms] length_concat_buckets [of key xs n] by (metis size_mset)

lemma scattered_step:
  assumes "scattered key (ys @ x # zs) ys scratch" "\<forall>i \<in> set (ys @ x # zs). key i < 256"
  shows "scattered key (ys @ x # zs) (ys @ [x])
    (scratch[start_of key (ys @ x # zs) (key x) + length (bucket key ys (key x)) := x])"
proof -
  let ?all = "ys @ x # zs" let ?s = "start_of key ?all" let ?p = "?s (key x) + length (bucket key ys (key x))"
  have kx: "key x < 256" using assms(2) by simp
  have lt: "length (bucket key ys k) + (if k = key x then 1 else 0) \<le> length (bucket key ?all k)" for k
    by simp
  have "?p < ?s (Suc (key x))" by (simp add: start_of_Suc)
  also have "\<dots> \<le> ?s 256" using kx by (intro start_of_mono) simp
  also have "\<dots> = length ?all" by (rule length_buckets [OF assms(2)])
  finally have p: "?p < length scratch" using assms(1) by (simp add: scattered_def)
  have "scratch[?p := x] ! (?s k + m) = bucket key (ys @ [x]) k ! m"
    if k: "k < 256" and m: "m < length (bucket key (ys @ [x]) k)" for k m
  proof (cases "?s k + m = ?p")
    case True
    have "k = key x"
      by (rule slots_disjoint [OF True]) (use m lt [of k] in \<open>auto split: if_splits\<close>)
    then show ?thesis using True p by (simp add: nth_append)
  next
    case False
    have "m < length (bucket key ys k)"
      using m False by (cases "k = key x") (auto simp: less_Suc_eq)
    then show ?thesis
      using False assms(1) k by (simp add: scattered_def nth_append)
  qed
  then show ?thesis using assms(1) by (simp add: scattered_def)
qed

lemma scatter_scattered:
  assumes "scattered key (ys @ xs) ys scratch" "\<forall>i \<in> set (ys @ xs). key i < 256"
    "length offs = 256" "\<forall>k < 256. offs ! k = start_of key (ys @ xs) k + length (bucket key ys k)"
  shows "scattered key (ys @ xs) (ys @ xs) (fst (scatter key (scratch, offs) xs))"
  using assms
proof (induction xs arbitrary: ys scratch offs)
  case (Cons x xs)
  have kx: "key x < 256" using Cons.prems(2) by simp
  have o: "offs ! key x = start_of key (ys @ x # xs) (key x) + length (bucket key ys (key x))"
    using Cons.prems(4) kx by blast
  have sc: "scattered key ((ys @ [x]) @ xs) (ys @ [x]) (scratch[offs ! key x := x])"
    using scattered_step [OF Cons.prems(1,2)] by (simp add: o)
  have "scattered key ((ys @ [x]) @ xs) ((ys @ [x]) @ xs)
      (fst (scatter key (scratch[offs ! key x := x], offs[key x := offs ! key x + 1]) xs))"
    by (rule Cons.IH [OF sc]) (use Cons.prems kx o in \<open>auto simp: nth_list_update\<close>)
  then show ?case by simp
qed simp

lemma scatter_sort_key:
  assumes "\<forall>i \<in> set xs. key i < 256" "length scratch = length xs"
  shows "fst (scatter key (scratch, map (start_of key xs) [0..<256]) xs) = sort_key key xs"
proof -
  let ?r = "fst (scatter key (scratch, map (start_of key xs) [0..<256]) xs)"
  have r: "scattered key xs xs ?r"
    using scatter_scattered [of key "[]" xs scratch "map (start_of key xs) [0..<256]"] assms
    by (simp add: scattered_def del: upt_Suc)
  have "?r = concat (map (bucket key xs) [0..<256])"
  proof (rule nth_equalityI)
    show len: "length ?r = length (concat (map (bucket key xs) [0..<256]))"
      using r by (simp only: length_concat_buckets length_buckets [OF assms(1)] scattered_def)
    fix p assume "p < length ?r"
    then have "p < start_of key xs 256" by (simp only: len length_concat_buckets)
    then obtain j m where "j < 256" "m < length (bucket key xs j)" "p = start_of key xs j + m"
      using slot_exists by blast
    then show "?r ! p = concat (map (bucket key xs) [0..<256]) ! p"
      using r by (simp only: scattered_def concat_buckets_nth)
  qed
  then show ?thesis by (simp only: concat_buckets_sort_key [OF assms(1)])
qed

lemma radix_key_bound: "radix_key rs shift i < 256"
  by (simp add: radix_key_def)

lemma radix_pass_eq:
  "length scratch = length order \<Longrightarrow>
   radix_pass rs (order, scratch) shift = (sort_key (radix_key rs shift) order, order)"
  by (simp add: radix_pass_def Let_def starts_eq scatter_sort_key radix_key_bound del: upt_Suc)

subsection \<open>Eight passes sort by the whole remainder\<close>

lemma sorted_insort_refine:
  assumes "sorted (map F zs)" "\<forall>z \<in> set zs. g x \<le> g z"
    and F: "\<And>a. F a = f a * M + g a" "\<And>a. g a < (M :: nat)"
  shows "sorted (map F (insort_key f x zs))"
  using assms(1,2)
proof (induction zs)
  case (Cons z zs)
  have less: "F a < F b" if "f a < f b" for a b
  proof -
    have "(f a + 1) * M \<le> f b * M" using that by (intro mult_le_mono1) simp
    then show ?thesis using F(2) [of a] by (simp add: F(1))
  qed
  have le: "F a \<le> F b" if "f a \<le> f b" "g a \<le> g b" for a b
    using that by (simp add: F(1) add_mono)
  show ?case
  proof (cases "f x \<le> f z")
    case True
    then have "F x \<le> F z" using Cons.prems le by simp
    then show ?thesis using True Cons.prems by (auto intro: order_trans)
  next
    case False
    then have "F z \<le> F x" by (intro less_imp_le less) simp
    then show ?thesis using False Cons by (simp add: set_insort_key)
  qed
qed simp

lemma sort_key_combine:
  fixes f g :: "'a \<Rightarrow> nat"
  assumes g: "\<And>x. g x < M"
  shows "sort_key f (sort_key g xs) = sort_key (\<lambda>x. f x * M + g x) xs"
proof (rule properties_for_sort_key [symmetric])
  let ?F = "\<lambda>x. f x * M + g x"
  have "sorted (map g ys) \<Longrightarrow> sorted (map ?F (sort_key f ys))" for ys
    by (induction ys) (auto intro!: sorted_insort_refine [where g = g and M = M, OF _ _ refl g])
  then show "sorted (map ?F (sort_key f (sort_key g xs)))" by simp
  fix k
  have eq: "?F k = ?F x \<longleftrightarrow> f x = f k \<and> g x = g k" for x
  proof -
    have "M > 0" using g [of x] by simp
    then have "?F y div M = f y" "?F y mod M = g y" for y using g [of y] by simp_all
    then show ?thesis by metis
  qed
  have "filter (\<lambda>x. ?F k = ?F x) ys = filter (\<lambda>x. g x = g k) (filter (\<lambda>x. f x = f k) ys)" for ys
    unfolding filter_filter by (rule filter_cong) (auto simp: eq)
  moreover have "filter (\<lambda>x. ?F k = ?F x) ys = filter (\<lambda>x. f x = f k) (filter (\<lambda>x. g x = g k) ys)" for ys
    unfolding filter_filter by (rule filter_cong) (auto simp: eq)
  ultimately show "filter (\<lambda>x. ?F k = ?F x) (sort_key f (sort_key g xs)) = filter (\<lambda>x. ?F k = ?F x) xs"
    by (metis sort_key_stable)
qed simp

definition low_key :: "nat list \<Rightarrow> nat \<Rightarrow> nat \<Rightarrow> nat" where
  "low_key rs s i = 2 ^ s - 1 - rs ! i mod 2 ^ s"

lemma low_key_step: "radix_key rs s i * 2 ^ s + low_key rs s i = low_key rs (s + 8) i"
proof -
  let ?r = "rs ! i" let ?P = "2 ^ s :: nat" let ?a = "?r div ?P mod 256" let ?b = "?r mod ?P"
  have "?r mod (?P * 256) = ?P * ?a + ?b" by (rule mod_mult2_eq)
  moreover have b: "?b < ?P" by simp
  moreover have a: "?a \<le> 255" by (simp add: less_Suc_eq_le [symmetric])
  moreover have "(255 - a) * P + (P - 1 - b) = P * 256 - 1 - (P * a + b)"
    if "a \<le> 255" "b < P" for a b P :: nat
  proof -
    have "int ((255 - a) * P + (P - 1 - b)) = (255 - int a) * int P + (int P - 1 - int b)"
      using that by (simp add: of_nat_diff)
    moreover have "P * a + b < P * 256"
      using mult_le_mono2 [OF that(1), of P] that(2) by linarith
    then have "int (P * 256 - 1 - (P * a + b)) = int P * 256 - 1 - (int P * int a + int b)"
      by (simp add: of_nat_diff)
    ultimately show ?thesis by (simp add: algebra_simps)
  qed
  ultimately show ?thesis
    by (simp only: radix_key_def low_key_def power_add) simp
qed

lemma radix_passes:
  assumes "order = sort_key (low_key rs s) is" "length scratch = length is"
  shows "foldl (radix_pass rs) (order, scratch) (map (\<lambda>k. s + 8 * k) [0..<n]) =
    (sort_key (low_key rs (s + 8 * n)) is, if n = 0 then scratch else sort_key (low_key rs (s + 8 * (n - 1))) is)"
proof (induction n)
  case 0
  then show ?case using assms by simp
next
  case (Suc n)
  have "low_key rs t i < 2 ^ t" for t i by (simp add: low_key_def less_Suc_eq_le [symmetric])
  then have "sort_key (radix_key rs t) (sort_key (low_key rs t) is) = sort_key (low_key rs (t + 8)) is" for t
    using sort_key_combine [of "low_key rs t" "2 ^ t" "radix_key rs t" "is"] by (simp add: low_key_step)
  then show ?case
    using Suc assms(2) by (simp add: radix_pass_eq algebra_simps)
qed

lemma sort_key_cong_set:
  assumes "\<And>x. x \<in> set xs \<Longrightarrow> f x = g x"
  shows "sort_key f xs = sort_key g xs"
proof (rule properties_for_sort_key [symmetric])
  have "map g (sort_key f xs) = map f (sort_key f xs)" using assms by (intro map_cong) simp_all
  then show "sorted (map g (sort_key f xs))" by (simp only: sorted_sort_key)
  fix k assume k: "k \<in> set (sort_key f xs)"
  have "filter (\<lambda>x. g k = g x) (sort_key f xs) = filter (\<lambda>x. f x = f k) (sort_key f xs)"
    using k assms by (intro filter_cong) auto
  also have "\<dots> = filter (\<lambda>x. f x = f k) xs" by (rule sort_key_stable)
  also have "\<dots> = filter (\<lambda>x. g k = g x) xs"
    using k assms by (intro filter_cong) auto
  finally show "filter (\<lambda>x. g k = g x) (sort_key f xs) = filter (\<lambda>x. g k = g x) xs" .
qed simp

lemma radix_shifts: "[0, 8, 16, 24, 32, 40, 48, 56] = map (\<lambda>k. 0 + 8 * k) [0..<8::nat]"
  by code_simp

lemma remainderOrder_sort_key:
  assumes "\<forall>r \<in> set rs. r < u64"
  shows "remainderOrder rs = sort_key (\<lambda>i. u64 - 1 - rs ! i) [0..<length rs]"
proof -
  have "low_key rs 0 = (\<lambda>i. 0)" by (simp add: low_key_def fun_eq_iff)
  then have "[0..<length rs] = sort_key (low_key rs 0) [0..<length rs]"
    by (simp only: sort_key_const)
  from radix_passes [OF this, of "replicate (length rs) 0" 8]
  have "remainderOrder rs = sort_key (low_key rs 64) [0..<length rs]"
    unfolding remainderOrder_def by (simp only: radix_shifts fst_conv) simp
  also have "\<dots> = sort_key (\<lambda>i. u64 - 1 - rs ! i) [0..<length rs]"
  proof (rule sort_key_cong_set)
    fix i assume "i \<in> set [0..<length rs]"
    then have "rs ! i < u64" using assms by simp
    moreover have pow: "(2::nat) ^ 64 = u64" by simp
    ultimately show "low_key rs 64 i = u64 - 1 - rs ! i"
      by (simp only: low_key_def pow mod_less)
  qed
  finally show ?thesis .
qed

subsection \<open>Allocate against its specification\<close>

lemma sum_weights_eq:
  assumes "\<forall>w \<in> set ws. is_i64 w"
  shows "sum_weights ws =
    (if \<forall>w \<in> set ws. 0 \<le> w then (if is_i64 (sum_list ws) then Inr (sum_list ws) else Inl ErrOverflow)
     else sum_weights ws) \<and>
    ((\<exists>s. sum_weights ws = Inr s) \<longrightarrow> (\<forall>w \<in> set ws. 0 \<le> w))"
proof -
  let ?f = "\<lambda>s w. if w < 0 then Inl ErrInvalidWeights else Add s w"
  have "\<forall>w \<in> set ws. 0 \<le> w \<Longrightarrow> foldE ?f s ws = foldE Add s ws" for s
  proof (induction ws arbitrary: s)
    case (Cons w ws)
    then show ?case by (cases "Add s w") auto
  qed simp
  moreover have "(\<exists>r. foldE ?f s ws = Inr r) \<Longrightarrow> \<forall>w \<in> set ws. 0 \<le> w" for s
  proof (induction ws arbitrary: s)
    case (Cons w ws)
    then show ?case by (cases "Add s w") (auto split: if_splits)
  qed simp
  ultimately show ?thesis
    using assms by (auto simp: sum_weights_def checked.foldE_add_nonneg)
qed

lemma floor_shares_eq:
  assumes "\<forall>w \<in> set ws. 0 \<le> w \<and> is_i64 w \<and> nat w \<le> W" "0 < W" "a < u64"
    "(\<Sum>w\<leftarrow>ws. a * nat w div W) \<le> left" "left < u64"
  shows "floor_shares a W ws left = Some (map (\<lambda>w. a * nat w div W) ws,
    map (\<lambda>w. a * nat w mod W) ws, left - (\<Sum>w\<leftarrow>ws. a * nat w div W))"
  using assms
proof (induction ws arbitrary: left)
  case (Cons w ws)
  have w: "u64_of_i64 w = nat w" using Cons.prems by (simp add: u64_of_i64_def is_i64_def)
  have le: "a * nat w div W \<le> left" using Cons.prems(4) by simp
  have sub: "sub_u64 left (a * nat w div W) = left - a * nat w div W"
  proof -
    have "left + u64 - a * nat w div W = u64 + (left - a * nat w div W)" using le by simp
    then show ?thesis using Cons.prems(5) by (simp only: sub_u64_def mod_add_self1 mod_less less_imp_diff_less)
  qed
  have "(case Mul64 a (nat w) of (hi, lo) \<Rightarrow> Div64 hi lo W) = Some (a * nat w div W, a * nat w mod W)"
    by (rule mul_div_64) (use Cons.prems in auto)
  moreover have "floor_shares a W ws (left - a * nat w div W) = Some (map (\<lambda>w. a * nat w div W) ws,
      map (\<lambda>w. a * nat w mod W) ws, left - a * nat w div W - (\<Sum>w\<leftarrow>ws. a * nat w div W))"
    by (rule Cons.IH) (use Cons.prems in auto)
  ultimately show ?case by (simp add: w sub case_prod_beta del: sub_u64_def split: prod.splits)
qed simp

lemma award_eq:
  assumes "distinct order" "set order \<subseteq> {..<length qs}" "left \<le> length order" "\<forall>q \<in> set qs. q + 1 < u64"
  shows "award qs order left =
    Some (map (\<lambda>i. qs ! i + (if i \<in> set (take left order) then 1 else 0)) [0..<length qs])"
proof -
  have A: "award qs order left = Some (foldl (\<lambda>q i. q[i := q ! i + 1]) qs (take left order))"
    if "\<forall>i \<in> set order. i < length qs \<and> qs ! i + 1 < u64" "distinct order" "left \<le> length order" for qs
    using that
  proof (induction order arbitrary: left qs)
    case (Cons i order)
    have "\<forall>j \<in> set order. j < length (qs[i := qs ! i + 1]) \<and> qs[i := qs ! i + 1] ! j + 1 < u64"
      using Cons.prems by (auto simp: nth_list_update)
    then have "award (qs[i := qs ! i + 1]) order (left - 1) =
        Some (foldl (\<lambda>q i. q[i := q ! i + 1]) (qs[i := qs ! i + 1]) (take (left - 1) order))"
      by (rule Cons.IH) (use Cons.prems in auto)
    moreover have "qs ! i + 1 < u64" using Cons.prems by simp
    then have "(qs ! i + 1) mod u64 = qs ! i + 1" by (rule mod_less)
    ultimately show ?case
      using Cons.prems by (cases left) (simp_all only: award.simps take_Suc_Cons foldl_Cons take_0
        foldl_Nil diff_Suc_1 nat.simps if_True if_False refl list.set_intros simp_thms)
  qed simp
  have B: "foldl (\<lambda>q i. q[i := q ! i + 1]) qs is =
      map (\<lambda>i. qs ! i + (if i \<in> set is then 1 else 0)) [0..<length qs]"
    if "distinct is" "set is \<subseteq> {..<length qs}" for qs :: "nat list" and "is"
    using that
  proof (induction "is" arbitrary: qs)
    case Nil
    then show ?case by (simp add: map_nth)
  next
    case (Cons i "is")
    have "foldl (\<lambda>q i. q[i := q ! i + 1]) qs (i # is) =
        map (\<lambda>j. qs[i := qs ! i + 1] ! j + (if j \<in> set is then 1 else 0)) [0..<length qs]"
      using Cons.IH [of "qs[i := qs ! i + 1]"] Cons.prems by simp
    then show ?case using Cons.prems by (auto intro!: map_cong simp: nth_list_update)
  qed
  have "\<forall>i \<in> set order. i < length qs \<and> qs ! i + 1 < u64" using assms(2,4) by auto
  from A [OF this assms(1,3)] B [of "take left order" qs] show ?thesis
    using assms(1,2) set_take_subset [of left order] by (simp only: distinct_take)
qed

lemma power_numeral_63: "(2 :: nat) ^ 63 = 9223372036854775808"
  by simp

lemma signed_share_eq:
  assumes "tot \<noteq> 0" "is_i64 tot" "int q \<le> \<bar>tot\<bar>"
  shows "signed_share tot q = sgn tot * int q"
proof -
  have "tot < 0 \<Longrightarrow> int q \<noteq> two63 \<Longrightarrow> is_i64 (int q)" "tot > 0 \<Longrightarrow> is_i64 (int q)"
    "tot < 0 \<Longrightarrow> int q \<noteq> two63 \<Longrightarrow> is_i64 (- int q)"
    using assms by (auto simp: is_i64_def)
  moreover have "q = 2 ^ 63 \<longleftrightarrow> int q = two63" by (metis of_nat_eq_iff of_nat_numeral power_numeral_63)
  ultimately show ?thesis
    using assms(1) by (auto simp: signed_share_def i64_of_u64_def sgn_if)
qed

text \<open>
  The largest-remainder method: with \<open>q\<close> and \<open>r\<close> the quotient and remainder of
  \<open>|total| * w div W\<close>, each share is \<open>q\<close> or \<open>q + 1\<close> with the sign of the total, and a share that is
  rounded up has a remainder at least as large as any that is not, ties going to the lower index.
\<close>

definition hamilton :: "int \<Rightarrow> int list \<Rightarrow> int list \<Rightarrow> bool" where
  "hamilton tot ws shares \<longleftrightarrow>
     (let W = sum_list ws; q = (\<lambda>i. \<bar>tot\<bar> * ws ! i div W); r = (\<lambda>i. \<bar>tot\<bar> * ws ! i mod W) in
       length shares = length ws \<and> sum_list shares = tot \<and>
       (\<exists>up. (\<forall>i < length ws. shares ! i = sgn tot * (q i + (if up i then 1 else 0)) \<and> (up i \<longrightarrow> 0 < r i)) \<and>
             (\<forall>i < length ws. \<forall>j < length ws. up i \<and> \<not> up j \<longrightarrow> r j < r i \<or> (r j = r i \<and> i < j))))"

lemma sum_div_mod:
  fixes ws :: "int list"
  shows "(\<Sum>w\<leftarrow>ws. a * w mod W) = a * sum_list ws - W * (\<Sum>w\<leftarrow>ws. a * w div W)"
  by (induction ws) (simp_all add: algebra_simps minus_mult_div_eq_mod [symmetric])

lemma sum_list_positives:
  "\<forall>x \<in> set xs. 0 \<le> x \<and> x \<le> W \<Longrightarrow> sum_list xs \<le> W * int (length (filter (\<lambda>x. 0 < x) xs))" for W :: int
  by (induction xs) (auto simp: algebra_simps)

text \<open>The stable descending order, by position.\<close>

lemma sort_key_upt_order:
  assumes "i < j" "j < length (sort_key f [0..<n])"
  shows "f (sort_key f [0..<n] ! i) < f (sort_key f [0..<n] ! j) \<or>
    (f (sort_key f [0..<n] ! i) = f (sort_key f [0..<n] ! j) \<and> sort_key f [0..<n] ! i < sort_key f [0..<n] ! j)"
proof -
  let ?o = "sort_key f [0..<n]"
  have "sorted_wrt (\<lambda>x y. f x < f y \<or> f x = f y \<and> x < y) (sort_key f xs)" if "sorted_wrt (<) xs" for xs :: "nat list"
    using that
  proof (induction xs)
    case (Cons x xs)
    let ?R = "\<lambda>x y. f x < f y \<or> f x = f y \<and> x < y"
    have "sorted_wrt ?R zs \<Longrightarrow> \<forall>z \<in> set zs. x < z \<Longrightarrow> sorted_wrt ?R (insort_key f x zs)" for zs
      by (induction zs) (auto simp: set_insort_key)
    then show ?case using Cons by simp
  qed simp
  then have "sorted_wrt (\<lambda>x y. f x < f y \<or> f x = f y \<and> x < y) ?o" by simp
  then show ?thesis using assms by (simp add: sorted_wrt_iff_nth_less)
qed

text \<open>If \<open>order\<close> is the stable descending order of \<open>rs\<close>, its first \<open>left\<close> entries dominate the rest.\<close>

lemma take_dominates:
  assumes rs: "\<forall>r \<in> set rs. r < u64" and "i \<in> set (take left (remainderOrder rs))"
    "j < length rs" "j \<notin> set (take left (remainderOrder rs))"
  shows "rs ! j < rs ! i \<or> (rs ! j = rs ! i \<and> i < j)"
proof -
  let ?o = "remainderOrder rs"
  have o: "?o = sort_key (\<lambda>i. u64 - 1 - rs ! i) [0..<length rs]" by (rule remainderOrder_sort_key [OF rs])
  obtain a where a: "a < left" "a < length ?o" "?o ! a = i" using assms(2) by (auto simp: in_set_conv_nth)
  have "set ?o = {..<length rs}" by (simp add: o atLeast0LessThan)
  then obtain b where b: "b < length ?o" "?o ! b = j" using assms(3) by (metis in_set_conv_nth lessThan_iff)
  have "left \<le> b" using assms(4) b by (metis in_set_conv_nth length_take min_less_iff_conj not_le nth_take)
  then have "a < b" using a by simp
  then have "u64 - 1 - rs ! i < u64 - 1 - rs ! j \<or> (u64 - 1 - rs ! i = u64 - 1 - rs ! j \<and> i < j)"
    using sort_key_upt_order [of a b "\<lambda>i. u64 - 1 - rs ! i" "length rs"] a b by (simp only: o)
  moreover have "i < length rs" using a nth_mem [of a ?o] by (simp add: o)
  then have "rs ! i < u64" "rs ! j < u64" using rs assms(3) by auto
  ultimately show ?thesis by linarith
qed

text \<open>Fewer awards than positive remainders: only positive remainders are rounded up.\<close>

lemma awards_positive:
  assumes rs: "\<forall>r \<in> set rs. r < u64" and "left \<le> length (filter (\<lambda>r. 0 < r) rs)"
    "i \<in> set (take left (remainderOrder rs))"
  shows "0 < rs ! i"
proof (rule ccontr)
  let ?o = "remainderOrder rs" let ?T = "set (take left ?o)"
  assume "\<not> 0 < rs ! i"
  then have i0: "rs ! i = 0" by simp
  have o: "?o = sort_key (\<lambda>i. u64 - 1 - rs ! i) [0..<length rs]" by (rule remainderOrder_sort_key [OF rs])
  have "{j. j < length rs \<and> 0 < rs ! j} \<subseteq> ?T - {i}"
  proof
    fix x assume "x \<in> {j. j < length rs \<and> 0 < rs ! j}"
    then show "x \<in> ?T - {i}" using take_dominates [OF rs assms(3), of x] i0 by (cases "x \<in> ?T") auto
  qed
  then have "card {j. j < length rs \<and> 0 < rs ! j} \<le> card (?T - {i})"
    by (intro card_mono) auto
  also have "\<dots> < card ?T" using assms(3) by (intro psubset_card_mono) auto
  also have "\<dots> \<le> left" by (rule order_trans [OF card_length]) simp
  finally show False using assms(2) by (simp add: length_filter_conv_card)
qed

lemma magnitude_bound: "is_i64 tot \<Longrightarrow> int (magnitude tot) = \<bar>tot\<bar> \<and> magnitude tot \<le> 2 ^ 63"
proof -
  assume "is_i64 tot"
  then have "int (magnitude tot) = \<bar>tot\<bar>" "\<bar>tot\<bar> \<le> two63" by (simp_all add: magnitude_abs is_i64_def abs_le_iff)
  moreover have "two63 = int (2 ^ 63)" by simp
  ultimately show ?thesis by (metis of_nat_le_iff)
qed

text \<open>Facts about the exact quotas \<open>a * w / W\<close> of nonnegative weights with sum \<open>W > 0\<close>.\<close>

lemma weight_le_sum: "\<forall>w \<in> set ws. 0 \<le> (w :: int) \<Longrightarrow> w \<in> set ws \<Longrightarrow> w \<le> sum_list ws"
proof (induction ws)
  case (Cons v ws)
  have "0 \<le> sum_list ws" using Cons.prems by (intro sum_list_nonneg) auto
  then show ?case using Cons by auto
qed simp

lemma quota_left:
  fixes a :: int
  assumes "\<forall>w \<in> set ws. 0 \<le> w" "0 < sum_list ws" "0 \<le> a"
  defines "W \<equiv> sum_list ws" and "left \<equiv> a - (\<Sum>w\<leftarrow>ws. a * w div sum_list ws)"
  shows "0 \<le> left" "left \<le> int (length (filter (\<lambda>w. 0 < a * w mod W) ws))"
proof -
  have W: "0 < W" using assms by simp
  have eq: "W * left = (\<Sum>w\<leftarrow>ws. a * w mod W)"
    by (simp only: left_def W_def sum_div_mod right_diff_distrib mult.commute [of a "sum_list ws"])
  have "0 \<le> (\<Sum>w\<leftarrow>ws. a * w mod W)" using W by (intro sum_list_nonneg) auto
  then have "0 \<le> W * left" by (simp only: eq)
  then show "0 \<le> left" using W by (simp add: zero_le_mult_iff)
  have "(\<Sum>w\<leftarrow>ws. a * w mod W) \<le> W * int (length (filter (\<lambda>x. 0 < x) (map (\<lambda>w. a * w mod W) ws)))"
    using W by (intro sum_list_positives) (auto simp: less_imp_le)
  then have "W * left \<le> W * int (length (filter (\<lambda>w. 0 < a * w mod W) ws))"
    by (simp add: eq filter_map comp_def)
  then show "left \<le> int (length (filter (\<lambda>w. 0 < a * w mod W) ws))" using W by simp
qed

lemma quota_le:
  assumes "0 \<le> (a :: int)" "0 \<le> w" "w \<le> W" "0 < W"
  shows "0 \<le> a * w div W" "a * w div W \<le> a" "0 < a * w mod W \<Longrightarrow> a * w div W + 1 \<le> a"
proof -
  have aw: "a * w \<le> a * W" using assms by (intro mult_left_mono) auto
  have eq: "W * (a * w div W) + a * w mod W = a * w" by simp
  show "0 \<le> a * w div W" using assms by (simp add: pos_imp_zdiv_nonneg_iff)
  show "a * w div W \<le> a" using zdiv_mono1 [OF aw assms(4)] assms(4) by simp
  show "a * w div W + 1 \<le> a" if "0 < a * w mod W"
  proof -
    have "W * (a * w div W) < W * a" using that aw eq mult.commute [of a W] by linarith
    then show ?thesis using assms(4) by simp
  qed
qed

lemma int_sum_list_nat:
  "\<forall>x \<in> set xs. 0 \<le> f x \<Longrightarrow> int (\<Sum>x\<leftarrow>xs. nat (f x)) = (\<Sum>x\<leftarrow>xs. f x)"
  by (induction xs) auto

text \<open>The body of \<open>Allocate\<close> on valid weights, as one equation.\<close>

definition awarded :: "nat \<Rightarrow> nat list \<Rightarrow> nat \<Rightarrow> bool" where
  "awarded left rs i \<longleftrightarrow> i \<in> set (take left (remainderOrder rs))"

lemma nat_div_mod:
  "0 \<le> w \<Longrightarrow> 0 < W \<Longrightarrow> int a = A \<Longrightarrow>
   a * nat w div nat W = nat (A * w div W) \<and> a * nat w mod nat W = nat (A * w mod W)"
  by (auto simp: nat_div_distrib nat_mod_distrib nat_mult_distrib)

lemma award_take_all: "\<not> 0 < left \<Longrightarrow> Some qs = award qs order left"
  by (cases order) simp_all

lemma Allocate_body:
  assumes ws: "\<forall>w \<in> set ws. 0 \<le> w" and W: "0 < sum_list ws" "is_i64 (sum_list ws)"
    and tot: "tot \<noteq> 0" "is_i64 tot"
  defines "q \<equiv> (\<lambda>w. \<bar>tot\<bar> * w div sum_list ws)" and "r \<equiv> (\<lambda>w. \<bar>tot\<bar> * w mod sum_list ws)"
  defines "left \<equiv> nat (\<bar>tot\<bar> - (\<Sum>w\<leftarrow>ws. q w))"
  shows "Allocate tot ws = Some (Inr (map (\<lambda>i. sgn tot *
      (q (ws ! i) + (if awarded left (map (\<lambda>w. nat (r w)) ws) i then 1 else 0))) [0..<length ws]))"
    and "left \<le> length (filter (\<lambda>x. 0 < x) (map (\<lambda>w. nat (r w)) ws))"
    and "\<forall>x \<in> set (map (\<lambda>w. nat (r w)) ws). x < u64"
proof -
  let ?A = "magnitude tot" and ?W = "sum_list ws" and ?rs = "map (\<lambda>w. nat (r w)) ws"
  let ?qs = "map (\<lambda>w. nat (q w)) ws"
  have A: "int ?A = \<bar>tot\<bar>" "?A \<le> 2 ^ 63" using magnitude_bound [OF tot(2)] by auto
  have le: "w \<le> ?W" if "w \<in> set ws" for w using ws that by (rule weight_le_sum)
  have w64: "is_i64 w" if "w \<in> set ws" for w
    using ws W(2) le [OF that] that by (auto simp: is_i64_def)
  have q: "0 \<le> q w" "q w \<le> \<bar>tot\<bar>" "0 < r w \<Longrightarrow> q w + 1 \<le> \<bar>tot\<bar>" if "w \<in> set ws" for w
    using quota_le [of "\<bar>tot\<bar>" w ?W] ws le [OF that] that W(1) by (auto simp: q_def r_def)
  have qs: "map (\<lambda>w. ?A * nat w div nat ?W) ws = ?qs" "map (\<lambda>w. ?A * nat w mod nat ?W) ws = ?rs"
    using nat_div_mod [OF _ W(1) A(1)] ws by (simp_all add: q_def r_def)
  have "int (sum_list ?qs) = (\<Sum>w\<leftarrow>ws. q w)"
    using q(1) by (intro int_sum_list_nat) blast
  moreover have left0: "0 \<le> \<bar>tot\<bar> - (\<Sum>w\<leftarrow>ws. q w)"
    unfolding q_def by (rule quota_left(1) [OF ws W(1)]) simp
  ultimately have left: "sum_list ?qs \<le> ?A" "?A - sum_list ?qs = left"
    using A(1) by (simp_all add: left_def)
  have r64: "x < u64" if "x \<in> set ?rs" for x
  proof -
    from that obtain w where w: "x = nat (r w)" by auto
    have "0 \<le> r w" "r w < ?W" using W(1) by (simp_all add: r_def)
    then show ?thesis using W(2) by (simp add: w is_i64_def nat_less_iff)
  qed
  then show "\<forall>x \<in> set ?rs. x < u64" by blast
  have "int left \<le> int (length (filter (\<lambda>w. 0 < r w) ws))"
    using quota_left(2) [OF ws W(1), of "\<bar>tot\<bar>"] left0 by (simp add: left_def q_def r_def)
  then show pos: "left \<le> length (filter (\<lambda>x. 0 < x) ?rs)"
    by (simp add: filter_map comp_def)
  show "Allocate tot ws = Some (Inr (map (\<lambda>i. sgn tot *
      (q (ws ! i) + (if awarded left ?rs i then 1 else 0))) [0..<length ws]))"
  proof -
    have fl: "floor_shares ?A (nat ?W) ws ?A = Some (?qs, ?rs, left)"
      using floor_shares_eq [of ws "nat ?W" ?A ?A] ws w64 le W(1) A(2) left
      by (simp add: qs nat_mono)
    have len: "length (remainderOrder ?rs) = length ws" and dist: "distinct (remainderOrder ?rs)"
      and sub: "set (remainderOrder ?rs) = {..<length ws}"
      using remainderOrder_sort_key [of ?rs] r64 by (simp_all add: atLeast0LessThan)
    have "left \<le> length ws" using pos by (rule order_trans) (simp add: le_trans [OF length_filter_le])
    moreover have "\<bar>tot\<bar> \<le> two63" using tot(2) by (simp add: is_i64_def abs_le_iff)
    then have "q w < 18446744073709551615" if "w \<in> set ws" for w using q(2) [OF that] by linarith
    then have "\<forall>x \<in> set ?qs. x + 1 < u64"
      using q(1) by (auto simp: nat_less_iff)
    ultimately have aw: "award ?qs (remainderOrder ?rs) left = Some
        (map (\<lambda>i. ?qs ! i + (if i \<in> set (take left (remainderOrder ?rs)) then 1 else 0)) [0..<length ?qs])"
      using dist sub len by (intro award_eq) simp_all
    have "signed_share tot (nat (q (ws ! i)) + (if awarded left ?rs i then 1 else 0)) =
        sgn tot * (q (ws ! i) + (if awarded left ?rs i then 1 else 0))" if i: "i < length ws" for i
    proof -
      have up: "awarded left ?rs i \<Longrightarrow> 0 < r (ws ! i)"
        using awards_positive [of ?rs left i] r64 pos i by (simp add: awarded_def)
      then have "int (nat (q (ws ! i)) + (if awarded left ?rs i then 1 else 0)) \<le> \<bar>tot\<bar>"
        using q [of "ws ! i"] i by auto
      from signed_share_eq [OF tot this] show ?thesis using q(1) [of "ws ! i"] i by simp
    qed
    then have "map (signed_share tot) (map (\<lambda>i. ?qs ! i + (if i \<in> set (take left (remainderOrder ?rs)) then 1 else 0)) [0..<length ?qs])
      = map (\<lambda>i. sgn tot * (q (ws ! i) + (if awarded left ?rs i then 1 else 0))) [0..<length ws]"
      by (simp add: awarded_def)
    moreover have "(if 0 < left then award ?qs (remainderOrder ?rs) left else Some ?qs) = award ?qs (remainderOrder ?rs) left"
      by (simp add: award_take_all)
    moreover have "sum_weights ws = Inr ?W" using sum_weights_eq [of ws] ws w64 W(2) by simp
    moreover have "u64_of_i64 ?W = nat ?W" using W by (simp add: u64_of_i64_def is_i64_def)
    ultimately show ?thesis
      using W(1) tot(1) by (simp add: Allocate_def fl aw del: map_map)
  qed
qed

lemma sum_awards:
  assumes "\<forall>r \<in> set rs. r < u64" "left \<le> length rs"
  shows "(\<Sum>i\<leftarrow>[0..<length rs]. if awarded left rs i then 1 else 0 :: int) = int left"
proof -
  let ?T = "take left (remainderOrder rs)"
  have o: "length (remainderOrder rs) = length rs" "distinct (remainderOrder rs)"
    "set (remainderOrder rs) = {..<length rs}"
    using remainderOrder_sort_key [OF assms(1)] by (simp_all add: atLeast0LessThan)
  have T: "distinct ?T" "set ?T \<subseteq> {..<length rs}" "length ?T = left"
    using o assms(2) set_take_subset [of left "remainderOrder rs"] by auto
  have "(\<Sum>i\<leftarrow>[0..<length rs]. if awarded left rs i then 1 else 0 :: int)
      = (\<Sum>i \<in> {..<length rs}. if i \<in> set ?T then 1 else 0)"
    by (simp add: awarded_def interv_sum_list_conv_sum_set_nat atLeast0LessThan)
  also have "\<dots> = int (card (set ?T))"
    using T(2) by (simp add: sum.If_cases Int_absorb1)
  finally show ?thesis using T by (simp add: distinct_card)
qed

lemma sum_list_nth_map: "(\<Sum>i\<leftarrow>[0..<length xs]. f (xs ! i)) = (\<Sum>x\<leftarrow>xs. f x)"
  by (metis (no_types, lifting) map_eq_conv map_map comp_apply map_nth)

lemma Allocate_hamilton:
  assumes ws: "\<forall>w \<in> set ws. 0 \<le> w" and W: "0 < sum_list ws" "is_i64 (sum_list ws)" and tot: "is_i64 tot"
  shows "\<exists>shares. Allocate tot ws = Some (Inr shares) \<and> hamilton tot ws shares"
proof (cases "tot = 0")
  case True
  have "\<forall>w \<in> set ws. is_i64 w"
    using ws W(2) weight_le_sum [OF ws] by (fastforce simp: is_i64_def)
  then have "sum_weights ws = Inr (sum_list ws)" using sum_weights_eq [of ws] ws W(2) by simp
  then have "Allocate tot ws = Some (Inr (replicate (length ws) 0))"
    using True W(1) by (simp add: Allocate_def)
  moreover have "hamilton tot ws (replicate (length ws) 0)"
    unfolding hamilton_def Let_def by (simp add: True sum_list_replicate exI [where x = "\<lambda>_. False"])
  ultimately show ?thesis by blast
next
  case False
  let ?W = "sum_list ws" and ?q = "\<lambda>w. \<bar>tot\<bar> * w div sum_list ws" and ?r = "\<lambda>w. \<bar>tot\<bar> * w mod sum_list ws"
  let ?rs = "map (\<lambda>w. nat (?r w)) ws"
  define left where "left = nat (\<bar>tot\<bar> - (\<Sum>w\<leftarrow>ws. ?q w))"
  let ?up = "awarded left ?rs"
  let ?shares = "map (\<lambda>i. sgn tot * (?q (ws ! i) + (if ?up i then 1 else 0))) [0..<length ws]"
  note body = Allocate_body [OF ws W False tot, folded left_def]
  have left: "left \<le> length ?rs"
    using body(2) by (rule order_trans) (simp add: le_trans [OF length_filter_le])
  have "int left = \<bar>tot\<bar> - (\<Sum>w\<leftarrow>ws. ?q w)"
    using quota_left(1) [OF ws W(1), of "\<bar>tot\<bar>"] by (simp add: left_def)
  then have "(\<Sum>i\<leftarrow>[0..<length ws]. ?q (ws ! i) + (if ?up i then 1 else 0)) = \<bar>tot\<bar>"
    using sum_awards [OF body(3) left] sum_list_nth_map [of ?q ws] by (simp add: sum_list_addf)
  then have sum: "sum_list ?shares = tot"
    by (simp add: sum_list_const_mult mult_sgn_abs)
  have dom: "?r (ws ! j) < ?r (ws ! i) \<or> (?r (ws ! j) = ?r (ws ! i) \<and> i < j)"
    if "i < length ws" "j < length ws" "?up i" "\<not> ?up j" for i j
    using take_dominates [OF body(3), of i left j] that W(1)
    by (auto simp: awarded_def nat_less_eq_zless eq_nat_nat_iff)
  have pos: "0 < ?r (ws ! i)" if "i < length ws" "?up i" for i
    using awards_positive [OF body(3,2), of i] that by (simp add: awarded_def)
  have "hamilton tot ws ?shares"
    unfolding hamilton_def Let_def using sum dom pos
    by (intro conjI exI [where x = ?up]) simp_all
  with body(1) show ?thesis by blast
qed

text \<open>What every client of \<open>Allocate\<close> relies on.\<close>

lemma hamilton_facts:
  assumes "hamilton tot ws shares" "\<forall>w \<in> set ws. 0 \<le> w" "0 < sum_list ws"
  shows "length shares = length ws" "sum_list shares = tot"
    and "i < length ws \<Longrightarrow> 0 \<le> sgn tot * shares ! i"
    and "i < length ws \<Longrightarrow> ws ! i = 0 \<Longrightarrow> shares ! i = 0"
    and "i < length ws \<Longrightarrow> \<bar>shares ! i\<bar> \<le> \<bar>tot\<bar>"
proof -
  let ?q = "\<lambda>i. \<bar>tot\<bar> * ws ! i div sum_list ws" and ?r = "\<lambda>i. \<bar>tot\<bar> * ws ! i mod sum_list ws"
  obtain up where up: "\<And>i. i < length ws \<Longrightarrow>
      shares ! i = sgn tot * (?q i + (if up i then 1 else 0)) \<and> (up i \<longrightarrow> 0 < ?r i)"
    using assms(1) by (auto simp: hamilton_def Let_def)
  show "length shares = length ws" "sum_list shares = tot"
    using assms(1) by (simp_all add: hamilton_def Let_def)
  assume i: "i < length ws"
  then have wi: "0 \<le> ws ! i" "ws ! i \<le> sum_list ws"
    using assms(2) weight_le_sum [OF assms(2), of "ws ! i"] by simp_all
  have q: "0 \<le> ?q i" "?q i \<le> \<bar>tot\<bar>" "0 < ?r i \<Longrightarrow> ?q i + 1 \<le> \<bar>tot\<bar>"
    using quota_le [of "\<bar>tot\<bar>" "ws ! i" "sum_list ws"] wi assms(3) by simp_all
  show "0 \<le> sgn tot * shares ! i" using up [OF i] q(1) by (auto simp: sgn_if)
  show "ws ! i = 0 \<Longrightarrow> shares ! i = 0" using up [OF i] by (auto split: if_splits)
  show "\<bar>shares ! i\<bar> \<le> \<bar>tot\<bar>" using up [OF i] q by (auto simp: sgn_if split: if_splits)
qed

text \<open>The method has one result: a strict order leaves no choice of who is rounded up.\<close>

lemma hamilton_unique:
  assumes "hamilton tot ws s1" "hamilton tot ws s2" "tot \<noteq> 0"
  shows "s1 = s2"
proof -
  let ?W = "sum_list ws"
  let ?q = "\<lambda>i. \<bar>tot\<bar> * ws ! i div ?W" and ?r = "\<lambda>i. \<bar>tot\<bar> * ws ! i mod ?W" and ?n = "length ws"
  obtain u1 u2 where
    u1: "\<And>i. i < ?n \<Longrightarrow> s1 ! i = sgn tot * (?q i + (if u1 i then 1 else 0))"
      "\<And>i j. i < ?n \<Longrightarrow> j < ?n \<Longrightarrow> u1 i \<Longrightarrow> \<not> u1 j \<Longrightarrow> ?r j < ?r i \<or> (?r j = ?r i \<and> i < j)" and
    u2: "\<And>i. i < ?n \<Longrightarrow> s2 ! i = sgn tot * (?q i + (if u2 i then 1 else 0))"
      "\<And>i j. i < ?n \<Longrightarrow> j < ?n \<Longrightarrow> u2 i \<Longrightarrow> \<not> u2 j \<Longrightarrow> ?r j < ?r i \<or> (?r j = ?r i \<and> i < j)"
    using assms(1,2) unfolding hamilton_def Let_def by blast
  have len: "length s1 = ?n" "length s2 = ?n" and sums: "sum_list s1 = tot" "sum_list s2 = tot"
    using assms by (simp_all add: hamilton_def Let_def)
  let ?A = "{i \<in> {..<?n}. u1 i}" and ?B = "{i \<in> {..<?n}. u2 i}"
  have count: "sgn tot * (\<Sum>i<?n. ?q i) + sgn tot * int (card {i \<in> {..<?n}. u i}) = sum_list s"
    if "\<And>i. i < ?n \<Longrightarrow> s ! i = sgn tot * (?q i + (if u i then 1 else 0))" "length s = ?n" for s u
  proof -
    have "sum_list s = (\<Sum>i<?n. sgn tot * ?q i + sgn tot * (if u i then 1 else 0))"
      using that by (simp add: sum_list_sum_nth atLeast0LessThan distrib_left)
    then show ?thesis
      by (simp add: sum.distrib sum_distrib_left [symmetric] sum.If_cases Int_def conj_commute)
  qed
  have "sgn tot * int (card ?A) = sgn tot * int (card ?B)"
    using count [OF u1(1) len(1)] count [OF u2(1) len(2)] sums by linarith
  then have "card ?A = card ?B" using assms(3) by (simp add: sgn_0_0)
  moreover have "finite ?A" "finite ?B" by simp_all
  moreover have "False" if "i \<in> ?A - ?B" "j \<in> ?B - ?A" for i j
    using that u1(2) [of i j] u2(2) [of j i] by auto
  ultimately have "?A = ?B"
    by (metis (no_types, lifting) DiffI card_subset_eq subsetI)
  then have "\<forall>i < ?n. u1 i = u2 i" by blast
  then show ?thesis using u1(1) u2(1) len by (intro nth_equalityI) auto
qed

locale apportion =
  fixes alloc :: "int \<Rightarrow> int list \<Rightarrow> ('e + int list) option"
  assumes alloc_total: "\<forall>w \<in> set ws. is_i64 w \<Longrightarrow> is_i64 tot \<Longrightarrow> \<exists>res. alloc tot ws = Some res"
    and alloc_valid: "\<forall>w \<in> set ws. 0 \<le> w \<Longrightarrow> 0 < sum_list ws \<Longrightarrow> is_i64 (sum_list ws) \<Longrightarrow> is_i64 tot \<Longrightarrow>
      \<exists>shares. alloc tot ws = Some (Inr shares)"
    and alloc_weights: "\<forall>w \<in> set ws. is_i64 w \<Longrightarrow> alloc tot ws = Some (Inr shares) \<Longrightarrow>
      (\<forall>w \<in> set ws. 0 \<le> w) \<and> 0 < sum_list ws \<and> is_i64 (sum_list ws)"
    and alloc_shares: "\<forall>w \<in> set ws. is_i64 w \<Longrightarrow> is_i64 tot \<Longrightarrow> alloc tot ws = Some (Inr shares) \<Longrightarrow>
      length shares = length ws \<and> sum_list shares = tot \<and>
      (\<forall>i < length ws. 0 \<le> sgn tot * shares ! i \<and> (ws ! i = 0 \<longrightarrow> shares ! i = 0) \<and> \<bar>shares ! i\<bar> \<le> \<bar>tot\<bar>)"
begin

lemma alloc_total_or_error:
  "\<forall>w \<in> set ws. is_i64 w \<Longrightarrow> is_i64 tot \<Longrightarrow>
   (\<exists>e. alloc tot ws = Some (Inl e)) \<or>
   (\<exists>shares. alloc tot ws = Some (Inr shares) \<and> sum_list shares = tot \<and> length shares = length ws)"
  using alloc_total alloc_shares by (metis old.sum.exhaust)

lemma alloc_share_i64:
  assumes "\<forall>w \<in> set ws. is_i64 w" "is_i64 tot" "alloc tot ws = Some (Inr shares)" "s \<in> set shares"
  shows "is_i64 s"
proof -
  from assms(4) alloc_shares [OF assms(1-3)] obtain i where i: "i < length ws" "s = shares ! i"
    by (auto simp: in_set_conv_nth)
  with alloc_shares [OF assms(1-3)] have "0 \<le> sgn tot * s" "\<bar>s\<bar> \<le> \<bar>tot\<bar>" by auto
  with assms(2) show ?thesis by (auto simp: is_i64_def sgn_if split: if_splits)
qed

end

lemma Allocate_cases:
  assumes "\<forall>w \<in> set ws. is_i64 w"
  shows "(\<exists>e. Allocate tot ws = Some (Inl e)) \<or>
    ((\<forall>w \<in> set ws. 0 \<le> w) \<and> 0 < sum_list ws \<and> is_i64 (sum_list ws))"
proof (cases "sum_weights ws")
  case (Inr s)
  with sum_weights_eq [OF assms] have nn: "\<forall>w \<in> set ws. 0 \<le> w" by blast
  with Inr sum_weights_eq [OF assms] have "s = sum_list ws" "is_i64 s" by (auto split: if_splits)
  moreover have "0 \<le> sum_list ws" using nn by (intro sum_list_nonneg) auto
  moreover have "s = 0 \<Longrightarrow> \<exists>e. Allocate tot ws = Some (Inl e)" using Inr by (simp add: Allocate_def)
  ultimately show ?thesis using nn by fastforce
qed (simp add: Allocate_def)

interpretation money: apportion Allocate
proof unfold_locales
  fix ws :: "int list" and tot :: int and shares
  show "\<exists>res. Allocate tot ws = Some res" if "\<forall>w \<in> set ws. is_i64 w" "is_i64 tot"
    using Allocate_cases [OF that(1), of tot] Allocate_hamilton that(2) by metis
  show "\<exists>shares. Allocate tot ws = Some (Inr shares)"
    if "\<forall>w \<in> set ws. 0 \<le> w" "0 < sum_list ws" "is_i64 (sum_list ws)" "is_i64 tot"
    using Allocate_hamilton [OF that] by blast
  show valid: "(\<forall>w \<in> set ws. 0 \<le> w) \<and> 0 < sum_list ws \<and> is_i64 (sum_list ws)"
    if "\<forall>w \<in> set ws. is_i64 w" "Allocate tot ws = Some (Inr shares)"
    using Allocate_cases [OF that(1), of tot] that(2) by auto
  assume a: "\<forall>w \<in> set ws. is_i64 w" "is_i64 tot" "Allocate tot ws = Some (Inr shares)"
  have v: "\<forall>w \<in> set ws. 0 \<le> w" "0 < sum_list ws" "is_i64 (sum_list ws)" using valid [OF a(1,3)] by auto
  with Allocate_hamilton [OF v a(2)] a(3) have h: "hamilton tot ws shares" by auto
  from hamilton_facts [OF h v(1,2)] show "length shares = length ws \<and> sum_list shares = tot \<and>
      (\<forall>i < length ws. 0 \<le> sgn tot * shares ! i \<and> (ws ! i = 0 \<longrightarrow> shares ! i = 0) \<and> \<bar>shares ! i\<bar> \<le> \<bar>tot\<bar>)"
    by blast
qed

subsection \<open>Properties\<close>

text \<open>C19: with nonnegative weights whose sum is positive and fits in int64, \<open>Allocate\<close> never
  panics and returns the largest-remainder apportionment of any int64 total, \<open>MinInt64\<close>
  included: the shares add up exactly, each is the floor of its quota or one more, the shares
  rounded up are those of the largest remainders, and ties favour the lower index.\<close>

theorem Allocate_largest_remainder:
  assumes "\<forall>w \<in> set ws. 0 \<le> w" "0 < sum_list ws" "is_i64 (sum_list ws)" "is_i64 tot"
  shows "\<exists>shares. Allocate tot ws = Some (Inr shares) \<and> hamilton tot ws shares"
  by (rule Allocate_hamilton [OF assms])

lemma Allocate_largest_remainder_witness:
  "\<exists>shares. Allocate (- 100) [1, 0, 5, 1] = Some (Inr shares) \<and> hamilton (- 100) [1, 0, 5, 1] shares"
  using Allocate_largest_remainder [of "[1, 0, 5, 1]" "- 100"] by (simp add: is_i64_def)

text \<open>C36: on every int64 input \<open>Allocate\<close> returns, without a panic: it succeeds exactly when no
  weight is negative and their sum is positive and fits in int64; then there is one share per
  weight, of the sign of the total, nothing for a zero weight, and no share exceeds the total.\<close>

theorem Allocate_total_and_exact:
  assumes "\<forall>w \<in> set ws. is_i64 w" "is_i64 tot"
  shows "(\<exists>res. Allocate tot ws = Some res \<and>
    (\<forall>shares. res = Inr shares \<longrightarrow> length shares = length ws \<and> sum_list shares = tot \<and>
      (\<forall>i < length ws. 0 \<le> sgn tot * shares ! i \<and> (ws ! i = 0 \<longrightarrow> shares ! i = 0) \<and>
        \<bar>shares ! i\<bar> \<le> \<bar>tot\<bar>)) \<and>
    ((\<exists>shares. res = Inr shares) \<longleftrightarrow>
      (\<forall>w \<in> set ws. 0 \<le> w) \<and> 0 < sum_list ws \<and> is_i64 (sum_list ws)))"
proof -
  obtain res where res: "Allocate tot ws = Some res" using money.alloc_total [OF assms] by blast
  have "(\<exists>shares. res = Inr shares) \<longleftrightarrow> (\<forall>w \<in> set ws. 0 \<le> w) \<and> 0 < sum_list ws \<and> is_i64 (sum_list ws)"
    using money.alloc_weights [OF assms(1)] money.alloc_valid [OF _ _ _ assms(2)] res by fastforce
  then show ?thesis using res money.alloc_shares [OF assms] by blast
qed

lemma Allocate_total_and_exact_witness:
  "\<exists>e. Allocate 7 [3, - 1] = Some (Inl e)"
  using Allocate_total_and_exact [of "[3, - 1]" 7] by (auto simp: is_i64_def) (metis sum.exhaust)

text \<open>the eight stable byte passes of \<open>remainderOrder\<close> compute the stable sort of the indices
  by descending 64-bit remainder: equal remainders keep the order of their indices.\<close>

theorem remainderOrder_stable_descending:
  assumes "\<forall>r \<in> set rs. r < u64"
  shows "remainderOrder rs = sort_key (\<lambda>i. u64 - 1 - rs ! i) [0..<length rs]"
  by (rule remainderOrder_sort_key [OF assms])

lemma remainderOrder_stable_descending_witness:
  "set (remainderOrder [3, 5, 300, 5]) = {0, 1, 2, 3}"
  using remainderOrder_stable_descending [of "[3, 5, 300, 5]"] by auto

end
