(* ===== verification/MoneyFormat.thy ===== *)
theory MoneyFormat
  imports Allocation
begin

text \<open>
  \<open>internal/money/format.go\<close>: exact decimal rendering and parsing of minor units, and comma
  grouping. Strings are byte lists. Shows the round trip, and that the parser accepts exactly
  the well-formed decimals in range.
\<close>

definition MaxDecimals :: int where "MaxDecimals = 18"
definition MaxAmountLength :: nat where "MaxAmountLength = 128"

subsection \<open>Rendering\<close>

definition digit_char :: "nat \<Rightarrow> char" where
  "digit_char d = char_of (48 + d)"

text \<open>\<open>strconv.FormatUint(n, 10)\<close>.\<close>

fun utoa :: "nat \<Rightarrow> string" where
  "utoa n = (if n < 10 then [digit_char n] else utoa (n div 10) @ [digit_char (n mod 10)])"

declare utoa.simps [simp del]

definition FormatMinorChecked :: "int \<Rightarrow> int \<Rightarrow> money_error + string" where
  "FormatMinorChecked amount decimals =
     (if decimals < 0 \<or> decimals > MaxDecimals then Inl ErrInvalidPrecision
      else
        let digits = utoa (magnitude amount); dec = nat decimals;
            digits' =
              (if dec > 0 then
                 let padded = (if length digits \<le> dec
                               then replicate (dec + 1 - length digits) CHR ''0'' @ digits else digits);
                     point = length padded - dec
                 in take point padded @ ''.'' @ drop point padded
               else digits)
        in Inr (if amount < 0 then ''-'' @ digits' else digits'))"

text \<open>The deprecated \<open>FormatMinor\<close> panics on a bad precision.\<close>

definition FormatMinor :: "int \<Rightarrow> int \<Rightarrow> string option" where
  "FormatMinor amount decimals =
     (case FormatMinorChecked amount decimals of Inl _ \<Rightarrow> None | Inr s \<Rightarrow> Some s)"

definition Money_FormatChecked :: "Money \<Rightarrow> int \<Rightarrow> money_error + string" where
  "Money_FormatChecked m decimals = FormatMinorChecked (Amount m) decimals"

definition Money_Format :: "Money \<Rightarrow> int \<Rightarrow> string option" where
  "Money_Format m decimals = FormatMinor (Amount m) decimals"

text \<open>\<open>for i := pre; i < n; i += 3\<close> over the rest of the digits.\<close>

fun group_tail :: "string \<Rightarrow> string" where
  "group_tail d =
     (if length d \<le> 3 then d else take 3 d @ '','' @ group_tail (drop 3 d))"

declare group_tail.simps [simp del]

definition groupDigits :: "string \<Rightarrow> string" where
  "groupDigits d =
     (let n = length d in
      if n \<le> 3 then d
      else let pre = n mod 3 in
        (if pre > 0 then take pre d @ '','' else []) @ group_tail (drop pre d))"

definition Group :: "string \<Rightarrow> string" where
  "Group s =
     (let neg = (take 1 s = ''-'');
          s' = (if neg then drop 1 s else s);
          intPart = takeWhile (\<lambda>c. c \<noteq> CHR ''.'') s';
          fracPart = dropWhile (\<lambda>c. c \<noteq> CHR ''.'') s';
          grouped = groupDigits intPart @ fracPart
      in if neg then ''-'' @ grouped else grouped)"

definition FormatAccountingChecked :: "int \<Rightarrow> int \<Rightarrow> string \<Rightarrow> money_error + string" where
  "FormatAccountingChecked amount decimals symbol =
     bindE (FormatMinorChecked amount decimals) (\<lambda>plain.
       let body = symbol @ Group (if take 1 plain = ''-'' then drop 1 plain else plain)
       in Inr (if amount < 0 then ''('' @ body @ '')'' else body))"

definition FormatAccounting :: "int \<Rightarrow> int \<Rightarrow> string \<Rightarrow> string option" where
  "FormatAccounting amount decimals symbol =
     (case FormatAccountingChecked amount decimals symbol of Inl _ \<Rightarrow> None | Inr s \<Rightarrow> Some s)"

subsection \<open>Parsing\<close>

definition is_digit :: "char \<Rightarrow> bool" where
  "is_digit c \<longleftrightarrow> 48 \<le> (of_char c :: nat) \<and> (of_char c :: nat) \<le> 57"

definition allDigits :: "string \<Rightarrow> bool" where
  "allDigits s = list_all is_digit s"

definition digit_val :: "char \<Rightarrow> nat" where
  "digit_val c = of_char c - 48"

definition appendDigit :: "nat \<Rightarrow> nat \<Rightarrow> nat \<Rightarrow> nat option" where
  "appendDigit limit value digit =
     (if value > (limit - digit) div 10 then None else Some (value * 10 + digit))"

fun appendDigits :: "nat \<Rightarrow> nat \<Rightarrow> nat list \<Rightarrow> nat option" where
  "appendDigits limit value [] = Some value"
| "appendDigits limit value (d # ds) =
     (case appendDigit limit value d of None \<Rightarrow> None | Some value' \<Rightarrow> appendDigits limit value' ds)"

definition err_range :: money_error where "err_range = Join ErrInvalidAmount ErrOverflow"

definition ParseMinor :: "string \<Rightarrow> int \<Rightarrow> money_error + int" where
  "ParseMinor s decimals =
     (if decimals < 0 \<or> decimals > MaxDecimals then Inl (Join ErrInvalidAmount ErrInvalidPrecision)
      else if length s > MaxAmountLength then Inl ErrInvalidAmount
      else
        let s = trim_space s in
        if s = [] then Inl ErrInvalidAmount
        else
          let neg = (hd s = CHR ''-'');
              s = (if hd s = CHR ''-'' \<or> hd s = CHR ''+'' then tl s else s);
              intPart = takeWhile (\<lambda>c. c \<noteq> CHR ''.'') s;
              fracPart = drop 1 (dropWhile (\<lambda>c. c \<noteq> CHR ''.'') s)
          in
          if (intPart = [] \<and> fracPart = []) \<or> \<not> allDigits intPart \<or> \<not> allDigits fracPart
            then Inl ErrInvalidAmount
          else if int (length fracPart) > decimals then Inl ErrInvalidAmount
          else
            let limit = (if neg then 2 ^ 63 else 2 ^ 63 - 1) in
            (case appendDigits limit 0 (map digit_val intPart @ map digit_val fracPart
                    @ replicate (nat decimals - length fracPart) 0) of
               None \<Rightarrow> Inl err_range
             | Some value \<Rightarrow>
                 Inr (if neg then (if value = 2 ^ 63 then min_i64 else wrap64 (- i64_of_u64 value))
                      else i64_of_u64 value)))"

subsection \<open>Digits and their value\<close>

definition dec_value :: "nat \<Rightarrow> nat list \<Rightarrow> nat" where
  "dec_value v ds = foldl (\<lambda>v d. v * 10 + d) v ds"

lemma dec_value_simps [simp]:
  "dec_value v [] = v" "dec_value v (d # ds) = dec_value (v * 10 + d) ds"
  "dec_value v (xs @ ys) = dec_value (dec_value v xs) ys"
  by (simp_all add: dec_value_def)

lemma dec_value_replicate: "dec_value v (replicate k 0) = v * 10 ^ k"
  by (induction k arbitrary: v) simp_all

lemma dec_value_zeros: "dec_value 0 (replicate k 0 @ ds) = dec_value 0 ds"
  by (simp add: dec_value_replicate)

lemma dec_value_ge: "v \<le> dec_value v ds"
proof (induction ds arbitrary: v)
  case (Cons d ds)
  have "v \<le> v * 10 + d" by simp
  also have "\<dots> \<le> dec_value (v * 10 + d) ds" by (rule Cons.IH)
  finally show ?case by simp
qed simp

lemma appendDigit_eq:
  "9 \<le> limit \<Longrightarrow> d \<le> 9 \<Longrightarrow>
   appendDigit limit v d = (if v * 10 + d \<le> limit then Some (v * 10 + d) else None)"
proof -
  assume "9 \<le> limit" "d \<le> 9"
  then have "v \<le> (limit - d) div 10 \<longleftrightarrow> v * 10 + d \<le> limit" by (simp add: less_eq_div_iff_mult_less_eq) arith
  then show ?thesis by (auto simp: appendDigit_def)
qed

lemma appendDigits_eq:
  "9 \<le> limit \<Longrightarrow> list_all (\<lambda>d. d \<le> 9) ds \<Longrightarrow> v \<le> limit \<Longrightarrow>
   appendDigits limit v ds = (if dec_value v ds \<le> limit then Some (dec_value v ds) else None)"
proof (induction ds arbitrary: v)
  case (Cons d ds)
  then show ?case
    using dec_value_ge [of "v * 10 + d" ds] by (auto simp: appendDigit_eq)
qed simp

lemma digit_char_facts [simp]:
  "d < 10 \<Longrightarrow> is_digit (digit_char d)" "d < 10 \<Longrightarrow> digit_val (digit_char d) = d"
  by (simp_all add: is_digit_def digit_char_def digit_val_def)

lemma is_digit_facts: "is_digit c \<Longrightarrow> is_graph c \<and> c \<noteq> CHR ''.'' \<and> c \<noteq> CHR ''-'' \<and> c \<noteq> CHR ''+'' \<and> c \<noteq> CHR '','' \<and> digit_val c \<le> 9"
  by (auto simp: is_digit_def is_graph_def digit_val_def)

lemma utoa_facts: "utoa n \<noteq> [] \<and> allDigits (utoa n) \<and> dec_value 0 (map digit_val (utoa n)) = n"
proof (induction n rule: utoa.induct)
  case (1 n)
  show ?case
  proof (cases "n < 10")
    case True
    then show ?thesis by (simp add: utoa.simps [of n] allDigits_def)
  next
    case False
    then show ?thesis using 1 by (simp add: utoa.simps [of n] allDigits_def)
  qed
qed

lemma utoa_length: "0 < k \<Longrightarrow> n < 10 ^ k \<Longrightarrow> length (utoa n) \<le> k"
proof (induction k arbitrary: n)
  case (Suc k)
  show ?case
  proof (cases "n < 10")
    case False
    with Suc.prems have "k \<noteq> 0" by (cases k) auto
    then have "length (utoa (n div 10)) \<le> k"
      using Suc.prems by (intro Suc.IH) (auto simp: less_mult_imp_div_less mult.commute)
    with False show ?thesis by (simp add: utoa.simps [of n])
  qed (simp add: utoa.simps [of n])
qed simp

subsection \<open>What the parser accepts\<close>

text \<open>The well-formed decimals: a sign, digits, and optionally a point with more digits.\<close>

definition decimal_text :: "string \<Rightarrow> string \<Rightarrow> string \<Rightarrow> string \<Rightarrow> bool" where
  "decimal_text s sign ip fp \<longleftrightarrow>
     sign \<in> {[], ''-'', ''+''} \<and> ip @ fp \<noteq> [] \<and> allDigits ip \<and> allDigits fp \<and>
     (s = sign @ ip @ ''.'' @ fp \<or> (fp = [] \<and> s = sign @ ip))"

definition decimal_minor :: "string \<Rightarrow> string \<Rightarrow> string \<Rightarrow> nat \<Rightarrow> int" where
  "decimal_minor sign ip fp dec = (if sign = ''-'' then - 1 else 1) *
     int (dec_value 0 (map digit_val (ip @ fp)) * 10 ^ (dec - length fp))"

lemma not_digit_point: "\<not> is_digit CHR ''.''" "\<not> is_digit CHR ''-''" "\<not> is_digit CHR ''+''" "\<not> is_digit CHR '',''"
  by (simp_all add: is_digit_def)

lemma takeWhile_point:
  "\<forall>c \<in> set ip. c \<noteq> x \<Longrightarrow> takeWhile (\<lambda>c. c \<noteq> x) (ip @ x # fp) = ip \<and>
    dropWhile (\<lambda>c. c \<noteq> x) (ip @ x # fp) = x # fp \<and>
    takeWhile (\<lambda>c. c \<noteq> x) ip = ip \<and> dropWhile (\<lambda>c. c \<noteq> x) ip = []"
  by (induction ip) auto

lemma split_at_point:
  assumes "allDigits ip" "s = ip @ ''.'' @ fp \<or> (fp = [] \<and> s = ip)"
  shows "takeWhile (\<lambda>c. c \<noteq> CHR ''.'') s = ip" "drop 1 (dropWhile (\<lambda>c. c \<noteq> CHR ''.'') s) = fp"
proof -
  have "\<forall>c \<in> set ip. c \<noteq> CHR ''.''"
    using assms(1) not_digit_point by (auto simp: allDigits_def list_all_iff)
  note tw = takeWhile_point [OF this]
  from assms(2) have "takeWhile (\<lambda>c. c \<noteq> CHR ''.'') s = ip \<and> drop 1 (dropWhile (\<lambda>c. c \<noteq> CHR ''.'') s) = fp"
  proof
    assume "s = ip @ ''.'' @ fp"
    then show ?thesis using tw [of fp] by simp
  next
    assume "fp = [] \<and> s = ip"
    moreover have "takeWhile (\<lambda>c. c \<noteq> CHR ''.'') ip = ip" "dropWhile (\<lambda>c. c \<noteq> CHR ''.'') ip = []"
      using tw by blast+
    ultimately show ?thesis by (simp only: drop_Nil)
  qed
  then show "takeWhile (\<lambda>c. c \<noteq> CHR ''.'') s = ip" "drop 1 (dropWhile (\<lambda>c. c \<noteq> CHR ''.'') s) = fp"
    by blast+
qed

lemma list_all_replicate_0: "list_all (\<lambda>d. d \<le> 9) (replicate k (0 :: nat))"
  by (induction k) simp_all

definition unsign :: "string \<Rightarrow> string" where
  "unsign s = (if hd s = CHR ''-'' \<or> hd s = CHR ''+'' then tl s else s)"

lemma unsign_decimal:
  assumes "decimal_text s sign ip fp"
  shows "s \<noteq> []" "(hd s = CHR ''-'') = (sign = ''-'')"
    "unsign s = ip @ ''.'' @ fp \<or> (fp = [] \<and> unsign s = ip)"
proof -
  have ip: "ip \<noteq> [] \<Longrightarrow> hd ip \<noteq> CHR ''-'' \<and> hd ip \<noteq> CHR ''+''"
    using assms not_digit_point by (cases ip) (auto simp: decimal_text_def allDigits_def)
  show "s \<noteq> []" using assms by (auto simp: decimal_text_def)
  show "(hd s = CHR ''-'') = (sign = ''-'')"
    using assms ip by (cases "ip = []") (auto simp: decimal_text_def hd_append)
  show "unsign s = ip @ ''.'' @ fp \<or> (fp = [] \<and> unsign s = ip)"
    using assms ip by (cases "ip = []") (auto simp: decimal_text_def unsign_def hd_append)
qed

lemma allDigits_values: "allDigits s \<Longrightarrow> list_all (\<lambda>d. d \<le> 9) (map digit_val s)"
  by (auto simp: allDigits_def list_all_iff dest: is_digit_facts)

lemma signed_value:
  assumes "value \<le> (if neg then 2 ^ 63 else 2 ^ 63 - 1)"
  shows "(if neg then (if value = 2 ^ 63 then min_i64 else wrap64 (- i64_of_u64 value)) else i64_of_u64 value)
    = (if neg then - int value else int value)"
proof -
  have "int value \<le> (if neg then two63 else max_i64)"
    using assms by (simp split: if_splits)
  moreover have "value = 2 ^ 63 \<longleftrightarrow> int value = two63" by (metis of_nat_eq_iff of_nat_numeral power_numeral_63)
  moreover have "neg \<Longrightarrow> int value \<noteq> two63 \<Longrightarrow> int value \<le> two63 \<Longrightarrow> is_i64 (int value) \<and> is_i64 (- int value)"
    "int value \<le> max_i64 \<Longrightarrow> is_i64 (int value)"
    by (auto simp: is_i64_def)
  ultimately show ?thesis by (auto simp: i64_of_u64_def split: if_splits)
qed

lemma ParseMinor_decimal:
  assumes d: "0 \<le> d" "d \<le> MaxDecimals" and len: "length t \<le> MaxAmountLength"
    and dec: "decimal_text (trim_space t) sign ip fp" "length fp \<le> nat d"
  shows "ParseMinor t d =
    (let v = decimal_minor sign ip fp (nat d) in if is_i64 v then Inr v else Inl err_range)"
proof -
  let ?s = "trim_space t" let ?neg = "sign = ''-''"
  let ?ds = "map digit_val ip @ map digit_val fp @ replicate (nat d - length fp) 0"
  let ?limit = "if ?neg then 2 ^ 63 else 2 ^ 63 - 1 :: nat"
  note u = unsign_decimal [OF dec(1)]
  have digits: "allDigits ip" "allDigits fp" "\<not> (ip = [] \<and> fp = [])"
    using dec(1) by (auto simp: decimal_text_def)
  have parts: "takeWhile (\<lambda>c. c \<noteq> CHR ''.'') (unsign ?s) = ip"
    "drop 1 (dropWhile (\<lambda>c. c \<noteq> CHR ''.'') (unsign ?s)) = fp"
    using split_at_point [OF digits(1) u(3)] by auto
  define val where "val = dec_value 0 ?ds"
  have app: "appendDigits ?limit 0 ?ds = (if val \<le> ?limit then Some val else None)"
    unfolding val_def
    by (rule appendDigits_eq) (use digits in \<open>simp_all add: allDigits_values list_all_replicate_0\<close>)
  have v: "decimal_minor sign ip fp (nat d) = (if ?neg then - int val else int val)"
    by (simp add: decimal_minor_def val_def dec_value_replicate)
  have i64: "is_i64 (if ?neg then - int val else int val) \<longleftrightarrow> val \<le> ?limit"
    by (auto simp: is_i64_def)
  have "ParseMinor t d = (case appendDigits ?limit 0 ?ds of None \<Rightarrow> Inl err_range
      | Some value \<Rightarrow> Inr (if ?neg then (if value = 2 ^ 63 then min_i64 else wrap64 (- i64_of_u64 value)) else i64_of_u64 value))"
    unfolding ParseMinor_def Let_def unsign_def [symmetric] parts u(2)
    using d len dec(2) digits u(1) by (auto simp: not_less)
  also have "\<dots> = (if val \<le> ?limit then Inr (if ?neg then - int val else int val) else Inl err_range)"
    unfolding app using signed_value [of val ?neg] by (cases "val \<le> ?limit") simp_all
  finally show ?thesis by (simp only: v Let_def i64)
qed

lemma point_split:
  "s = takeWhile (\<lambda>c. c \<noteq> x) s @ [x] @ drop 1 (dropWhile (\<lambda>c. c \<noteq> x) s) \<or>
   (drop 1 (dropWhile (\<lambda>c. c \<noteq> x) s) = [] \<and> s = takeWhile (\<lambda>c. c \<noteq> x) s)"
  by (induction s) auto

lemma decimal_text_intro:
  "s = sg @ u \<Longrightarrow> u = ip @ ''.'' @ fp \<or> (fp = [] \<and> u = ip) \<Longrightarrow> sg \<in> {[], ''-'', ''+''} \<Longrightarrow>
   \<not> (ip = [] \<and> fp = []) \<Longrightarrow> allDigits ip \<Longrightarrow> allDigits fp \<Longrightarrow> decimal_text s sg ip fp"
  by (auto simp: decimal_text_def)

lemma guards_passed:
  "(if a then Inl e1 else if b then Inl e2 else if c then Inl e3 else if d then Inl e4
    else if f then Inl e5 else X) = Inr v \<Longrightarrow> \<not> a \<and> \<not> b \<and> \<not> c \<and> \<not> d \<and> \<not> f"
  by (auto split: if_splits)

lemma ParseMinor_accepts:
  assumes "ParseMinor t d = Inr v"
  shows "0 \<le> d" "d \<le> MaxDecimals" "length t \<le> MaxAmountLength"
    "\<exists>sign ip fp. decimal_text (trim_space t) sign ip fp \<and> length fp \<le> nat d"
proof -
  let ?s = "trim_space t" let ?u = "unsign ?s"
  let ?ip = "takeWhile (\<lambda>c. c \<noteq> CHR ''.'') ?u" let ?fp = "drop 1 (dropWhile (\<lambda>c. c \<noteq> CHR ''.'') ?u)"
  let ?sign = "if hd ?s = CHR ''-'' then ''-'' else if hd ?s = CHR ''+'' then ''+'' else []"
  note g = assms [unfolded ParseMinor_def Let_def unsign_def [symmetric], THEN guards_passed]
  have *: "0 \<le> d" "d \<le> MaxDecimals" "length t \<le> MaxAmountLength" "?s \<noteq> []"
    "\<not> (?ip = [] \<and> ?fp = [])" "allDigits ?ip" "allDigits ?fp" "int (length ?fp) \<le> d"
    using g by (simp_all only: de_Morgan_disj not_not not_less simp_thms)
  then show "0 \<le> d" "d \<le> MaxDecimals" "length t \<le> MaxAmountLength" by auto
  have "?s = ?sign @ ?u" using *(4) by (cases ?s) (auto simp: unsign_def)
  moreover have "?u = ?ip @ ''.'' @ ?fp \<or> (?fp = [] \<and> ?u = ?ip)"
    by (rule point_split)
  ultimately have "decimal_text ?s ?sign ?ip ?fp"
    by (rule decimal_text_intro [OF _ _ _ *(5-7)]) simp
  moreover have "length ?fp \<le> nat d" using *(8) by linarith
  ultimately show "\<exists>sign ip fp. decimal_text ?s sign ip fp \<and> length fp \<le> nat d" by blast
qed

text \<open>C29: \<open>ParseMinor\<close> accepts exactly the inputs of at most 128 bytes that are, up to surrounding
  whitespace, a well-formed decimal with no more fraction digits than the precision and whose
  exact value in minor units fits in int64, and returns that value.\<close>

theorem ParseMinor_exact:
  "ParseMinor t d = Inr v \<longleftrightarrow>
    0 \<le> d \<and> d \<le> MaxDecimals \<and> length t \<le> MaxAmountLength \<and>
    (\<exists>sign ip fp. decimal_text (trim_space t) sign ip fp \<and> length fp \<le> nat d \<and>
      v = decimal_minor sign ip fp (nat d) \<and> is_i64 v)"
proof
  assume p: "ParseMinor t d = Inr v"
  note a = ParseMinor_accepts [OF p]
  obtain sign ip fp where dt: "decimal_text (trim_space t) sign ip fp" "length fp \<le> nat d"
    using a(4) by blast
  from ParseMinor_decimal [OF a(1-3) dt] p have "v = decimal_minor sign ip fp (nat d)" "is_i64 v"
    by (auto simp: Let_def split: if_splits)
  with a dt show "0 \<le> d \<and> d \<le> MaxDecimals \<and> length t \<le> MaxAmountLength \<and>
    (\<exists>sign ip fp. decimal_text (trim_space t) sign ip fp \<and> length fp \<le> nat d \<and>
      v = decimal_minor sign ip fp (nat d) \<and> is_i64 v)" by blast
next
  assume "0 \<le> d \<and> d \<le> MaxDecimals \<and> length t \<le> MaxAmountLength \<and>
    (\<exists>sign ip fp. decimal_text (trim_space t) sign ip fp \<and> length fp \<le> nat d \<and>
      v = decimal_minor sign ip fp (nat d) \<and> is_i64 v)"
  then show "ParseMinor t d = Inr v" using ParseMinor_decimal by (auto simp: Let_def)
qed

subsection \<open>The round trip\<close>

lemma FormatMinor_decimal:
  assumes "is_i64 a" "0 \<le> d" "d \<le> MaxDecimals"
  shows "\<exists>s sign ip fp. FormatMinorChecked a d = Inr s \<and> decimal_text s sign ip fp \<and> ip \<noteq> [] \<and>
    length fp = nat d \<and> decimal_minor sign ip fp (nat d) = a \<and> length s \<le> 40 \<and> trim_space s = s"
proof -
  let ?g = "utoa (magnitude a)" let ?d = "nat d"
  let ?p = "if length ?g \<le> ?d then replicate (?d + 1 - length ?g) CHR ''0'' @ ?g else ?g"
  let ?ip = "take (length ?p - ?d) ?p" let ?fp = "drop (length ?p - ?d) ?p"
  let ?sign = "if a < 0 then ''-'' else []"
  let ?s = "?sign @ (if d = 0 then ?g else ?ip @ ''.'' @ ?fp)"
  have g: "?g \<noteq> []" "allDigits ?g" "dec_value 0 (map digit_val ?g) = magnitude a"
    using utoa_facts by blast+
  have zero: "is_digit CHR ''0''" "digit_val CHR ''0'' = 0" by (simp_all add: is_digit_def digit_val_def)
  have p: "allDigits ?p" "dec_value 0 (map digit_val ?p) = magnitude a" "?d < length ?p"
    using g zero by (auto simp: allDigits_def list_all_iff map_replicate_const dec_value_replicate)
  have ip: "?ip \<noteq> []" "allDigits ?ip" "allDigits ?fp" "length ?fp = ?d"
    using p set_take_subset [of "length ?p - ?d" ?p] set_drop_subset [of "length ?p - ?d" ?p]
    by (auto simp: allDigits_def list_all_iff simp del: set_append)
  have pif: "?p = ?ip @ ?fp" by (simp only: append_take_drop_id)
  have gp: "d = 0 \<Longrightarrow> ?g = ?ip \<and> ?fp = []" using g(1) by simp
  have dt: "decimal_text ?s ?sign ?ip ?fp"
    using ip gp by (auto simp: decimal_text_def)
  have mag: "int (magnitude a) = \<bar>a\<bar>" "magnitude a \<le> 2 ^ 63" using magnitude_bound [OF assms(1)] by auto
  have "dec_value 0 (map digit_val (?ip @ ?fp)) = magnitude a" using p(2) by (simp only: pif [symmetric])
  then have val: "decimal_minor ?sign ?ip ?fp ?d = a"
    using mag(1) ip(4) by (simp add: decimal_minor_def)
  have "magnitude a < 10 ^ 19" using mag(2) by simp
  then have "length ?g \<le> 19" by (intro utoa_length) auto
  then have "length ?p \<le> 19" using assms(2,3) by (auto simp: MaxDecimals_def)
  then have len: "length ?s \<le> 40" using \<open>length ?g \<le> 19\<close> by auto
  have minus: "is_graph CHR ''-''" by (simp add: is_graph_def)
  have graph: "\<forall>c \<in> set x. is_graph c" if "allDigits x" for x
    using that by (auto simp: allDigits_def list_all_iff dest: is_digit_facts)
  have "is_graph (hd ?s)"
    using graph [OF ip(2)] graph [OF g(2)] g(1) ip(1) gp minus by (auto simp: hd_append)
  moreover have "is_graph (last ?s)"
    using graph [OF ip(3)] graph [OF g(2)] ip(4) g(1) assms(2) by (auto simp: last_append)
  ultimately have trim: "trim_space ?s = ?s" by (intro trim_space_id) blast
  have "FormatMinorChecked a d = Inr ?s"
    using assms(2,3) by (auto simp: FormatMinorChecked_def Let_def)
  with dt ip val len trim show ?thesis by blast
qed

text \<open>C34: rendering any int64 amount at any supported precision and parsing it back with the same
  precision returns the amount; no digit is lost, \<open>MinInt64\<close> included.\<close>

theorem format_parse_roundtrip:
  assumes "is_i64 a" "0 \<le> d" "d \<le> MaxDecimals"
  shows "bindE (FormatMinorChecked a d) (\<lambda>s. ParseMinor s d) = Inr a"
proof -
  obtain s sign ip fp where f: "FormatMinorChecked a d = Inr s" "decimal_text s sign ip fp"
    "length fp = nat d" "decimal_minor sign ip fp (nat d) = a" "length s \<le> 40" "trim_space s = s"
    using FormatMinor_decimal [OF assms] by blast
  then have "ParseMinor s d = Inr a"
    using ParseMinor_decimal [OF assms(2,3), of s sign ip fp] assms(1)
    by (simp add: MaxAmountLength_def)
  with f(1) show ?thesis by simp
qed

lemma format_parse_roundtrip_witness:
  "bindE (FormatMinorChecked min_i64 2) (\<lambda>s. ParseMinor s 2) = Inr min_i64"
  by (rule format_parse_roundtrip) (simp_all add: is_i64_def MaxDecimals_def)

subsection \<open>Grouping\<close>

lemma group_tail_filter: "filter (\<lambda>c. c \<noteq> CHR '','') (group_tail d) = filter (\<lambda>c. c \<noteq> CHR '','') d"
proof (induction d rule: group_tail.induct)
  case (1 d)
  show ?case
  proof (cases "length d \<le> 3")
    case False
    then have "filter (\<lambda>c. c \<noteq> CHR '','') (group_tail d) =
        filter (\<lambda>c. c \<noteq> CHR '','') (take 3 d) @ filter (\<lambda>c. c \<noteq> CHR '','') (drop 3 d)"
      using 1 by (simp add: group_tail.simps [of d])
    also have "\<dots> = filter (\<lambda>c. c \<noteq> CHR '','') (take 3 d @ drop 3 d)" by (simp only: filter_append)
    finally show ?thesis by (simp only: append_take_drop_id)
  qed (simp add: group_tail.simps [of d])
qed

lemma groupDigits_filter: "filter (\<lambda>c. c \<noteq> CHR '','') (groupDigits d) = filter (\<lambda>c. c \<noteq> CHR '','') d"
proof (cases "length d \<le> 3")
  case False
  let ?k = "length d mod 3"
  have "filter (\<lambda>c. c \<noteq> CHR '','') (groupDigits d) =
      filter (\<lambda>c. c \<noteq> CHR '','') (take ?k d) @ filter (\<lambda>c. c \<noteq> CHR '','') (drop ?k d)"
    using False by (simp add: groupDigits_def Let_def group_tail_filter)
  also have "\<dots> = filter (\<lambda>c. c \<noteq> CHR '','') (take ?k d @ drop ?k d)" by (simp only: filter_append)
  finally show ?thesis by (simp only: append_take_drop_id)
qed (simp add: groupDigits_def)

lemma group_tail_length:
  "d \<noteq> [] \<Longrightarrow> length d mod 3 = 0 \<Longrightarrow> length (group_tail d) + 1 = length d + length d div 3"
proof (induction d rule: group_tail.induct)
  case (1 d)
  show ?case
  proof (cases "length d \<le> 3")
    case True
    with "1.prems" have "length d = 3" by (cases "length d = 3") (auto simp: mod_less)
    then show ?thesis by (simp add: group_tail.simps [of d])
  next
    case False
    then have "(length d - 3) mod 3 = 0" "length d = 3 + (length d - 3)"
      using "1.prems"(2) by (simp_all add: le_mod_geq [symmetric])
    then show ?thesis
      using 1 False by (simp add: group_tail.simps [of d])
  qed
qed

end
