(* ===== verification/Split.thy ===== *)
theory Split
  imports Allocation
begin

text \<open>
  Package \<open>internal/split\<close>: splitting a shared expense (equally, by weights, by percentages, or
  from the editor's amounts) and settling up. Shows that every split is exact, that \<open>ByWeights\<close>
  agrees with \<open>money.Allocate\<close> as long as its products fit in int64, and that \<open>SettleUp\<close> clears
  every balance.
\<close>

subsection \<open>Equal shares and net balances\<close>

record Share =
  sh_MemberID :: string
  sh_Amount :: int

definition Equal :: "int \<Rightarrow> string list \<Rightarrow> Share list" where
  "Equal tot memberIDs =
     (let n = int (length memberIDs) in
      if n = 0 then []
      else
        let base = the (go_div tot n); rem = wrap64 (tot - wrap64 (base * n))
        in map (\<lambda>(i, id). \<lparr>sh_MemberID = id, sh_Amount = (if int i < rem then wrap64 (base + 1) else base)\<rparr>)
             (zip [0..<length memberIDs] memberIDs))"

record Expense =
  PayerID :: string
  Total :: int
  Shares :: "Share list"

definition net_share :: "(string, int) go_map \<Rightarrow> Share \<Rightarrow> (string, int) go_map" where
  "net_share net s =
     map_put (sh_MemberID s) (wrap64 (map_get 0 net (sh_MemberID s) - sh_Amount s)) net"

definition net_expense :: "(string, int) go_map \<Rightarrow> Expense \<Rightarrow> (string, int) go_map" where
  "net_expense net e =
     foldl net_share (map_put (PayerID e) (wrap64 (map_get 0 net (PayerID e) + Total e)) net) (Shares e)"

definition NetBalances :: "Expense list \<Rightarrow> (string, int) go_map" where
  "NetBalances expenses = foldl net_expense [] expenses"

subsection \<open>Settling up\<close>

record Transfer =
  tr_From :: string
  tr_To :: string
  tr_Amount :: int

definition creditors_of :: "(string, int) go_map \<Rightarrow> (string \<times> int) list" where
  "creditors_of balances = filter (\<lambda>(id, a). a > 0) balances"

definition debtors_of :: "(string, int) go_map \<Rightarrow> (string \<times> int) list" where
  "debtors_of balances = map (\<lambda>(id, a). (id, wrap64 (- a))) (filter (\<lambda>(id, a). a < 0) balances)"

text \<open>\<open>sort.Slice\<close> by descending amount, then id: a total order on entries of distinct ids.\<close>

definition byAmountDesc :: "(string \<times> int) list \<Rightarrow> (string \<times> int) list" where
  "byAmountDesc s = sort_key (\<lambda>(id, amt). (- amt, id)) s"

text \<open>The two-pointer loop; the lists are the entries from \<open>i\<close> and from \<open>j\<close> on.\<close>

function settle :: "(string \<times> int) list \<Rightarrow> (string \<times> int) list \<Rightarrow> Transfer list" where
  "settle ((c, ca) # cs) ((d, da) # ds) =
     (let pay = (if da < ca then da else ca);
          ca' = wrap64 (ca - pay); da' = wrap64 (da - pay)
      in \<lparr>tr_From = d, tr_To = c, tr_Amount = pay\<rparr> #
         settle (if ca' = 0 then cs else (c, ca') # cs) (if da' = 0 then ds else (d, da') # ds))"
| "settle [] ds = []"
| "settle (e # cs) [] = []"
  by pat_completeness auto
termination
  by (relation "measure (\<lambda>(cs, ds). length cs + length ds)") auto

definition SettleUp :: "(string, int) go_map \<Rightarrow> Transfer list" where
  "SettleUp balances = settle (byAmountDesc (creditors_of balances)) (byAmountDesc (debtors_of balances))"

subsection \<open>Weighted and percentage splits\<close>

record WeightedMember =
  wm_MemberID :: string
  Weight :: int

definition positive_weight_sum :: "WeightedMember list \<Rightarrow> int" where
  "positive_weight_sum members =
     foldl (\<lambda>s m. if Weight m > 0 then wrap64 (s + Weight m) else s) 0 members"

definition weight_product :: "int \<Rightarrow> WeightedMember \<Rightarrow> int" where
  "weight_product tot m = wrap64 (tot * Weight m)"

text \<open>\<open>out\<close> after the first loop, \<open>fracs\<close> with their index, and \<open>assigned\<close>.\<close>

definition floor_amount :: "int \<Rightarrow> int \<Rightarrow> WeightedMember \<Rightarrow> int" where
  "floor_amount tot sumW m =
     (if Weight m \<le> 0 then 0 else the (go_div (weight_product tot m) sumW))"

definition fracs_of :: "int \<Rightarrow> int \<Rightarrow> WeightedMember list \<Rightarrow> (nat \<times> int) list" where
  "fracs_of tot sumW members =
     map (\<lambda>(i, m). (i, the (go_rem (weight_product tot m) sumW)))
       (filter (\<lambda>(i, m). Weight m > 0) (zip [0..<length members] members))"

fun bump :: "Share list \<Rightarrow> (nat \<times> int) list \<Rightarrow> int \<Rightarrow> Share list" where
  "bump out [] leftover = out"
| "bump out ((i, r) # fracs) leftover =
     (if leftover > 0
      then bump (out[i := (out ! i)\<lparr>sh_Amount := wrap64 (sh_Amount (out ! i) + 1)\<rparr>]) fracs (leftover - 1)
      else out)"

definition ByWeights :: "int \<Rightarrow> WeightedMember list \<Rightarrow> Share list" where
  "ByWeights tot members =
     (let tot = (if tot < 0 then 0 else tot); sumW = positive_weight_sum members in
      if sumW \<le> 0 then []
      else
        let out = map (\<lambda>m. \<lparr>sh_MemberID = wm_MemberID m, sh_Amount = floor_amount tot sumW m\<rparr>) members;
            assigned = foldl (\<lambda>s m. wrap64 (s + floor_amount tot sumW m)) 0 members;
            leftover = wrap64 (tot - assigned);
            fracs = sort_key (\<lambda>(i, r). (- r, i)) (fracs_of tot sumW members)
        in bump out fracs leftover)"

subsection \<open>Equal splits are exact\<close>

lemma sum_first_k:
  "(\<Sum>i\<leftarrow>[0..<n]. c + (if int i < int k then 1 else 0) :: int) = int n * c + int (min n k)"
  by (induction n) (auto simp: algebra_simps min_def)

lemma int_div_le_self: "0 \<le> (a :: int) \<Longrightarrow> 0 < b \<Longrightarrow> a div b \<le> a"
  using int_div_less_self [of a b] by (cases "a = 0"; cases "b = 1") auto

lemma Equal_amounts:
  assumes "0 \<le> tot" "is_i64 tot" "ids \<noteq> []" "is_i64 (int (length ids))"
  shows "Equal tot ids = map (\<lambda>(i, id). \<lparr>sh_MemberID = id,
    sh_Amount = tot div int (length ids) + (if int i < tot mod int (length ids) then 1 else 0)\<rparr>)
      (zip [0..<length ids] ids)"
proof -
  let ?n = "int (length ids)"
  have n: "0 < ?n" using assms(3) by simp
  have q: "0 \<le> tot div ?n" "tot div ?n \<le> tot" "0 \<le> tot mod ?n" "tot mod ?n < ?n"
    using n assms(1) by (simp_all add: pos_imp_zdiv_nonneg_iff int_div_le_self)
  have base: "the (go_div tot ?n) = tot div ?n"
    using n assms(1,2) q by (simp add: go_div_def sdiv_pos is_i64_between [OF is_i64_0 assms(2)])
  have rem: "wrap64 (tot - wrap64 (tot div ?n * ?n)) = tot mod ?n"
    using q(3,4) assms(4) by (simp add: minus_div_mult_eq_mod is_i64_def)
  have "tot div ?n + 1 \<le> tot" if "int i < tot mod ?n" for i
  proof -
    have "?n * (tot div ?n) + tot mod ?n = tot" by simp
    moreover have "1 * (tot div ?n) \<le> ?n * (tot div ?n)" using n q(1) by (intro mult_right_mono) linarith+
    ultimately show ?thesis using that q(3) by linarith
  qed
  then have "wrap64 (tot div ?n + 1) = tot div ?n + 1" if "int i < tot mod ?n" for i
  proof -
    have "is_i64 (tot div ?n + 1)"
      using \<open>\<And>i. int i < tot mod ?n \<Longrightarrow> tot div ?n + 1 \<le> tot\<close> [OF that] q(1) assms(2)
      unfolding is_i64_def by linarith
    then show ?thesis by simp
  qed
  then show ?thesis
    using assms(3) unfolding Equal_def Let_def base rem by auto
qed

text \<open>splitting a nonnegative int64 total equally keeps the members in order, the amounts add
  up exactly to the total, and any two amounts differ by at most one minor unit, the larger ones
  first.\<close>

theorem Equal_exact:
  assumes "0 \<le> tot" "is_i64 tot" "ids \<noteq> []" "is_i64 (int (length ids))"
  shows "map sh_MemberID (Equal tot ids) = ids \<and> sum_list (map sh_Amount (Equal tot ids)) = tot \<and>
    (\<exists>base k. map sh_Amount (Equal tot ids) = replicate k (base + 1) @ replicate (length ids - k) base)"
proof -
  let ?n = "int (length ids)"
  define base where "base = tot div ?n"
  define k where "k = nat (tot mod ?n)"
  have n: "0 < ?n" using assms(3) by simp
  have k: "int k = tot mod ?n" using n by (simp add: k_def)
  have kn: "k \<le> length ids" using less_imp_le [OF pos_mod_bound [OF n, of tot]] by (simp add: k_def nat_le_iff)
  note eq = Equal_amounts [OF assms, folded base_def k]
  have amounts: "map sh_Amount (Equal tot ids) = map (\<lambda>i. base + (if int i < int k then 1 else 0)) [0..<length ids]"
    unfolding eq by (rule nth_equalityI) auto
  have ids: "map sh_MemberID (Equal tot ids) = ids"
    unfolding eq by (rule nth_equalityI) auto
  have "sum_list (map sh_Amount (Equal tot ids)) = ?n * base + int k"
    unfolding amounts sum_first_k using kn by (simp add: min_def)
  also have "\<dots> = tot" by (simp add: k base_def)
  finally have "sum_list (map sh_Amount (Equal tot ids)) = tot" .
  moreover have "map (\<lambda>i. base + (if int i < int k then 1 else 0)) [0..<length ids] =
      replicate k (base + 1) @ replicate (length ids - k) base"
    using kn by (intro nth_equalityI) (auto simp: nth_append)
  ultimately show ?thesis using ids amounts by metis
qed

lemma Equal_exact_witness:
  "sum_list (map sh_Amount (Equal 1000 [''a'', ''b'', ''c''])) = 1000"
  using Equal_exact [of 1000 "[''a'', ''b'', ''c'']"] by (simp add: is_i64_def)

subsection \<open>Net balances\<close>

definition paid :: "string \<Rightarrow> Expense list \<Rightarrow> int" where
  "paid m es = (\<Sum>e\<leftarrow>es. if PayerID e = m then Total e else 0)"

definition owed :: "string \<Rightarrow> Expense list \<Rightarrow> int" where
  "owed m es = (\<Sum>e\<leftarrow>es. \<Sum>s\<leftarrow>Shares e. if sh_MemberID s = m then sh_Amount s else 0)"

lemma net_shares_get:
  "wrap64 (map_get 0 (foldl net_share net ss) m) =
   wrap64 (map_get 0 net m - (\<Sum>s\<leftarrow>ss. if sh_MemberID s = m then sh_Amount s else 0))"
proof (induction ss arbitrary: net)
  case (Cons s ss)
  show ?case unfolding foldl_Cons Cons
    using wrap64_simps(3) [of "map_get 0 net m - sh_Amount s"]
    by (simp add: net_share_def algebra_simps)
qed simp

lemma net_expense_get:
  "wrap64 (map_get 0 (net_expense net e) m) = wrap64 (map_get 0 net m
     + (if PayerID e = m then Total e else 0)
     - (\<Sum>s\<leftarrow>Shares e. if sh_MemberID s = m then sh_Amount s else 0))"
  by (simp add: net_expense_def net_shares_get)

lemma NetBalances_get: "wrap64 (map_get 0 (NetBalances es) m) = wrap64 (paid m es - owed m es)"
proof -
  have "wrap64 (map_get 0 (foldl net_expense net es) m) = wrap64 (map_get 0 net m + paid m es - owed m es)" for net
  proof (induction es arbitrary: net)
    case (Cons e es)
    have "wrap64 (map_get 0 (foldl net_expense net (e # es)) m)
        = wrap64 (wrap64 (map_get 0 (net_expense net e) m) + (paid m es - owed m es))"
      unfolding foldl_Cons Cons wrap64_simps by (simp add: algebra_simps)
    also have "\<dots> = wrap64 (map_get 0 net m + paid m (e # es) - owed m (e # es))"
      unfolding net_expense_get wrap64_simps(1) by (simp add: paid_def owed_def algebra_simps)
    finally show ?case .
  qed (simp add: paid_def owed_def)
  from this [of "[]"] show ?thesis by (simp add: NetBalances_def)
qed

subsection \<open>Settling up clears every balance\<close>

definition amount_of :: "string \<Rightarrow> (string \<times> int) list \<Rightarrow> int" where
  "amount_of m es = (\<Sum>(id, a)\<leftarrow>es. if id = m then a else 0)"

definition received :: "string \<Rightarrow> Transfer list \<Rightarrow> int" where
  "received m ts = (\<Sum>t\<leftarrow>ts. if tr_To t = m then tr_Amount t else 0)"

definition sent :: "string \<Rightarrow> Transfer list \<Rightarrow> int" where
  "sent m ts = (\<Sum>t\<leftarrow>ts. if tr_From t = m then tr_Amount t else 0)"

abbreviation amounts_ok :: "(string \<times> int) list \<Rightarrow> bool" where
  "amounts_ok es \<equiv> \<forall>e \<in> set es. 0 < snd e \<and> is_i64 (snd e)"

lemma pay_i64:
  "is_i64 (a :: int) \<Longrightarrow> is_i64 b \<Longrightarrow> 0 < a \<Longrightarrow> 0 < b \<Longrightarrow> wrap64 (a - b) = a - b"
  by (simp add: is_i64_def)

lemma amounts_positive_sum: "amounts_ok es \<Longrightarrow> es \<noteq> [] \<Longrightarrow> 0 < (\<Sum>e\<leftarrow>es. snd e)"
proof (induction es)
  case (Cons e es)
  then show ?case by (cases "es = []") auto
qed simp

lemma settle_clears:
  assumes "amounts_ok cs" "amounts_ok ds" "(\<Sum>e\<leftarrow>cs. snd e) = (\<Sum>e\<leftarrow>ds. snd e)"
  shows "received m (settle cs ds) = amount_of m cs \<and> sent m (settle cs ds) = amount_of m ds \<and>
    (\<forall>t \<in> set (settle cs ds). 0 < tr_Amount t) \<and>
    length (settle cs ds) \<le> length cs + length ds - 1"
  using assms
proof (induction cs ds rule: settle.induct)
  case (1 c ca cs d da ds)
  let ?pay = "if da < ca then da else ca"
  let ?cs = "if ca - ?pay = 0 then cs else (c, ca - ?pay) # cs" let ?ds = "if da - ?pay = 0 then ds else (d, da - ?pay) # ds"
  have pos: "0 < ca" "0 < da" "is_i64 ca" "is_i64 da" using "1.prems" by auto
  then have w: "wrap64 (ca - ?pay) = ca - ?pay" "wrap64 (da - ?pay) = da - ?pay" by (auto simp: pay_i64)
  have step: "settle ((c, ca) # cs) ((d, da) # ds) =
      \<lparr>tr_From = d, tr_To = c, tr_Amount = ?pay\<rparr> # settle ?cs ?ds"
    by (simp only: settle.simps Let_def w)
  have ok: "amounts_ok ?cs" "amounts_ok ?ds" "(\<Sum>e\<leftarrow>?cs. snd e) = (\<Sum>e\<leftarrow>?ds. snd e)"
    using "1.prems" pos by (auto simp: is_i64_def)
  note IH = "1.IH" [OF refl refl refl, unfolded w, OF ok]
  have "length ?cs + length ?ds \<le> length cs + length ds + 1 \<and>
      (length cs + length ds + 1 = 1 \<longrightarrow> ?cs = [] \<and> ?ds = [])"
    using "1.prems"(3) by auto
  moreover have "?cs = [] \<longleftrightarrow> ?ds = []"
    using amounts_positive_sum [OF ok(1)] amounts_positive_sum [OF ok(2)] ok(3) by (cases "?cs = []"; cases "?ds = []") auto
  ultimately have len: "length (settle ?cs ?ds) + 1 \<le> length cs + length ds + 1"
    using IH by (cases "?cs = []") auto
  show ?case
    unfolding step using IH len pos
    by (auto simp: received_def sent_def amount_of_def)
next
  case (2 ds)
  then have "ds = []" using amounts_positive_sum [of ds] by auto
  then show ?case by (simp add: received_def sent_def amount_of_def)
next
  case (3 e cs)
  then have False using amounts_positive_sum [of "e # cs"] by auto
  then show ?case ..
qed

lemma sum_sort_key: "(\<Sum>x\<leftarrow>sort_key k xs. f x) = (\<Sum>x\<leftarrow>xs. f x :: int)"
  by (metis mset_map mset_sort sum_mset_sum_list)

lemma sort_key_perm:
  assumes "mset xs = mset ys" "inj_on f (set xs)"
  shows "sort_key f xs = sort_key f ys"
proof (rule properties_for_sort_key)
  fix k assume k: "k \<in> set (sort_key f ys)"
  have set: "set xs = set ys" using assms(1) by (rule mset_eq_setD)
  have eq: "filter (\<lambda>x. f k = f x) zs = replicate (count (mset zs) k) k" if "set zs = set xs" for zs
  proof -
    have "filter (\<lambda>x. f k = f x) zs = filter ((=) k) zs"
      using k assms(2) that set by (intro filter_cong) (auto dest: inj_onD)
    then show ?thesis by (simp only: replicate_count_mset_eq_filter_eq)
  qed
  show "filter (\<lambda>x. f k = f x) (sort_key f ys) = filter (\<lambda>x. f k = f x) xs"
    using eq [of "sort_key f ys"] eq [of xs] set assms(1) by simp
qed (use assms in simp_all)

lemma byAmountDesc_perm:
  "mset xs = mset ys \<Longrightarrow> map_ok xs \<Longrightarrow> byAmountDesc xs = byAmountDesc ys"
  unfolding byAmountDesc_def
  by (rule sort_key_perm) (auto simp: inj_on_def distinct_map split: prod.splits)

lemma amount_of_sort: "amount_of m (byAmountDesc es) = amount_of m es"
  unfolding amount_of_def byAmountDesc_def by (rule sum_sort_key)

definition balances_ok :: "(string, int) go_map \<Rightarrow> bool" where
  "balances_ok b \<longleftrightarrow> map_ok b \<and> (\<forall>(id, a) \<in> set b. is_i64 a \<and> a \<noteq> min_i64) \<and> sum_list (map snd b) = 0"

lemma debtors_of_eq:
  "\<forall>(id, a) \<in> set b. is_i64 a \<and> a \<noteq> min_i64 \<Longrightarrow>
   debtors_of b = map (\<lambda>(id, a). (id, - a)) (filter (\<lambda>(id, a). a < 0) b)"
  by (auto simp: debtors_of_def is_i64_def)

lemma amount_of_balance:
  "map_ok b \<Longrightarrow> amount_of m (filter (\<lambda>(id, a). a > 0) b) = max 0 (map_get 0 b m) \<and>
   amount_of m (map (\<lambda>(id, a). (id, - a)) (filter (\<lambda>(id, a). a < 0) b)) = max 0 (- map_get 0 b m)"
proof (induction b)
  case (Cons p b)
  obtain k v where p: "p = (k, v)" by (cases p)
  have "k \<notin> fst ` set b" using Cons.prems by (simp add: p)
  then have "map_get 0 b k = 0" by (rule map_get_absent)
  with Cons show ?case by (auto simp: p map_get_Cons amount_of_def)
qed (simp add: amount_of_def)

lemma credit_debt_sums:
  "(\<Sum>e\<leftarrow>filter (\<lambda>(id, a). a > 0) b. snd e) - (\<Sum>e\<leftarrow>map (\<lambda>(id, a). (id, - a)) (filter (\<lambda>(id, a). a < 0) b). snd e)
   = (sum_list (map snd b) :: int)"
  by (induction b) auto



subsection \<open>ByWeights agrees with money.Allocate\<close>

definition weights :: "WeightedMember list \<Rightarrow> int list" where
  "weights ms = map (\<lambda>m. max 0 (Weight m)) ms"

text \<open>No product and no partial sum of the code leaves int64.\<close>

definition weights_fit :: "int \<Rightarrow> WeightedMember list \<Rightarrow> bool" where
  "weights_fit tot ms \<longleftrightarrow> 0 \<le> tot \<and> is_i64 tot \<and> is_i64 (sum_list (weights ms)) \<and>
     (\<forall>m \<in> set ms. is_i64 (tot * max 0 (Weight m)))"

lemma positive_weight_sum_eq:
  assumes "is_i64 (sum_list (weights ms))"
  shows "positive_weight_sum ms = sum_list (weights ms)"
proof -
  have "foldl (\<lambda>s m. if Weight m > 0 then wrap64 (s + Weight m) else s) (wrap64 s) ms
      = wrap64 (s + sum_list (weights ms))" for s
    by (induction ms arbitrary: s) (auto simp: weights_def add.assoc max_def)
  from this [of 0] show ?thesis using assms by (simp add: positive_weight_sum_def)
qed

lemma weight_i64:
  assumes "weights_fit tot ms" "m \<in> set ms"
  shows "max 0 (Weight m) \<le> sum_list (weights ms)"
proof -
  have "max 0 (Weight m) \<in> set (weights ms)" using assms(2) by (auto simp: weights_def)
  moreover have "\<forall>w \<in> set (weights ms). 0 \<le> w" by (auto simp: weights_def)
  ultimately show ?thesis by (intro weight_le_sum) auto
qed

lemma floor_amount_eq:
  assumes "weights_fit tot ms" "m \<in> set ms" "0 < sum_list (weights ms)"
  shows "floor_amount tot (sum_list (weights ms)) m = tot * max 0 (Weight m) div sum_list (weights ms)"
    and "Weight m > 0 \<Longrightarrow> the (go_rem (weight_product tot m) (sum_list (weights ms))) =
      tot * max 0 (Weight m) mod sum_list (weights ms)"
proof -
  let ?W = "sum_list (weights ms)" let ?p = "tot * max 0 (Weight m)"
  have p: "0 \<le> ?p" "is_i64 ?p" using assms by (auto simp: weights_fit_def)
  have "0 \<le> ?p div ?W" "?p div ?W \<le> ?p"
    using p(1) assms(3) by (simp_all add: pos_imp_zdiv_nonneg_iff int_div_le_self)
  then have d: "is_i64 (?p div ?W)" using p(2) is_i64_between [OF is_i64_0 p(2)] by blast
  show "floor_amount tot ?W m = ?p div ?W"
    using p d assms(3) by (auto simp: floor_amount_def weight_product_def go_div_def sdiv_pos max_def)
  show "the (go_rem (weight_product tot m) ?W) = ?p mod ?W" if "Weight m > 0"
    using p that assms(3) by (simp add: weight_product_def go_rem_def smod_pos max_def)
qed

lemma bump_eq:
  assumes "distinct (map fst fs)" "\<forall>f \<in> set fs. fst f < length out"
    "\<forall>f \<in> set (take left fs). is_i64 (sh_Amount (out ! fst f) + 1)" "int left = leftover"
  shows "bump out fs leftover = map (\<lambda>i. (out ! i)\<lparr>sh_Amount := sh_Amount (out ! i) +
    (if i \<in> fst ` set (take left fs) then 1 else 0)\<rparr>) [0..<length out]"
proof -
  have A: "bump out fs leftover = foldl (\<lambda>o' f. o'[fst f := (o' ! fst f)\<lparr>sh_Amount := sh_Amount (o' ! fst f) + 1\<rparr>]) out (take left fs)"
    if "\<forall>f \<in> set (take left fs). fst f < length out \<and> is_i64 (sh_Amount (out ! fst f) + 1)" "distinct (map fst fs)" "int left = leftover"
    for out left leftover
    using that
  proof (induction fs arbitrary: out left leftover)
    case (Cons f fs)
    obtain i r where f: "f = (i, r)" by (cases f)
    show ?case
    proof (cases left)
      case 0
      then show ?thesis using Cons.prems by (simp add: f)
    next
      case (Suc left')
      then show ?thesis
        using Cons.prems
        by (simp add: f) (rule Cons.IH, auto simp: nth_list_update dest: in_set_takeD)
    qed
  qed simp
  have B: "foldl (\<lambda>o' f. o'[fst f := (o' ! fst f)\<lparr>sh_Amount := sh_Amount (o' ! fst f) + 1\<rparr>]) out gs =
      map (\<lambda>i. (out ! i)\<lparr>sh_Amount := sh_Amount (out ! i) + (if i \<in> fst ` set gs then 1 else 0)\<rparr>) [0..<length out]"
    if "distinct (map fst gs)" "\<forall>g \<in> set gs. fst g < length out" for out :: "Share list" and gs :: "(nat \<times> int) list"
    using that
  proof (induction gs arbitrary: out)
    case Nil
    then show ?case by (simp add: map_nth)
  next
    case (Cons g gs)
    let ?out = "out[fst g := (out ! fst g)\<lparr>sh_Amount := sh_Amount (out ! fst g) + 1\<rparr>]"
    have "foldl (\<lambda>o' f. o'[fst f := (o' ! fst f)\<lparr>sh_Amount := sh_Amount (o' ! fst f) + 1\<rparr>]) ?out gs =
      map (\<lambda>i. (?out ! i)\<lparr>sh_Amount := sh_Amount (?out ! i) + (if i \<in> fst ` set gs then 1 else 0)\<rparr>) [0..<length ?out]"
      using Cons.prems by (intro Cons.IH) auto
    then show ?case using Cons.prems by (auto intro!: map_cong simp: nth_list_update)
  qed
  have d: "distinct (map fst (take left fs))" by (metis assms(1) distinct_take take_map)
  have l: "\<forall>g \<in> set (take left fs). fst g < length out"
    using assms(2) by (meson in_set_takeD)
  have f: "\<forall>f \<in> set (take left fs). fst f < length out \<and> is_i64 (sh_Amount (out ! fst f) + 1)"
    using assms(3) l by auto
  show ?thesis unfolding A [OF f assms(1,4)] by (rule B [OF d l])
qed

lemma foldl_wrap64_sum: "foldl (\<lambda>s x. wrap64 (s + f x)) (wrap64 a) xs = wrap64 (a + (\<Sum>x\<leftarrow>xs. f x))"
  by (induction xs arbitrary: a) (simp_all add: add.assoc)

text \<open>The fractions in the order of the awards.\<close>

definition frac_order :: "(nat \<Rightarrow> int) \<Rightarrow> nat list \<Rightarrow> (nat \<times> int) list" where
  "frac_order r is = sort_key (\<lambda>(i, r). (- r, i)) (map (\<lambda>i. (i, r i)) is)"

lemma frac_order_facts:
  "distinct is \<Longrightarrow> distinct (map fst (frac_order r is))"
  "set (frac_order r is) = (\<lambda>i. (i, r i)) ` set is" "length (frac_order r is) = length is"
proof -
  assume "distinct is"
  have "mset (map fst (frac_order r is)) = mset is"
    by (simp only: frac_order_def mset_map mset_sort multiset.map_comp comp_def fst_conv multiset.map_ident)
  then show "distinct (map fst (frac_order r is))" using \<open>distinct is\<close> by (metis distinct_count_atmost_1 mset_eq_setD)
qed (simp_all add: frac_order_def)

lemma frac_order_dominates:
  assumes "(i, ri) \<in> set (take n (frac_order r is))" "j \<in> set is" "j \<notin> fst ` set (take n (frac_order r is))"
  shows "r j < r i \<or> (r j = r i \<and> i < j)"
proof -
  have ri: "ri = r i" using in_set_takeD [OF assms(1)] by (auto simp: frac_order_facts(2))
  have "sorted_wrt (\<lambda>x y. (\<lambda>(i, r). (- r, i)) x \<le> (\<lambda>(i, r). (- r, i)) y) (frac_order r is)"
    using sorted_sort_key [of "\<lambda>(i, r). (- r, i)" "map (\<lambda>i. (i, r i)) is"]
    by (simp only: frac_order_def sorted_map)
  moreover have "(j, r j) \<in> set (frac_order r is)" using assms(2) by (auto simp: frac_order_facts(2))
  moreover have "(j, r j) \<notin> set (take n (frac_order r is))" using assms(3) by force
  ultimately have "(\<lambda>(i, r). (- r, i)) (i, ri) \<le> (\<lambda>(i, r). (- r, i)) (j, r j)"
    using sorted_prefix_before [OF _ assms(1)] by blast
  moreover have "i \<noteq> j" using assms(1,3) by force
  ultimately show ?thesis by (auto simp: ri less_eq_prod_def)
qed

lemma fracs_of_eq:
  assumes "weights_fit tot ms" "0 < sum_list (weights ms)"
  shows "sort_key (\<lambda>(i, r). (- r, i)) (fracs_of tot (sum_list (weights ms)) ms) =
    frac_order (\<lambda>i. tot * weights ms ! i mod sum_list (weights ms)) (filter (\<lambda>i. 0 < weights ms ! i) [0..<length ms])"
proof -
  let ?W = "sum_list (weights ms)"
  have z: "zip [0..<length ms] ms = map (\<lambda>i. (i, ms ! i)) [0..<length ms]"
    by (rule nth_equalityI) simp_all
  have f: "filter (\<lambda>(i, m). Weight m > 0) (zip [0..<length ms] ms)
      = map (\<lambda>i. (i, ms ! i)) (filter (\<lambda>i. 0 < weights ms ! i) [0..<length ms])"
    unfolding z filter_map comp_def by (auto simp: weights_def intro!: map_cong filter_cong)
  have "fracs_of tot ?W ms = map (\<lambda>i. (i, tot * weights ms ! i mod ?W)) (filter (\<lambda>i. 0 < weights ms ! i) [0..<length ms])"
    unfolding fracs_of_def f using floor_amount_eq(2) [OF assms(1) _ assms(2)]
    by (auto simp: weights_def comp_def)
  then show ?thesis by (simp only: frac_order_def)
qed

lemma frac_awards:
  assumes "distinct is" "set is \<subseteq> {..<n}" "\<forall>i < n. 0 \<le> r i \<and> (i \<notin> set is \<longrightarrow> r i = 0)"
    and left: "left \<le> card {i. i < n \<and> 0 < r i}"
  defines "U \<equiv> fst ` set (take left (frac_order r is))"
  shows "U \<subseteq> {..<n}" "card U = left" "i \<in> U \<Longrightarrow> 0 < r i"
    "i \<in> U \<Longrightarrow> j < n \<Longrightarrow> j \<notin> U \<Longrightarrow> r j < r i \<or> (r j = r i \<and> i < j)"
proof -
  let ?o = "frac_order r is" and ?P = "{i. i < n \<and> 0 < r i}"
  have sub: "?P \<subseteq> set is" using assms(3) by force
  then have "card ?P \<le> length is" by (metis card_length card_mono finite_set le_trans)
  then have len: "left \<le> length ?o" using left by (simp add: frac_order_facts)
  have "U \<subseteq> fst ` set ?o" unfolding U_def by (intro image_mono set_take_subset)
  then show U: "U \<subseteq> {..<n}" using assms(2) by (auto simp: frac_order_facts(2) image_image)
  have "distinct (map fst (take left ?o))"
    using frac_order_facts(1) [OF assms(1)] by (metis distinct_take take_map)
  then have "card (set (map fst (take left ?o))) = left" using len by (simp add: distinct_card del: set_map)
  then show cU: "card U = left" by (simp add: U_def)
  have dom: "r j < r i \<or> (r j = r i \<and> i < j)" if "i \<in> U" "j \<in> set is" "j \<notin> U" for i j
    using that frac_order_dominates by (fastforce simp: U_def)
  show pos: "0 < r i" if "i \<in> U" for i
  proof (rule ccontr)
    assume "\<not> 0 < r i"
    then have "?P \<subseteq> U - {i}" using dom [OF that] sub assms(3) U that by force
    moreover have "finite U" using U finite_subset by blast
    ultimately have "card ?P < card U" using that by (metis card_Diff1_less card_mono finite_Diff le_less_trans)
    then show False using left cU by simp
  qed
  show "i \<in> U \<Longrightarrow> j < n \<Longrightarrow> j \<notin> U \<Longrightarrow> r j < r i \<or> (r j = r i \<and> i < j)"
    using dom pos assms(3) by (cases "j \<in> set is") auto
qed

lemma ByWeights_hamilton:
  assumes fit: "weights_fit tot ms" and W: "0 < sum_list (weights ms)"
  shows "map sh_MemberID (ByWeights tot ms) = map wm_MemberID ms \<and>
    hamilton tot (weights ms) (map sh_Amount (ByWeights tot ms))"
proof -
  let ?ws = "weights ms" let ?W = "sum_list ?ws" let ?n = "length ms"
  define q where "q i = tot * ?ws ! i div ?W" for i
  define r where "r i = tot * ?ws ! i mod ?W" for i
  let ?is = "filter (\<lambda>i. 0 < ?ws ! i) [0..<?n]"
  define out where "out = map (\<lambda>m. \<lparr>sh_MemberID = wm_MemberID m, sh_Amount = floor_amount tot ?W m\<rparr>) ms"
  define left where "left = nat (tot - (\<Sum>w\<leftarrow>?ws. tot * w div ?W))"
  define up where "up i \<longleftrightarrow> i \<in> fst ` set (take left (frac_order r ?is))" for i
  have len: "length ?ws = ?n" and nn: "\<forall>w \<in> set ?ws. 0 \<le> w" by (auto simp: weights_def)
  have tot: "0 \<le> tot" "is_i64 tot" using fit by (auto simp: weights_fit_def)
  have fa: "floor_amount tot ?W (ms ! i) = q i" if "i < ?n" for i
    using floor_amount_eq(1) [OF fit nth_mem [OF that] W] that by (simp add: q_def weights_def)
  have out: "length out = ?n" "i < ?n \<Longrightarrow> out ! i = \<lparr>sh_MemberID = wm_MemberID (ms ! i), sh_Amount = q i\<rparr>" for i
    using fa by (simp_all add: out_def)
  have floor_sum: "(\<Sum>m\<leftarrow>ms. floor_amount tot ?W m) = (\<Sum>w\<leftarrow>?ws. tot * w div ?W)"
    using floor_amount_eq(1) [OF fit _ W] by (auto simp: weights_def comp_def intro!: arg_cong [where f = sum_list])
  have q: "0 \<le> q i" "0 < r i \<Longrightarrow> q i + 1 \<le> tot" if "i < ?n" for i
    using quota_le [OF tot(1), of "?ws ! i" ?W] nn weight_le_sum [OF nn, of "?ws ! i"] that len W
    by (auto simp: q_def r_def)
  have left: "0 \<le> tot - (\<Sum>w\<leftarrow>?ws. tot * w div ?W)"
    "int left \<le> int (length (filter (\<lambda>w. 0 < tot * w mod ?W) ?ws))"
    using quota_left [OF nn W tot(1)] by (simp_all add: left_def)
  have intleft: "int left = tot - (\<Sum>w\<leftarrow>?ws. tot * w div ?W)" using left(1) by (simp add: left_def)
  have r0: "\<forall>i < ?n. 0 \<le> r i \<and> (i \<notin> set ?is \<longrightarrow> r i = 0)"
  proof (intro allI impI)
    fix i assume i: "i < ?n"
    then have "0 \<le> ?ws ! i" using nn len by simp
    then have "i \<notin> set ?is \<Longrightarrow> ?ws ! i = 0" using i by auto
    then show "0 \<le> r i \<and> (i \<notin> set ?is \<longrightarrow> r i = 0)"
      using W unfolding r_def by (cases "i \<in> set ?is") simp_all
  qed
  have "length (filter (\<lambda>w. 0 < tot * w mod ?W) ?ws) = card {i. i < ?n \<and> 0 < r i}"
    by (simp add: length_filter_conv_card r_def len)
  then have lc: "left \<le> card {i. i < ?n \<and> 0 < r i}" using left(2) by simp
  have "distinct ?is" "set ?is \<subseteq> {..<?n}" by auto
  note aw = frac_awards [OF this r0 lc, folded up_def]
  have Ucount: "(\<Sum>i\<leftarrow>[0..<?n]. if up i then 1 else 0 :: int) = int left"
  proof -
    let ?U = "fst ` set (take left (frac_order r ?is))"
    have "(\<Sum>i\<leftarrow>[0..<?n]. if up i then 1 else 0 :: int) = (\<Sum>i \<in> {..<?n}. if i \<in> ?U then 1 else 0)"
      by (simp add: up_def interv_sum_list_conv_sum_set_nat atLeast0LessThan)
    also have "\<dots> = int (card ?U)" using aw(1) by (simp add: sum.If_cases Int_absorb1)
    finally show ?thesis by (simp only: aw(2))
  qed
  have assigned: "foldl (\<lambda>s m. wrap64 (s + floor_amount tot ?W m)) 0 ms = (\<Sum>w\<leftarrow>?ws. tot * w div ?W)"
  proof -
    have "0 \<le> (\<Sum>w\<leftarrow>?ws. tot * w div ?W)"
      using nn W tot(1) by (intro sum_list_nonneg) (auto simp: pos_imp_zdiv_nonneg_iff)
    then have "is_i64 (\<Sum>w\<leftarrow>?ws. tot * w div ?W)" using left(1) tot(2) by (simp add: is_i64_def)
    then show ?thesis using foldl_wrap64_sum [of "floor_amount tot ?W" 0 ms] by (simp add: floor_sum)
  qed
  have Q0: "0 \<le> (\<Sum>w\<leftarrow>?ws. tot * w div ?W)"
    using nn W tot(1) by (intro sum_list_nonneg) (auto simp: pos_imp_zdiv_nonneg_iff)
  have left64: "wrap64 (tot - (\<Sum>w\<leftarrow>?ws. tot * w div ?W)) = int left"
  proof -
    have "int left \<le> tot" unfolding intleft using Q0 by simp
    then have "is_i64 (int left)" using tot by (simp add: is_i64_def)
    then show ?thesis by (simp add: intleft)
  qed
  have d: "distinct (map fst (frac_order r ?is))" by (rule frac_order_facts) simp
  have l: "\<forall>f \<in> set (frac_order r ?is). fst f < length out" by (auto simp: frac_order_facts(2) out(1))
  have f: "\<forall>f \<in> set (take left (frac_order r ?is)). is_i64 (sh_Amount (out ! fst f) + 1)"
  proof
    fix f assume "f \<in> set (take left (frac_order r ?is))"
    then have f: "up (fst f)" by (simp add: up_def)
    then have "fst f < ?n" "0 < r (fst f)" using aw(1,3) by (auto simp: up_def)
    then have "0 \<le> q (fst f)" "q (fst f) + 1 \<le> tot" "fst f < ?n" using q by auto
    then show "is_i64 (sh_Amount (out ! fst f) + 1)" using tot(2) by (simp add: out(2) is_i64_def)
  qed
  have "ByWeights tot ms = bump out (frac_order r ?is) (int left)"
    using W tot(1) positive_weight_sum_eq [of ms] fit
    by (simp add: ByWeights_def Let_def weights_fit_def assigned left64 out_def fracs_of_eq [OF fit W, folded r_def])
  also have "\<dots> = map (\<lambda>i. (out ! i)\<lparr>sh_Amount := sh_Amount (out ! i) + (if up i then 1 else 0)\<rparr>) [0..<?n]"
    using bump_eq [OF d l f refl] by (simp only: out(1) up_def)
  finally have result: "ByWeights tot ms = map (\<lambda>i. \<lparr>sh_MemberID = wm_MemberID (ms ! i),
      sh_Amount = q i + (if up i then 1 else 0)\<rparr>) [0..<?n]"
    by (simp add: out(2) cong: map_cong)
  have qsum: "(\<Sum>i\<leftarrow>[0..<?n]. q i) = (\<Sum>w\<leftarrow>?ws. tot * w div ?W)"
    using sum_list_nth_map [of "\<lambda>w. tot * w div ?W" ?ws] by (simp add: q_def len)
  have ids: "map sh_MemberID (ByWeights tot ms) = map wm_MemberID ms"
    unfolding result by (rule nth_equalityI) simp_all
  have "sum_list (map sh_Amount (ByWeights tot ms)) = tot"
    unfolding result using Ucount intleft qsum by (simp add: comp_def sum_list_addf)
  moreover have "\<forall>i < ?n. map sh_Amount (ByWeights tot ms) ! i = sgn tot * (q i + (if up i then 1 else 0)) \<and> (up i \<longrightarrow> 0 < r i)"
  proof (intro allI impI)
    fix i assume i: "i < ?n"
    have up: "up i \<Longrightarrow> 0 < r i" using aw(3) by (simp add: up_def)
    have "map sh_Amount (ByWeights tot ms) ! i = q i + (if up i then 1 else 0)"
      unfolding result using i by simp
    also have "\<dots> = sgn tot * (q i + (if up i then 1 else 0))"
    proof (cases "tot = 0")
      case True
      then have "q i = 0" "r i = 0" by (simp_all add: q_def r_def)
      then show ?thesis using up by auto
    qed (use tot(1) in simp)
    finally show "map sh_Amount (ByWeights tot ms) ! i = sgn tot * (q i + (if up i then 1 else 0)) \<and> (up i \<longrightarrow> 0 < r i)"
      using up by blast
  qed
  ultimately have "hamilton tot ?ws (map sh_Amount (ByWeights tot ms))"
    unfolding hamilton_def Let_def using aw(4) tot(1) len
    by (intro conjI exI [where x = up]) (simp_all add: result q_def r_def up_def)
  with ids show ?thesis by blast
qed

text \<open>as long as no product and no sum of the positive weights leaves int64, \<open>ByWeights\<close>
  keeps every member in order and gives exactly the amounts of \<open>money.Allocate\<close> on the weights
  with the negative ones read as zero, so the amounts add up to the total.\<close>

theorem ByWeights_is_Allocate:
  assumes "weights_fit tot ms" "0 < sum_list (weights ms)"
  shows "map sh_MemberID (ByWeights tot ms) = map wm_MemberID ms \<and>
    Allocate tot (weights ms) = Some (Inr (map sh_Amount (ByWeights tot ms)))"
proof -
  note h = ByWeights_hamilton [OF assms]
  have nn: "\<forall>w \<in> set (weights ms). 0 \<le> w" by (auto simp: weights_def)
  have i64: "is_i64 (sum_list (weights ms))" "is_i64 tot" using assms(1) by (simp_all add: weights_fit_def)
  obtain shares where s: "Allocate tot (weights ms) = Some (Inr shares)" "hamilton tot (weights ms) shares"
    using Allocate_hamilton [OF nn assms(2) i64] by blast
  have "shares = map sh_Amount (ByWeights tot ms)"
  proof (cases "tot = 0")
    case False
    then show ?thesis using hamilton_unique s(2) h by blast
  next
    case True
    have "shares ! i = 0 \<and> map sh_Amount (ByWeights tot ms) ! i = 0" if "i < length (weights ms)" for i
      using hamilton_facts(5) [OF s(2) nn assms(2) that]
        hamilton_facts(5) [OF conjunct2 [OF h] nn assms(2) that] True by simp
    moreover have "length shares = length (weights ms)" "length (map sh_Amount (ByWeights tot ms)) = length (weights ms)"
      using hamilton_facts(1) [OF s(2) nn assms(2)] hamilton_facts(1) [OF conjunct2 [OF h] nn assms(2)] by auto
    ultimately show ?thesis by (intro nth_equalityI) auto
  qed
  with s(1) h show ?thesis by simp
qed

lemma ByWeights_is_Allocate_witness:
  "Allocate 100 [2, 0, 1] = Some (Inr (map sh_Amount (ByWeights 100
     [\<lparr>wm_MemberID = ''a'', Weight = 2\<rparr>, \<lparr>wm_MemberID = ''b'', Weight = - 3\<rparr>, \<lparr>wm_MemberID = ''c'', Weight = 1\<rparr>])))"
  using ByWeights_is_Allocate [of 100
    "[\<lparr>wm_MemberID = ''a'', Weight = 2\<rparr>, \<lparr>wm_MemberID = ''b'', Weight = - 3\<rparr>, \<lparr>wm_MemberID = ''c'', Weight = 1\<rparr>]"]
  by (simp add: weights_fit_def weights_def is_i64_def)

text \<open>Outside that range the products wrap and the amounts no longer add up to the total.\<close>

lemma ByWeights_overflow:
  "map sh_Amount (ByWeights 10000000000
     [\<lparr>wm_MemberID = ''a'', Weight = 1000000000\<rparr>, \<lparr>wm_MemberID = ''b'', Weight = 1000000000\<rparr>])
   = [- 4223372035, - 4223372035]"
  by code_simp

subsection \<open>Percentages and the split editor\<close>

datatype split_error =
    NoLines | NonPositivePercentage | PercentagesTotal
  | ErrUnbalanced | ErrNonPositive | ErrTooSmall | JoinUnbalanced money_error

definition PercentScale :: int where "PercentScale = 10000"

text \<open>The member ids \<open>line-i\<close> of the code are not looked at; they are left empty here.\<close>

definition ByPercents :: "int \<Rightarrow> int list \<Rightarrow> split_error + int list" where
  "ByPercents tot basisPoints =
     (if basisPoints = [] then Inl NoLines
      else
        bindE (foldE (\<lambda>s bp. if bp \<le> 0 then Inl NonPositivePercentage else Inr (wrap64 (s + bp))) 0 basisPoints)
          (\<lambda>s. if s \<noteq> PercentScale then Inl PercentagesTotal
               else Inr (map sh_Amount (ByWeights tot (map (\<lambda>bp. \<lparr>wm_MemberID = [], Weight = bp\<rparr>) basisPoints)))))"

definition Balanced :: "int \<Rightarrow> int list \<Rightarrow> bool" where
  "Balanced target vs = (case SumMinor vs of Inl _ \<Rightarrow> False | Inr s \<Rightarrow> s = target)"

definition Reconcile :: "int \<Rightarrow> int list \<Rightarrow> bool \<Rightarrow> (split_error + int list) option" where
  "Reconcile tot vs percent =
     (if tot < 0 then Some (Inl ErrUnbalanced)
      else if \<exists>v \<in> set vs. v \<le> 0 then Some (Inl ErrNonPositive)
      else if percent then
        (if \<not> Balanced PercentScale vs then Some (Inl ErrUnbalanced)
         else
           (case Allocate tot vs of
              None \<Rightarrow> None
            | Some (Inl e) \<Rightarrow> Some (Inl (JoinUnbalanced e))
            | Some (Inr amounts) \<Rightarrow>
                if 0 \<in> set amounts then Some (Inl ErrTooSmall) else Some (Inr amounts)))
      else if \<not> Balanced tot vs then Some (Inl ErrUnbalanced)
      else Some (Inr vs))"

text \<open>The sum of the percentages is not checked for overflow, so basis points far above 100% that
  wrap to 10000 are accepted.\<close>

lemma ByPercents_overshoot_accepted:
  "ByPercents 100 [4611686018427387904, 4611686018427387904, 4611686018427387904,
     4611686018427387904, 10000] = Inr [0, 0, 0, 0, 100]"
  by code_simp

lemma Balanced_iff:
  "\<forall>v \<in> set vs. 0 \<le> v \<and> is_i64 v \<Longrightarrow> is_i64 target \<Longrightarrow> Balanced target vs \<longleftrightarrow> sum_list vs = target"
  by (auto simp: Balanced_def SumMinor_nonneg)

text \<open>\<open>Reconcile\<close> returns on every int64 input without a panic. What it accepts has one
  positive amount per line and adds up exactly to the total; in amount mode it accepts exactly
  the positive lines that add up to the total.\<close>

theorem Reconcile_exact:
  assumes "\<forall>v \<in> set vs. is_i64 v" "is_i64 tot"
  shows "\<exists>res. Reconcile tot vs percent = Some res \<and>
    (\<forall>amounts. res = Inr amounts \<longrightarrow>
       length amounts = length vs \<and> sum_list amounts = tot \<and> (\<forall>a \<in> set amounts. 0 < a)) \<and>
    (\<not> percent \<longrightarrow> ((\<exists>a. res = Inr a) \<longleftrightarrow> 0 \<le> tot \<and> (\<forall>v \<in> set vs. 0 < v) \<and> sum_list vs = tot))"
proof (cases "0 \<le> tot \<and> (\<forall>v \<in> set vs. 0 < v)")
  case False
  then show ?thesis by (auto simp: Reconcile_def not_le not_less)
next
  case True
  then have guards: "\<not> tot < 0" "\<not> (\<exists>v \<in> set vs. v \<le> 0)" by auto
  have bal: "Balanced t vs \<longleftrightarrow> sum_list vs = t" if "is_i64 t" for t
    using True assms(1) that by (intro Balanced_iff) auto
  show ?thesis
  proof (cases percent)
    case False
    then show ?thesis using guards bal [OF assms(2)] True by (auto simp: Reconcile_def)
  next
    case percent: True
    obtain res where res: "Allocate tot vs = Some res" using money.alloc_total [OF assms] by blast
    have pos: "0 < a" if "res = Inr amounts" "a \<in> set amounts" "0 \<notin> set amounts" for amounts a
    proof -
      note in_res = that
      have sh: "length amounts = length vs"
        "\<forall>i < length vs. 0 \<le> sgn tot * amounts ! i \<and> \<bar>amounts ! i\<bar> \<le> \<bar>tot\<bar>"
        using money.alloc_shares [OF assms] res that(1) by auto
      obtain i where "i < length vs" "a = amounts ! i" using in_res(2) sh(1) by (auto simp: in_set_conv_nth)
      then have "0 \<le> sgn tot * a" "\<bar>a\<bar> \<le> \<bar>tot\<bar>" "a \<noteq> 0" using sh(2) in_res by auto
      then show ?thesis using True by (auto simp: sgn_if split: if_splits)
    qed
    have exact: "length amounts = length vs \<and> sum_list amounts = tot" if "res = Inr amounts" for amounts
      using money.alloc_shares [OF assms] res that by simp
    show ?thesis
      using percent guards res pos exact by (cases res) (auto simp: Reconcile_def)
  qed
qed

lemma Reconcile_exact_witness:
  "\<exists>amounts. Reconcile 7 [3, 4] False = Some (Inr amounts)"
  using Reconcile_exact [of "[3, 4]" 7 False] by (auto simp: is_i64_def)

subsection \<open>Draft rows\<close>

record Line =
  CategoryID :: string
  Value :: string

record Draft =
  Complete :: int
  Blank :: int
  Incomplete :: int

definition classify_line :: "Draft \<Rightarrow> Line \<Rightarrow> Draft" where
  "classify_line d l =
     (let hasCat = (trim_space (CategoryID l) \<noteq> []); hasVal = (trim_space (Value l) \<noteq> []) in
      if hasCat \<and> hasVal then d\<lparr>Complete := Complete d + 1\<rparr>
      else if \<not> hasCat \<and> \<not> hasVal then d\<lparr>Blank := Blank d + 1\<rparr>
      else d\<lparr>Incomplete := Incomplete d + 1\<rparr>)"

definition Classify :: "Line list \<Rightarrow> Draft" where
  "Classify lines = foldl classify_line \<lparr>Complete = 0, Blank = 0, Incomplete = 0\<rparr> lines"

definition MinSplitLines :: int where "MinSplitLines = 2"

definition Saveable :: "Draft \<Rightarrow> bool \<Rightarrow> bool \<Rightarrow> bool" where
  "Saveable d parseOK balanced \<longleftrightarrow>
     parseOK \<and> balanced \<and> Incomplete d = 0 \<and> Complete d \<ge> MinSplitLines"

lemma Classify_counts:
  "Complete (Classify ls) + Blank (Classify ls) + Incomplete (Classify ls) = int (length ls)"
proof -
  have "Complete d' + Blank d' + Incomplete d' = Complete d + Blank d + Incomplete d + int (length ls)"
    if "d' = foldl classify_line d ls" for d d'
    using that by (induction ls arbitrary: d) (auto simp: classify_line_def Let_def)
  from this [OF refl] show ?thesis by (simp add: Classify_def)
qed

end
