(* ===== verification/Float64.thy ===== *)
theory Float64
  imports Complex_Main "HOL-Library.Log_Nat"
begin

text \<open>
  IEEE 754 binary64 as Go's \<open>float64\<close> uses it: a finite value is the rational it denotes (the
  sign of a zero is not kept: no modelled operation looks at it), and every operation rounds its
  exact result to the nearest representable value, ties to even, with subnormals and overflow to
  the infinities. The definitions compute.
\<close>

datatype f64 = NaN | Inf bool | Fin rat

text \<open>\<open>floor (log2 x)\<close> of a positive rational, from the bit lengths of its parts.\<close>

definition bit_length :: "int \<Rightarrow> int" where
  "bit_length n = int (floorlog 2 (nat n))"

definition pow2 :: "int \<Rightarrow> rat" where
  "pow2 e = (if 0 \<le> e then 2 ^ nat e else 1 / 2 ^ nat (- e))"

definition ilog2 :: "rat \<Rightarrow> int" where
  "ilog2 x =
     (let (n, d) = quotient_of x; e = bit_length n - bit_length d
      in if pow2 e \<le> x then e else e - 1)"

definition round_half_even :: "rat \<Rightarrow> int" where
  "round_half_even x =
     (let f = \<lfloor>x\<rfloor>; d = x - of_int f
      in if d < 1/2 then f else if d > 1/2 then f + 1 else if even f then f else f + 1)"

definition round_f64 :: "rat \<Rightarrow> f64" where
  "round_f64 x =
     (if x = 0 then Fin 0
      else
        let e = max (ilog2 \<bar>x\<bar>) (- 1022); ulp = pow2 (e - 52);
            v = of_int (round_half_even (\<bar>x\<bar> / ulp)) * ulp
        in if v \<ge> pow2 1024 then Inf (x < 0) else Fin (if x < 0 then - v else v))"

definition f_of_int :: "int \<Rightarrow> f64" where
  "f_of_int n = round_f64 (of_int n)"

fun f_neg :: "f64 \<Rightarrow> bool" where
  "f_neg NaN = False" | "f_neg (Inf s) = s" | "f_neg (Fin x) = (x < 0)"

fun f_mul :: "f64 \<Rightarrow> f64 \<Rightarrow> f64" where
  "f_mul (Fin x) (Fin y) = round_f64 (x * y)"
| "f_mul NaN b = NaN"
| "f_mul a NaN = NaN"
| "f_mul (Inf s) b = (if b = Fin 0 then NaN else Inf (s \<noteq> f_neg b))"
| "f_mul a (Inf s) = (if a = Fin 0 then NaN else Inf (s \<noteq> f_neg a))"

text \<open>Division, for a divisor that is not zero or is (the sign of the zero is read as positive).\<close>

fun f_div :: "f64 \<Rightarrow> f64 \<Rightarrow> f64" where
  "f_div (Fin x) (Fin y) =
     (if y = 0 then (if x = 0 then NaN else Inf (x < 0)) else round_f64 (x / y))"
| "f_div NaN b = NaN"
| "f_div a NaN = NaN"
| "f_div (Inf s) (Inf t) = NaN"
| "f_div (Inf s) (Fin y) = Inf (s \<noteq> (y < 0))"
| "f_div (Fin x) (Inf t) = Fin 0"

text \<open>\<open>math.Round\<close>: to the nearest integer, halves away from zero; integers of that size are exact.\<close>

fun f_round :: "f64 \<Rightarrow> f64" where
  "f_round (Fin x) = Fin (of_int (if 0 \<le> x then \<lfloor>x + 1/2\<rfloor> else \<lceil>x - 1/2\<rceil>))"
| "f_round a = a"

fun f_leq :: "f64 \<Rightarrow> f64 \<Rightarrow> bool" where
  "f_leq NaN b = False"
| "f_leq a NaN = False"
| "f_leq (Fin x) (Fin y) = (x \<le> y)"
| "f_leq (Inf s) (Inf t) = (s \<or> \<not> t)"
| "f_leq (Inf s) (Fin y) = s"
| "f_leq (Fin x) (Inf t) = (\<not> t)"

fun f_abs :: "f64 \<Rightarrow> f64" where
  "f_abs NaN = NaN" | "f_abs (Inf s) = Inf False" | "f_abs (Fin x) = Fin \<bar>x\<bar>"

definition f_less :: "f64 \<Rightarrow> f64 \<Rightarrow> bool" where
  "f_less a b \<longleftrightarrow> f_leq a b \<and> a \<noteq> b"

end
