(* ===== verification/Domain.thy ===== *)
theory Domain
  imports Money Float64
begin

text \<open>
  Package \<open>internal/domain\<close>: the account and transaction entities with all their fields, the
  string-typed enumerations the core branches on, category splits and transaction owners. A
  \<open>time.Time\<close> is its instant in nanoseconds since the Unix epoch; the zero \<open>time.Time{}\<close> is
  1 January of year 1. Shows the split contract and that ownership normalization is canonical.
\<close>

type_synonym time = int

definition zero_time :: time where "zero_time = - 62135596800000000000"

text \<open>\<open>any\<close> values of a \<open>Custom\<close> map, as the JSON decoder produces them.\<close>

datatype any_value =
    AnyNil | AnyBool bool | AnyNumber f64 | AnyString string
  | AnyList "any_value list" | AnyMap "(string \<times> any_value) list"

subsection \<open>Enumerations\<close>

type_synonym AccountClass = string
type_synonym AccountType = string
type_synonym Scope = string
type_synonym LiabilitySign = string
type_synonym TxnSource = string

abbreviation ClassAsset :: AccountClass where "ClassAsset \<equiv> ''asset''"
abbreviation ClassLiability :: AccountClass where "ClassLiability \<equiv> ''liability''"
abbreviation TypeChecking :: AccountType where "TypeChecking \<equiv> ''checking''"
abbreviation TypeDebit :: AccountType where "TypeDebit \<equiv> ''debit''"
abbreviation TypeSavings :: AccountType where "TypeSavings \<equiv> ''savings''"
abbreviation TypeCash :: AccountType where "TypeCash \<equiv> ''cash''"
abbreviation TypeCreditCard :: AccountType where "TypeCreditCard \<equiv> ''credit_card''"
abbreviation TypeLineOfCredit :: AccountType where "TypeLineOfCredit \<equiv> ''line_of_credit''"
abbreviation TypeLoan :: AccountType where "TypeLoan \<equiv> ''loan''"
abbreviation TypePersonalLoan :: AccountType where "TypePersonalLoan \<equiv> ''personal_loan''"
abbreviation TypeMortgage :: AccountType where "TypeMortgage \<equiv> ''mortgage''"
abbreviation TypeUtilities :: AccountType where "TypeUtilities \<equiv> ''utilities''"
abbreviation TypeInvestment :: AccountType where "TypeInvestment \<equiv> ''investment''"
abbreviation TypeRetirement :: AccountType where "TypeRetirement \<equiv> ''retirement''"
abbreviation TypeCrypto :: AccountType where "TypeCrypto \<equiv> ''crypto''"
abbreviation TypeProperty :: AccountType where "TypeProperty \<equiv> ''property''"
abbreviation TypeVehicle :: AccountType where "TypeVehicle \<equiv> ''vehicle''"
abbreviation TypeOther :: AccountType where "TypeOther \<equiv> ''other''"
abbreviation TxnSourceImported :: TxnSource where "TxnSourceImported \<equiv> ''imported''"
abbreviation TxnSourceScanned :: TxnSource where "TxnSourceScanned \<equiv> ''scanned''"
abbreviation GroupOwnerID :: string where "GroupOwnerID \<equiv> ''group''"
abbreviation ScopeShared :: Scope where "ScopeShared \<equiv> ''shared''"
abbreviation LiabilityPositiveOwed :: LiabilitySign where "LiabilityPositiveOwed \<equiv> ''positive_owed''"
abbreviation LiabilityNegativeOwed :: LiabilitySign where "LiabilityNegativeOwed \<equiv> ''negative_owed''"

definition AllAccountTypes :: "AccountType list" where
  "AllAccountTypes =
    [TypeChecking, TypeDebit, TypeSavings, TypeCash, TypeCreditCard, TypeLineOfCredit, TypeLoan,
     TypePersonalLoan, TypeMortgage, TypeUtilities, TypeInvestment, TypeRetirement, TypeCrypto,
     TypeProperty, TypeVehicle, TypeOther]"

definition AccountClass_Valid :: "AccountClass \<Rightarrow> bool" where
  "AccountClass_Valid c \<longleftrightarrow> c \<in> {ClassAsset, ClassLiability}"

definition AccountType_Valid :: "AccountType \<Rightarrow> bool" where
  "AccountType_Valid t \<longleftrightarrow> t \<in> set AllAccountTypes"

definition AccountType_Class :: "AccountType \<Rightarrow> AccountClass" where
  "AccountType_Class t =
     (if t \<in> {TypeCreditCard, TypeLineOfCredit, TypeLoan, TypePersonalLoan, TypeMortgage, TypeUtilities}
      then ClassLiability else ClassAsset)"

definition AccountType_IsLiability :: "AccountType \<Rightarrow> bool" where
  "AccountType_IsLiability t \<longleftrightarrow> AccountType_Class t = ClassLiability"

definition IsReconcilable :: "AccountType \<Rightarrow> bool" where
  "IsReconcilable t \<longleftrightarrow> t \<notin> {TypeUtilities, TypeProperty, TypeVehicle, TypeCrypto}"

definition AccountType_IsInstallment :: "AccountType \<Rightarrow> bool" where
  "AccountType_IsInstallment t \<longleftrightarrow> t \<in> {TypeLoan, TypePersonalLoan, TypeMortgage}"

definition IsRevolving :: "AccountType \<Rightarrow> bool" where
  "IsRevolving t \<longleftrightarrow> t \<in> {TypeCreditCard, TypeLineOfCredit}"

definition IsInvestment :: "AccountType \<Rightarrow> bool" where
  "IsInvestment t \<longleftrightarrow> t \<in> {TypeInvestment, TypeRetirement, TypeCrypto}"

definition IsSavingsLike :: "AccountType \<Rightarrow> bool" where
  "IsSavingsLike t \<longleftrightarrow> t \<in> {TypeSavings, TypeInvestment, TypeRetirement, TypeCrypto}"

definition IsValuation :: "AccountType \<Rightarrow> bool" where
  "IsValuation t \<longleftrightarrow>
     t \<in> {TypeInvestment, TypeRetirement, TypeCrypto, TypeProperty, TypeVehicle, TypeOther}"

subsection \<open>Accounts\<close>

record Reconciliation =
  rc_At :: time
  rc_StatementDate :: time
  rc_StatementBalance :: Money
  rc_DifferenceMinor :: int
  rc_Forced :: bool

definition Through :: "Reconciliation \<Rightarrow> time" where
  "Through r = (if rc_StatementDate r \<noteq> zero_time then rc_StatementDate r else rc_At r)"

record AccountDocRef =
  doc_ArtifactID :: string
  doc_Label :: string
  doc_AttachedAt :: time
  doc_ExpiresAt :: time

record Account =
  acc_ID :: string
  acc_Name :: string
  acc_OwnerID :: string
  acc_OwnershipShares :: "(string, int) go_map"
  acc_Scope :: Scope
  acc_Class :: AccountClass
  acc_Type :: AccountType
  acc_Institution :: string
  acc_Mask :: string
  acc_InstitutionID :: string
  acc_DocRefs :: "AccountDocRef list"
  acc_BeneficiaryNote :: string
  acc_Currency :: string
  acc_OpeningBalance :: Money
  acc_LiabilitySign :: LiabilitySign
  acc_BalanceAsOf :: time
  acc_VarName :: string
  acc_CreditLimit :: Money
  acc_InterestRateAPR :: "f64 option"
  acc_MinPayment :: Money
  acc_DueDayOfMonth :: int
  acc_TermMonths :: int
  acc_OriginationDate :: time
  acc_StatementDay :: int
  acc_Lender :: string
  acc_IncludeInPayoff :: "bool option"
  acc_APY :: f64
  acc_ExpectedReturnAPR :: f64
  acc_LiquidityScore :: int
  acc_StabilityScore :: int
  acc_LockUntil :: time
  acc_MonthlySavings :: Money
  acc_RevalueDays :: int
  acc_Reconciliations :: "Reconciliation list"
  acc_FreshnessExempt :: bool
  acc_FreshnessSnoozeUntil :: time
  acc_ExcludeFromNetWorth :: bool
  acc_Archived :: bool
  acc_Custom :: "(string, any_value) go_map"
  acc_Notes :: string

text \<open>The zero values \<open>Account{}\<close> and, below, \<open>Transaction{}\<close>.\<close>

definition Account_zero :: Account where
  "Account_zero = \<lparr>acc_ID = [], acc_Name = [], acc_OwnerID = [], acc_OwnershipShares = [], acc_Scope = [],
    acc_Class = [], acc_Type = [], acc_Institution = [], acc_Mask = [], acc_InstitutionID = [],
    acc_DocRefs = [], acc_BeneficiaryNote = [], acc_Currency = [], acc_OpeningBalance = Money_empty,
    acc_LiabilitySign = [], acc_BalanceAsOf = zero_time, acc_VarName = [], acc_CreditLimit = Money_empty,
    acc_InterestRateAPR = None, acc_MinPayment = Money_empty, acc_DueDayOfMonth = 0, acc_TermMonths = 0,
    acc_OriginationDate = zero_time, acc_StatementDay = 0, acc_Lender = [], acc_IncludeInPayoff = None,
    acc_APY = Fin 0, acc_ExpectedReturnAPR = Fin 0, acc_LiquidityScore = 0, acc_StabilityScore = 0,
    acc_LockUntil = zero_time, acc_MonthlySavings = Money_empty, acc_RevalueDays = 0,
    acc_Reconciliations = [], acc_FreshnessExempt = False, acc_FreshnessSnoozeUntil = zero_time,
    acc_ExcludeFromNetWorth = False, acc_Archived = False, acc_Custom = [], acc_Notes = []\<rparr>"

definition Account_IsLiability :: "Account \<Rightarrow> bool" where
  "Account_IsLiability a \<longleftrightarrow> acc_Class a = ClassLiability"

definition CountsInNetWorth :: "Account \<Rightarrow> bool" where
  "CountsInNetWorth a \<longleftrightarrow> \<not> acc_Archived a \<and> \<not> acc_ExcludeFromNetWorth a"

definition WithLiabilitySign :: "Account \<Rightarrow> Account" where
  "WithLiabilitySign a =
     (if Account_IsLiability a \<and> acc_LiabilitySign a = []
      then a\<lparr>acc_LiabilitySign :=
        (if Amount (acc_OpeningBalance a) < 0 then LiabilityNegativeOwed else LiabilityPositiveOwed)\<rparr>
      else a)"

definition InflowSign :: "Account \<Rightarrow> int" where
  "InflowSign a =
     (if Account_IsLiability a \<and> acc_LiabilitySign (WithLiabilitySign a) = LiabilityPositiveOwed
      then - 1 else 1)"

definition Account_IsInstallment :: "Account \<Rightarrow> bool" where
  "Account_IsInstallment a \<longleftrightarrow> Account_IsLiability a \<and> AccountType_IsInstallment (acc_Type a)"

definition ShowsCashCurve :: "Account \<Rightarrow> bool" where
  "ShowsCashCurve a \<longleftrightarrow> acc_Class a \<noteq> ClassLiability \<and> \<not> IsValuation (acc_Type a)"

definition IsShared :: "Account \<Rightarrow> bool" where
  "IsShared a \<longleftrightarrow> acc_Scope a = ScopeShared \<or> acc_OwnerID a = GroupOwnerID \<or> acc_OwnershipShares a \<noteq> []"

subsection \<open>Transactions\<close>

record CategorySplit =
  cs_CategoryID :: string
  cs_Amount :: Money
  cs_MemberID :: string

record AttachmentRef =
  att_ArtifactID :: string
  att_Name :: string
  att_Kind :: string
  att_MIME :: string

record Transaction =
  tx_ID :: string
  tx_AccountID :: string
  tx_Date :: time
  tx_Payee :: string
  tx_Desc :: string
  tx_CategoryID :: string
  tx_Amount :: Money
  tx_Splits :: "CategorySplit list"
  tx_TransferAccountID :: string
  tx_TransferGroupID :: string
  tx_Cleared :: bool
  tx_ClearedAt :: time
  tx_Tags :: "string list"
  tx_MemberIDs :: "string list"
  tx_MemberID :: string
  tx_SourceDocID :: string
  tx_Source :: TxnSource
  tx_Attachments :: "AttachmentRef list"
  tx_Custom :: "(string, any_value) go_map"
  tx_Reviewed :: bool
  tx_ExcludeFromReports :: bool
  tx_BalanceCheckpointAt :: time
  tx_Note :: string
  tx_HoldingID :: string
  tx_GoalID :: string
  tx_BillAccountID :: string
  tx_SubscriptionName :: string

definition Transaction_zero :: Transaction where
  "Transaction_zero = \<lparr>tx_ID = [], tx_AccountID = [], tx_Date = zero_time, tx_Payee = [], tx_Desc = [],
    tx_CategoryID = [], tx_Amount = Money_empty, tx_Splits = [], tx_TransferAccountID = [],
    tx_TransferGroupID = [], tx_Cleared = False, tx_ClearedAt = zero_time, tx_Tags = [], tx_MemberIDs = [],
    tx_MemberID = [], tx_SourceDocID = [], tx_Source = [], tx_Attachments = [], tx_Custom = [],
    tx_Reviewed = False, tx_ExcludeFromReports = False, tx_BalanceCheckpointAt = zero_time, tx_Note = [],
    tx_HoldingID = [], tx_GoalID = [], tx_BillAccountID = [], tx_SubscriptionName = []\<rparr>"

definition IsTransfer :: "Transaction \<Rightarrow> bool" where
  "IsTransfer t \<longleftrightarrow> tx_TransferAccountID t \<noteq> []"

definition IsIncome :: "Transaction \<Rightarrow> bool" where
  "IsIncome t \<longleftrightarrow> \<not> IsTransfer t \<and> IsPositive (tx_Amount t)"

definition IsExpense :: "Transaction \<Rightarrow> bool" where
  "IsExpense t \<longleftrightarrow> \<not> IsTransfer t \<and> IsNegative (tx_Amount t)"

definition MarkCleared :: "Transaction \<Rightarrow> bool \<Rightarrow> time \<Rightarrow> Transaction" where
  "MarkCleared t v moment =
     (if \<not> v then t\<lparr>tx_Cleared := False, tx_ClearedAt := zero_time\<rparr>
      else
        let t' = (if \<not> tx_Cleared t \<or> tx_ClearedAt t = zero_time then t\<lparr>tx_ClearedAt := moment\<rparr> else t)
        in t'\<lparr>tx_Cleared := True\<rparr>)"

definition CountsInReports :: "Transaction \<Rightarrow> bool" where
  "CountsInReports t \<longleftrightarrow> \<not> tx_ExcludeFromReports t"

subsection \<open>Category splits\<close>

definition LineOwner :: "CategorySplit \<Rightarrow> string \<Rightarrow> string" where
  "LineOwner s txnMember = (if cs_MemberID s \<noteq> [] then cs_MemberID s else txnMember)"

definition SplitsTotalChecked :: "CategorySplit list \<Rightarrow> money_error + Money" where
  "SplitsTotalChecked splits =
     (case splits of
        [] \<Rightarrow> Inr Money_empty
      | s # _ \<Rightarrow>
          foldE (\<lambda>acc s. bindE (Add (Amount acc) (Amount (cs_Amount s))) (\<lambda>amount. Inr (acc\<lparr>Amount := amount\<rparr>)))
            (Zero (Currency (cs_Amount s))) splits)"

definition SplitsTotal :: "CategorySplit list \<Rightarrow> Money" where
  "SplitsTotal splits = (case SplitsTotalChecked splits of Inl _ \<Rightarrow> Money_empty | Inr m \<Rightarrow> m)"

definition SplitsReconcile :: "Money \<Rightarrow> CategorySplit list \<Rightarrow> bool" where
  "SplitsReconcile amount splits =
     (if splits = [] then True
      else case SplitsTotalChecked splits of Inl _ \<Rightarrow> False | Inr m \<Rightarrow> Amount m = Amount amount)"

definition HasSplits :: "Transaction \<Rightarrow> bool" where
  "HasSplits t \<longleftrightarrow> tx_Splits t \<noteq> []"

definition Transaction_SplitsReconcile :: "Transaction \<Rightarrow> bool" where
  "Transaction_SplitsReconcile t = SplitsReconcile (tx_Amount t) (tx_Splits t)"

subsection \<open>Owners\<close>

definition uniqueOwnerIDs :: "string list \<Rightarrow> string list" where
  "uniqueOwnerIDs owners =
     foldl (\<lambda>out owner. if owner = [] then out else if owner \<in> set out then out else out @ [owner]) [] owners"

definition Owners :: "Transaction \<Rightarrow> string list" where
  "Owners t =
     uniqueOwnerIDs (if tx_MemberIDs t = [] \<and> tx_MemberID t \<noteq> [] then [tx_MemberID t] else tx_MemberIDs t)"

definition HasOwner :: "Transaction \<Rightarrow> string \<Rightarrow> bool" where
  "HasOwner t ownerID = (if ownerID = [] then False else ownerID \<in> set (Owners t))"

definition IsUnassigned :: "Transaction \<Rightarrow> bool" where
  "IsUnassigned t \<longleftrightarrow> Owners t = []"

definition PrimaryOwner :: "Transaction \<Rightarrow> string" where
  "PrimaryOwner t = (case Owners t of [] \<Rightarrow> [] | o' # _ \<Rightarrow> o')"

definition NormalizeOwners :: "Transaction \<Rightarrow> Transaction" where
  "NormalizeOwners t = t\<lparr>tx_MemberIDs := Owners t, tx_MemberID := []\<rparr>"

definition SetOwners :: "Transaction \<Rightarrow> string list \<Rightarrow> Transaction" where
  "SetOwners t owners = t\<lparr>tx_MemberIDs := uniqueOwnerIDs owners, tx_MemberID := []\<rparr>"

subsection \<open>Facts\<close>

lemma SplitsTotalChecked_eq:
  assumes "\<forall>s \<in> set splits. is_i64 (Amount (cs_Amount s))" "splits \<noteq> []"
  shows "SplitsTotalChecked splits =
    (if partial_ok 0 (map (\<lambda>s. Amount (cs_Amount s)) splits)
     then Inr \<lparr>Amount = (\<Sum>s\<leftarrow>splits. Amount (cs_Amount s)), Currency = normalizeCode (Currency (cs_Amount (hd splits)))\<rparr>
     else Inl ErrOverflow)"
proof -
  let ?f = "\<lambda>acc s. bindE (Add (Amount acc) (Amount (cs_Amount s))) (\<lambda>amount. Inr (acc\<lparr>Amount := amount\<rparr>))"
  have "foldE ?f acc splits = bindE (foldE Add (Amount acc) (map (\<lambda>s. Amount (cs_Amount s)) splits))
      (\<lambda>amount. Inr (acc\<lparr>Amount := amount\<rparr>))" for acc :: Money
  proof (induction splits arbitrary: acc)
    case (Cons s splits)
    then show ?case by (cases "Add (Amount acc) (Amount (cs_Amount s))") simp_all
  qed simp
  moreover have "foldE Add 0 (map (\<lambda>s. Amount (cs_Amount s)) splits) =
      (if partial_ok 0 (map (\<lambda>s. Amount (cs_Amount s)) splits)
       then Inr (\<Sum>s\<leftarrow>splits. Amount (cs_Amount s)) else Inl ErrOverflow)"
    using assms(1) checked.foldE_add [of 0 "map (\<lambda>s. Amount (cs_Amount s)) splits"] by (simp add: list_all_iff)
  moreover have "SplitsTotalChecked splits = foldE ?f (Zero (Currency (cs_Amount (hd splits)))) splits"
    using assms(2) by (cases splits) (simp_all add: SplitsTotalChecked_def)
  ultimately show ?thesis by (simp add: Zero_def)
qed

lemma SplitsReconcile_iff:
  assumes "\<forall>s \<in> set splits. is_i64 (Amount (cs_Amount s))" "splits \<noteq> []"
  shows "SplitsReconcile amount splits \<longleftrightarrow>
    partial_ok 0 (map (\<lambda>s. Amount (cs_Amount s)) splits) \<and> (\<Sum>s\<leftarrow>splits. Amount (cs_Amount s)) = Amount amount"
  using assms(2) by (auto simp: SplitsReconcile_def SplitsTotalChecked_eq [OF assms])

lemma uniqueOwnerIDs_facts:
  "distinct (uniqueOwnerIDs os) \<and> set (uniqueOwnerIDs os) = set os - {[]} \<and>
   (distinct os \<longrightarrow> [] \<notin> set os \<longrightarrow> uniqueOwnerIDs os = os)"
proof -
  let ?f = "\<lambda>out owner. if owner = [] then out else if owner \<in> set out then out else out @ [owner]"
  have "distinct (foldl ?f out os) \<and> set (foldl ?f out os) = set out \<union> (set os - {[]})" if "distinct out" for out
    using that by (induction os arbitrary: out) auto
  from this [of "[]"] have "distinct (uniqueOwnerIDs os)" "set (uniqueOwnerIDs os) = set os - {[]}"
    by (simp_all add: uniqueOwnerIDs_def)
  moreover have "foldl ?f out os = out @ os" if "distinct (out @ os)" "[] \<notin> set os" for out
    using that by (induction os arbitrary: out) auto
  ultimately show ?thesis by (simp add: uniqueOwnerIDs_def)
qed

lemma NormalizeOwners_canonical:
  "Owners (NormalizeOwners t) = Owners t" "NormalizeOwners (NormalizeOwners t) = NormalizeOwners t"
  "HasOwner (NormalizeOwners t) = HasOwner t"
proof -
  have "distinct (Owners t)" "[] \<notin> set (Owners t)"
    using uniqueOwnerIDs_facts by (auto simp: Owners_def)
  then have "uniqueOwnerIDs (Owners t) = Owners t" using uniqueOwnerIDs_facts by blast
  then show o: "Owners (NormalizeOwners t) = Owners t"
    by (simp add: NormalizeOwners_def Owners_def [of "t\<lparr>tx_MemberIDs := Owners t, tx_MemberID := []\<rparr>"])
  then show "NormalizeOwners (NormalizeOwners t) = NormalizeOwners t"
    unfolding NormalizeOwners_def [of "NormalizeOwners t"] by (simp add: NormalizeOwners_def)
  from o show "HasOwner (NormalizeOwners t) = HasOwner t" by (simp add: HasOwner_def fun_eq_iff)
qed

lemma MarkCleared_idem:
  "MarkCleared (MarkCleared t v m) v m' = MarkCleared t v (if m = zero_time \<and> (\<not> tx_Cleared t \<or> tx_ClearedAt t = zero_time) then m' else m)"
  by (cases v; cases "tx_Cleared t"; cases "tx_ClearedAt t = zero_time") (auto simp: MarkCleared_def Let_def)

end
