(* ===== verification/Currency_Rates.thy ===== *)
theory Currency_Rates
  imports Domain
begin

text \<open>
  \<open>internal/currency/currency.go\<close>: the currency registry and conversion through a rate table
  of \<open>float64\<close> rates, with the exact rational fallback. Shows that the fallback rounds the exact
  rational half away from zero, and the error cases of a conversion.
\<close>

datatype currency_error = ErrUnknownRate | ErrInvalidRate | ConvertOverflow

record CurrencyInfo =
  cur_Code :: string
  cur_Symbol :: string
  cur_Decimals :: int
  cur_Name :: string

definition cur :: "string \<Rightarrow> string \<Rightarrow> int \<Rightarrow> string \<Rightarrow> string \<times> CurrencyInfo" where
  "cur code symbol decimals name =
     (code, \<lparr>cur_Code = code, cur_Symbol = symbol, cur_Decimals = decimals, cur_Name = name\<rparr>)"

definition registry :: "(string, CurrencyInfo) go_map" where
  "registry =
    [cur ''USD'' (bytes [36]) 2 ''US Dollar'',
     cur ''EUR'' (bytes [0xE2, 0x82, 0xAC]) 2 ''Euro'',
     cur ''GBP'' (bytes [0xC2, 0xA3]) 2 ''British Pound'',
     cur ''JPY'' (bytes [0xC2, 0xA5]) 0 ''Japanese Yen'',
     cur ''CAD'' (''CA'' @ bytes [36]) 2 ''Canadian Dollar'',
     cur ''AUD'' (''A'' @ bytes [36]) 2 ''Australian Dollar'',
     cur ''CHF'' ''CHF'' 2 ''Swiss Franc'',
     cur ''CNY'' (''CN'' @ bytes [0xC2, 0xA5]) 2 ''Chinese Yuan'',
     cur ''INR'' (bytes [0xE2, 0x82, 0xB9]) 2 ''Indian Rupee'',
     cur ''MXN'' (''MX'' @ bytes [36]) 2 ''Mexican Peso'']"

definition defaultDecimals :: int where "defaultDecimals = 2"

definition currency_normalize :: "string \<Rightarrow> string" where
  "currency_normalize code = to_upper (trim_space code)"

definition Codes :: "string list" where
  "Codes = sort (map fst registry)"

definition Lookup :: "string \<Rightarrow> CurrencyInfo option" where
  "Lookup code = map_of registry (currency_normalize code)"

definition Valid :: "string \<Rightarrow> bool" where
  "Valid code \<longleftrightarrow> map_of registry (currency_normalize code) \<noteq> None"

definition Decimals :: "string \<Rightarrow> int" where
  "Decimals code =
     (case map_of registry (currency_normalize code) of
        Some c \<Rightarrow> cur_Decimals c | None \<Rightarrow> defaultDecimals)"

definition Symbol :: "string \<Rightarrow> string" where
  "Symbol code =
     (case map_of registry (currency_normalize code) of
        Some c \<Rightarrow> cur_Symbol c | None \<Rightarrow> currency_normalize code)"

record Rates =
  Base :: string
  rate_table :: "(string, f64) go_map"

definition rateToBase :: "Rates \<Rightarrow> string \<Rightarrow> currency_error + f64" where
  "rateToBase r code =
     (let code = currency_normalize code in
      if code = currency_normalize (Base r) then Inr (Fin 1)
      else
        case map_of (rate_table r) code of
          None \<Rightarrow> Inl ErrUnknownRate
        | Some rate \<Rightarrow>
            if f_leq rate (Fin 0) \<or> rate = NaN \<or> rate = Inf True \<or> rate = Inf False
            then Inl ErrInvalidRate else Inr rate)"

fun pow10_loop :: "nat \<Rightarrow> f64 \<Rightarrow> f64" where
  "pow10_loop 0 p = p"
| "pow10_loop (Suc n) p = pow10_loop n (f_mul p (Fin 10))"

definition pow10 :: "int \<Rightarrow> f64" where
  "pow10 n = pow10_loop (nat n) (Fin 1)"

text \<open>The rational a finite float denotes (\<open>SetFloat64\<close>); the rates it is used on are finite.\<close>

fun f_rat :: "f64 \<Rightarrow> rat" where
  "f_rat (Fin x) = x" | "f_rat _ = 0"

text \<open>\<open>math.Abs(rounded) >= 0x1p62\<close> and \<open>int64\<close> of a float below that.\<close>

definition needs_exact :: "f64 \<Rightarrow> int \<Rightarrow> f64 \<Rightarrow> bool" where
  "needs_exact rounded amount baseMajor \<longleftrightarrow>
     rounded = NaN \<or> rounded = Inf True \<or> rounded = Inf False \<or> f_leq (Fin (2 ^ 62)) (f_abs rounded) \<or>
     (amount \<noteq> 0 \<and> f_less (f_abs baseMajor) (Fin (pow2 (- 1022))))"

definition convertExact :: "Money \<Rightarrow> string \<Rightarrow> f64 \<Rightarrow> f64 \<Rightarrow> currency_error + Money" where
  "convertExact m to fromRate toRate =
     (let result = of_int (Amount m) * f_rat fromRate / f_rat toRate *
            (f_rat (pow10 (Decimals to)) / f_rat (pow10 (Decimals (Currency m))));
          (n, d) = quotient_of result;
          rounded = n sdiv d; remainder = \<bar>n smod d\<bar> * 2;
          rounded' = (if remainder \<ge> d then rounded + sgn n else rounded)
      in if is_i64 rounded' then Inr (New rounded' to) else Inl ConvertOverflow)"

definition Convert :: "Rates \<Rightarrow> Money \<Rightarrow> string \<Rightarrow> currency_error + Money" where
  "Convert r m toCurrency =
     (let to = currency_normalize toCurrency in
      if Currency m = to then Inr m
      else
        bindE (rateToBase r (Currency m)) (\<lambda>fromRate.
        bindE (rateToBase r to) (\<lambda>toRate.
          let fromMajor = f_div (f_of_int (Amount m)) (pow10 (Decimals (Currency m)));
              baseMajor = f_mul fromMajor fromRate;
              toMajor = f_div baseMajor toRate;
              rounded = f_round (f_mul toMajor (pow10 (Decimals to)))
          in if needs_exact rounded (Amount m) baseMajor
             then convertExact m to fromRate toRate
             else Inr (New \<lfloor>f_rat rounded\<rfloor> to))))"

definition ToBase :: "Rates \<Rightarrow> Money \<Rightarrow> currency_error + Money" where
  "ToBase r m = Convert r m (Base r)"

definition ConvertBetween :: "int \<Rightarrow> string \<Rightarrow> string \<Rightarrow> Rates \<Rightarrow> currency_error + int" where
  "ConvertBetween amt from to rates =
     bindE (Convert rates (New amt from) to) (\<lambda>result. Inr (Amount result))"

subsection \<open>Facts\<close>

lemma half_away_quotient:
  assumes "d > 0"
  shows "(if \<bar>n smod d\<bar> * 2 \<ge> d then n sdiv d + sgn n else n sdiv d) =
    round_ref RoundHalfAwayFromZero (of_int n / of_int d)"
proof -
  have modes: "RoundTowardZero \<le> RoundHalfAwayFromZero" "RoundHalfAwayFromZero \<le> RoundHalfEven"
    by (simp_all add: word_le_nat_alt)
  have d: "sgn d = 1" "\<bar>d\<bar> = d" using assms by simp_all
  have R: "\<bar>n smod d\<bar> = \<bar>n\<bar> mod d"
    using assms pos_mod_sign [of d "\<bar>n\<bar>"]
    by (cases "n = 0") (simp_all add: signed_modulo_int_def abs_mult)
  have Q: "n sdiv d = sgn n * (\<bar>n\<bar> div d)" by (simp add: signed_divide_int_def d)
  have "round_mag RoundHalfAwayFromZero (sgn n) (\<bar>n\<bar> div d) (\<bar>n\<bar> mod d) d =
      round_ref RoundHalfAwayFromZero (of_int n / of_int d)"
    using round_mag_ref [OF _ modes, of d n] assms by (simp add: d)
  moreover have "round_mag RoundHalfAwayFromZero (sgn n) (\<bar>n\<bar> div d) (\<bar>n\<bar> mod d) d =
      sgn n * (\<bar>n\<bar> div d) + (if \<bar>n\<bar> mod d * 2 \<ge> d then sgn n else 0)"
    using assms by (auto simp: round_mag_def)
  ultimately show ?thesis unfolding R Q by auto
qed

text \<open>The exact path is one half-away-from-zero rounding of the exact rational.\<close>

lemma convertExact_eq:
  "convertExact m to fromRate toRate =
    (let x = of_int (Amount m) * f_rat fromRate / f_rat toRate *
           (f_rat (pow10 (Decimals to)) / f_rat (pow10 (Decimals (Currency m))));
         v = round_ref RoundHalfAwayFromZero x
     in if is_i64 v then Inr (New v to) else Inl ConvertOverflow)"
proof -
  define x where "x = of_int (Amount m) * f_rat fromRate / f_rat toRate *
           (f_rat (pow10 (Decimals to)) / f_rat (pow10 (Decimals (Currency m))))"
  obtain n d where nd: "quotient_of x = (n, d)" by (cases "quotient_of x")
  then have d: "d > 0" and x: "x = of_int n / of_int d"
    using quotient_of_denom_pos quotient_of_div by blast+
  show ?thesis
    unfolding convertExact_def x_def [symmetric] Let_def nd prod.case
    using half_away_quotient [OF d, of n] by (simp add: x)
qed

lemma Convert_same: "Currency m = currency_normalize to \<Longrightarrow> Convert r m to = Inr m"
  by (simp add: Convert_def)

lemma Convert_error_cases:
  "Convert r m to = Inl e \<Longrightarrow> Currency m \<noteq> currency_normalize to \<and>
   (rateToBase r (Currency m) = Inl e \<or> rateToBase r (currency_normalize to) = Inl e \<or> e = ConvertOverflow)"
  by (auto simp: Convert_def bindE_Inl_iff Let_def convertExact_eq split: if_splits)

lemma Convert_currency:
  "Convert r m to = Inr m' \<Longrightarrow> Currency m = currency_normalize to \<and> m' = m \<or>
   Currency m' = normalizeCode (currency_normalize to)"
  by (auto simp: Convert_def bindE_Inr_iff Let_def convertExact_eq New_def split: if_splits)

end
