(* ===== verification/Ledger.thy ===== *)
theory Ledger
  imports Currency_Rates Split
begin

text \<open>
  Package \<open>internal/ledger\<close>, the balances of single accounts: opening plus transactions, the
  single-pass bulk computation, running and register balances, ownership shares, ranking and
  the small summaries. Shows that the bulk pass agrees with the per-account fold on every
  account, that registers are balances of prefixes, and the exactness of ownership splits.
\<close>

datatype ledger_error =
    OpeningCurrency | InMoney money_error | InCurrency currency_error | NoComputedBalance | InSplit money_error

definition lift_money :: "money_error + 'a \<Rightarrow> ledger_error + 'a" where
  "lift_money r = (case r of Inl e \<Rightarrow> Inl (InMoney e) | Inr v \<Rightarrow> Inr v)"

definition lift_currency :: "currency_error + 'a \<Rightarrow> ledger_error + 'a" where
  "lift_currency r = (case r of Inl e \<Rightarrow> Inl (InCurrency e) | Inr v \<Rightarrow> Inr v)"

lemma lift_simps [simp, err_simps]:
  "lift_money (Inl e) = Inl (InMoney e)" "lift_money (Inr v) = Inr v"
  "lift_currency (Inl e2) = Inl (InCurrency e2)" "lift_currency (Inr v) = Inr v"
  by (simp_all add: lift_money_def lift_currency_def)

subsection \<open>One account\<close>

definition openingBalance :: "Account \<Rightarrow> ledger_error + Money" where
  "openingBalance account =
     (let bal = acc_OpeningBalance account in
      if Currency bal = [] then Inr (Zero (acc_Currency account))
      else if Currency bal \<noteq> acc_Currency account then Inl OpeningCurrency
      else Inr bal)"

definition add_txn :: "Money \<Rightarrow> Transaction \<Rightarrow> ledger_error + Money" where
  "add_txn bal t = lift_money (Money_Add bal (tx_Amount t))"

definition Balance :: "Account \<Rightarrow> Transaction list \<Rightarrow> ledger_error + Money" where
  "Balance account all =
     bindE (openingBalance account) (\<lambda>bal.
       foldE (\<lambda>bal t. if tx_AccountID t \<noteq> acc_ID account then Inr bal else add_txn bal t) bal all)"

definition ClearedBalance :: "Account \<Rightarrow> Transaction list \<Rightarrow> ledger_error + Money" where
  "ClearedBalance account all =
     bindE (openingBalance account) (\<lambda>bal.
       foldE (\<lambda>bal t. if tx_AccountID t \<noteq> acc_ID account \<or> \<not> tx_Cleared t then Inr bal else add_txn bal t)
         bal all)"

definition AdjustmentToTarget :: "Money \<Rightarrow> int \<Rightarrow> Money \<times> bool" where
  "AdjustmentToTarget current targetMinor =
     (if (Amount current < 0 \<and> targetMinor > wrap64 (max_i64 + Amount current)) \<or>
         (Amount current > 0 \<and> targetMinor < wrap64 (min_i64 + Amount current))
      then (Money_empty, False)
      else
        let delta = wrap64 (targetMinor - Amount current) in
        if delta = 0 then (Money_empty, False) else (New delta (Currency current), True))"

definition RunningBalances :: "Account \<Rightarrow> Transaction list \<Rightarrow> ledger_error + Money list" where
  "RunningBalances account ordered =
     bindE (openingBalance account) (\<lambda>bal.
       bindE (foldE (\<lambda>(bal, out) t.
           if tx_AccountID t \<noteq> acc_ID account then Inr (bal, out)
           else bindE (add_txn bal t) (\<lambda>next. Inr (next, out @ [next]))) (bal, []) ordered)
         (\<lambda>(bal, out). Inr out))"

definition register_key :: "Transaction \<Rightarrow> time \<times> string" where
  "register_key t = (tx_Date t, tx_ID t)"

definition RegisterBalances :: "Account \<Rightarrow> Transaction list \<Rightarrow> ledger_error + (string, Money) go_map" where
  "RegisterBalances account all =
     bindE (openingBalance account) (\<lambda>bal.
       let ordered = sort_key register_key (filter (\<lambda>t. tx_AccountID t = acc_ID account) all) in
       bindE (foldE (\<lambda>(bal, out) t. bindE (add_txn bal t) (\<lambda>next. Inr (next, map_put (tx_ID t) next out)))
           (bal, []) ordered)
         (\<lambda>(bal, out). Inr out))"

subsection \<open>All accounts in one pass\<close>

text \<open>The state of the pass: the map and the first error.\<close>

type_synonym bulk = "(string, Money) go_map \<times> ledger_error option"

definition first_error :: "ledger_error option \<Rightarrow> ledger_error \<Rightarrow> ledger_error option" where
  "first_error fe e = (case fe of None \<Rightarrow> Some e | Some e' \<Rightarrow> Some e')"

definition bulk_open :: "bulk \<Rightarrow> Account \<Rightarrow> bulk" where
  "bulk_open st a =
     (case st of (out, firstErr) \<Rightarrow>
       case openingBalance a of
         Inl e \<Rightarrow> (out, first_error firstErr e)
       | Inr bal \<Rightarrow> (map_put (acc_ID a) bal out, firstErr))"

definition bulk_txn :: "bool \<Rightarrow> bulk \<Rightarrow> Transaction \<Rightarrow> bulk" where
  "bulk_txn clearedOnly st t =
     (case st of (out, firstErr) \<Rightarrow>
       if clearedOnly \<and> \<not> tx_Cleared t then (out, firstErr)
       else
         case map_of out (tx_AccountID t) of
           None \<Rightarrow> (out, firstErr)
         | Some bal \<Rightarrow>
             (case add_txn bal t of
                Inl e \<Rightarrow> (AList.delete (tx_AccountID t) out, first_error firstErr e)
              | Inr next \<Rightarrow> (map_put (tx_AccountID t) next out, firstErr)))"

definition bulkBalances :: "Account list \<Rightarrow> Transaction list \<Rightarrow> bool \<Rightarrow> bulk" where
  "bulkBalances accounts all clearedOnly =
     foldl (bulk_txn clearedOnly) (foldl bulk_open ([], None) accounts) all"

definition Balances :: "Account list \<Rightarrow> Transaction list \<Rightarrow> bulk" where
  "Balances accounts all = bulkBalances accounts all False"

definition ClearedBalances :: "Account list \<Rightarrow> Transaction list \<Rightarrow> bulk" where
  "ClearedBalances accounts all = bulkBalances accounts all True"

subsection \<open>The bulk pass agrees with the per-account fold\<close>

definition balance_of :: "bool \<Rightarrow> Account \<Rightarrow> Transaction list \<Rightarrow> ledger_error + Money" where
  "balance_of clearedOnly a all = (if clearedOnly then ClearedBalance a all else Balance a all)"

definition to_option :: "'e + 'a \<Rightarrow> 'a option" where
  "to_option r = (case r of Inl _ \<Rightarrow> None | Inr v \<Rightarrow> Some v)"

lemma to_option_simps [simp]: "to_option (Inl e) = None" "to_option (Inr v) = Some v"
  by (simp_all add: to_option_def)

lemma to_option_Some_iff: "(\<exists>b. to_option r = Some b) \<longleftrightarrow> (\<exists>b. r = Inr b)"
  "(to_option r \<noteq> None) \<longleftrightarrow> (\<exists>b. r = Inr b)"
  by (cases r; simp)+

text \<open>What the pass does to the entry of one account.\<close>

definition entry_step :: "bool \<Rightarrow> string \<Rightarrow> Money option \<Rightarrow> Transaction \<Rightarrow> Money option" where
  "entry_step clearedOnly k m t =
     (if tx_AccountID t \<noteq> k \<or> (clearedOnly \<and> \<not> tx_Cleared t) then m
      else case m of None \<Rightarrow> None | Some bal \<Rightarrow> to_option (add_txn bal t))"

lemma bulk_txn_entry:
  "map_of (fst (bulk_txn c st t)) k = entry_step c k (map_of (fst st) k) t"
  by (cases st; cases "map_of (fst st) (tx_AccountID t)")
    (auto simp: bulk_txn_def entry_step_def update_conv' delete_conv' split: sum.splits)

lemma bulk_txns_entry:
  "map_of (fst (foldl (bulk_txn c) st ts)) k = foldl (entry_step c k) (map_of (fst st) k) ts"
  by (induction ts arbitrary: st) (simp_all add: bulk_txn_entry)

lemma entry_steps_None: "foldl (entry_step c k) None ts = None"
  by (induction ts) (simp_all add: entry_step_def)

lemma entry_steps_Some:
  "foldl (entry_step c k) (Some bal) ts = to_option (foldE (\<lambda>bal t.
     if tx_AccountID t \<noteq> k \<or> (c \<and> \<not> tx_Cleared t) then Inr bal else add_txn bal t) bal ts)"
proof (induction ts arbitrary: bal)
  case (Cons t ts)
  show ?case
  proof (cases "tx_AccountID t \<noteq> k \<or> (c \<and> \<not> tx_Cleared t)")
    case True
    then show ?thesis using Cons by (auto simp: entry_step_def)
  next
    case False
    then have "entry_step c k (Some bal) t = to_option (add_txn bal t)" by (auto simp: entry_step_def)
    then show ?thesis using False Cons
      by (cases "add_txn bal t") (simp_all only: foldl_Cons foldE.simps if_False to_option_simps
        entry_steps_None bindE_simps)
  qed
qed simp

lemma balance_of_entry:
  "to_option (balance_of c a all) = foldl (entry_step c (acc_ID a)) (to_option (openingBalance a)) all"
proof (cases "openingBalance a")
  case (Inl e)
  then show ?thesis by (simp add: balance_of_def Balance_def ClearedBalance_def entry_steps_None)
next
  case (Inr bal)
  then show ?thesis by (simp add: balance_of_def Balance_def ClearedBalance_def entry_steps_Some)
qed

lemma bulk_open_other:
  "k \<notin> acc_ID ` set as \<Longrightarrow> map_of (fst (foldl bulk_open st as)) k = map_of (fst st) k"
proof (induction as arbitrary: st)
  case (Cons b as)
  then show ?case
    by (cases st; cases "openingBalance b") (simp_all add: bulk_open_def update_conv')
qed simp

lemma bulk_open_entry:
  "distinct (map acc_ID as) \<Longrightarrow> a \<in> set as \<Longrightarrow>
   map_of (fst (foldl bulk_open st as)) (acc_ID a) =
     (case openingBalance a of Inl e \<Rightarrow> map_of (fst st) (acc_ID a) | Inr bal \<Rightarrow> Some bal)"
proof (induction as arbitrary: st)
  case (Cons b as)
  obtain out fe where st: "st = (out, fe)" by (cases st)
  show ?case
  proof (cases "a = b")
    case True
    then have "acc_ID a \<notin> acc_ID ` set as" using Cons.prems by simp
    then have *: "map_of (fst (foldl bulk_open st (b # as))) (acc_ID a) = map_of (fst (bulk_open st a)) (acc_ID a)"
      by (simp add: True bulk_open_other)
    show ?thesis unfolding * by (simp add: st bulk_open_def update_conv' split: sum.splits)
  next
    case False
    then have a: "a \<in> set as" "acc_ID a \<noteq> acc_ID b" using Cons.prems by (auto, metis imageI)
    have "map_of (fst (bulk_open st b)) (acc_ID a) = map_of (fst st) (acc_ID a)"
      using a(2) by (simp add: st bulk_open_def update_conv' split: sum.splits)
    then show ?thesis using Cons.IH [OF _ a(1), of "bulk_open st b"] Cons.prems(1) by (cases "openingBalance a") simp_all
  qed
qed simp

lemma bulk_open_error:
  "snd (foldl bulk_open st as) = None \<longleftrightarrow> snd st = None \<and> (\<forall>a \<in> set as. to_option (openingBalance a) \<noteq> None)"
proof (induction as arbitrary: st)
  case (Cons b as)
  have "snd (bulk_open st b) = None \<longleftrightarrow> snd st = None \<and> to_option (openingBalance b) \<noteq> None"
    by (cases st; cases "openingBalance b") (auto simp: bulk_open_def first_error_def split: option.splits)
  then show ?case using Cons by auto
qed simp

text \<open>There is an error exactly when some account has dropped out of the map.\<close>

definition error_inv :: "Account list \<Rightarrow> bulk \<Rightarrow> bool" where
  "error_inv accounts st \<longleftrightarrow> dom (map_of (fst st)) \<subseteq> acc_ID ` set accounts \<and>
     (snd st = None \<longleftrightarrow> (\<forall>a \<in> set accounts. map_of (fst st) (acc_ID a) \<noteq> None))"

lemma error_inv_txn: "error_inv accounts st \<Longrightarrow> error_inv accounts (bulk_txn c st t)"
proof -
  assume inv: "error_inv accounts st"
  obtain out fe where st: "st = (out, fe)" by (cases st)
  consider (same) "bulk_txn c st t = st"
    | (error) bal e where "map_of out (tx_AccountID t) = Some bal" "add_txn bal t = Inl e"
        "bulk_txn c st t = (AList.delete (tx_AccountID t) out, first_error fe e)"
    | (add) bal bal' where "map_of out (tx_AccountID t) = Some bal" "add_txn bal t = Inr bal'"
        "bulk_txn c st t = (map_put (tx_AccountID t) bal' out, fe)"
    by (cases "c \<and> \<not> tx_Cleared t"; cases "map_of out (tx_AccountID t)";
        cases "add_txn (the (map_of out (tx_AccountID t))) t")
      (auto simp: bulk_txn_def st)
  then show ?thesis
  proof cases
    case same
    then show ?thesis using inv by simp
  next
    case error
    then obtain a where "a \<in> set accounts" "acc_ID a = tx_AccountID t"
      using inv by (force simp: error_inv_def st)
    with error inv show ?thesis
      by (auto simp: error_inv_def st delete_conv' first_error_def split: option.splits)
  next
    case add
    then show ?thesis using inv by (auto simp: error_inv_def st update_conv')
  qed
qed

lemma error_inv_open:
  assumes "distinct (map acc_ID accounts)"
  shows "error_inv accounts (foldl bulk_open ([], None) accounts)"
proof -
  have entry: "map_of (fst (foldl bulk_open ([], None) accounts)) (acc_ID a) = to_option (openingBalance a)"
    if "a \<in> set accounts" for a
    using bulk_open_entry [OF assms that, of "([], None)"] by (simp add: to_option_def split: sum.splits)
  moreover have "dom (map_of (fst (foldl bulk_open ([], None) accounts))) \<subseteq> acc_ID ` set accounts"
    using bulk_open_other [of _ accounts "([], None)"] by fastforce
  ultimately show ?thesis by (simp add: error_inv_def bulk_open_error)
qed

lemma bulkBalances_entry:
  assumes "distinct (map acc_ID accounts)" "a \<in> set accounts"
  shows "map_of (fst (bulkBalances accounts all c)) (acc_ID a) = to_option (balance_of c a all)"
proof -
  let ?open = "foldl bulk_open ([], None) accounts"
  have "map_of (fst ?open) (acc_ID a) = to_option (openingBalance a)"
    using bulk_open_entry [OF assms, of "([], None)"] by (simp add: to_option_def split: sum.splits)
  then show ?thesis by (simp add: bulkBalances_def bulk_txns_entry balance_of_entry)
qed

lemma bulkBalances_error_inv:
  assumes "distinct (map acc_ID accounts)"
  shows "error_inv accounts (bulkBalances accounts all c)"
proof -
  have "error_inv accounts (foldl (bulk_txn c) st ts)" if "error_inv accounts st" for st ts
    using that by (induction ts arbitrary: st) (simp_all add: error_inv_txn)
  then show ?thesis using error_inv_open [OF assms] by (simp add: bulkBalances_def)
qed

text \<open>C21: for accounts with distinct ids, one pass over the transactions gives every account
  exactly the balance the per-account fold gives it, leaves out exactly the accounts whose own
  balance fails (and ids that are not accounts), and reports an error exactly when some account
  fails; likewise for the cleared balances.\<close>

theorem bulkBalances_agree:
  assumes "distinct (map acc_ID accounts)"
  shows "(\<forall>a \<in> set accounts. map_of (fst (bulkBalances accounts all c)) (acc_ID a) = to_option (balance_of c a all)) \<and>
    (\<forall>k. k \<notin> acc_ID ` set accounts \<longrightarrow> map_of (fst (bulkBalances accounts all c)) k = None) \<and>
    (snd (bulkBalances accounts all c) = None \<longleftrightarrow> (\<forall>a \<in> set accounts. \<exists>b. balance_of c a all = Inr b))"
  using bulkBalances_entry [OF assms] bulkBalances_error_inv [OF assms, of all c]
  by (auto simp: error_inv_def to_option_Some_iff)

lemma bulkBalances_agree_witness:
  "map_of (fst (bulkBalances
     [Account_zero\<lparr>acc_ID := ''a'', acc_Currency := ''USD''\<rparr>, Account_zero\<lparr>acc_ID := ''b'', acc_Currency := ''USD''\<rparr>]
     [] False)) ''b'' = to_option (balance_of False (Account_zero\<lparr>acc_ID := ''b'', acc_Currency := ''USD''\<rparr>) [])"
  using bulkBalances_agree [of "[Account_zero\<lparr>acc_ID := ''a'', acc_Currency := ''USD''\<rparr>,
    Account_zero\<lparr>acc_ID := ''b'', acc_Currency := ''USD''\<rparr>]" "[]" False]
  by simp

subsection \<open>Balances as sums\<close>

abbreviation own :: "Account \<Rightarrow> Transaction \<Rightarrow> bool" where
  "own a t \<equiv> tx_AccountID t = acc_ID a"

abbreviation amounts_i64 :: "Transaction list \<Rightarrow> bool" where
  "amounts_i64 ts \<equiv> \<forall>t \<in> set ts. is_i64 (Amount (tx_Amount t))"

lemma add_txn_Inr:
  assumes "is_i64 (Amount bal)" "is_i64 (Amount (tx_Amount t))" "add_txn bal t = Inr b"
  shows "Amount b = Amount bal + Amount (tx_Amount t)" "is_i64 (Amount b)" "Currency b = Currency bal"
  using assms by (auto simp: add_txn_def lift_money_def Money_Add_eq split: sum.splits if_splits)

lemma fold_own_filter:
  "foldE (\<lambda>bal t. if P t then Inr bal else f bal t) bal ts = foldE f bal (filter (\<lambda>t. \<not> P t) ts)"
proof (induction ts arbitrary: bal)
  case (Cons t ts)
  then show ?case by (cases "P t") (auto intro: bindE_cong)
qed simp

lemma Balance_own:
  "Balance a all = bindE (openingBalance a) (\<lambda>bal. foldE add_txn bal (filter (own a) all))"
  by (simp add: Balance_def fold_own_filter)

lemma foldE_add_txn_sum:
  assumes "foldE add_txn bal ts = Inr b" "is_i64 (Amount bal)" "amounts_i64 ts"
  shows "Amount b = Amount bal + (\<Sum>t\<leftarrow>ts. Amount (tx_Amount t)) \<and> is_i64 (Amount b) \<and> Currency b = Currency bal"
  using assms
proof (induction ts arbitrary: bal)
  case (Cons t ts)
  from Cons.prems(1) obtain b' where b': "add_txn bal t = Inr b'" "foldE add_txn b' ts = Inr b"
    by (auto simp: bindE_Inr_iff)
  note s = add_txn_Inr [OF Cons.prems(2) _ b'(1)]
  show ?case using Cons.IH [OF b'(2)] s Cons.prems(3) by (auto simp: add.assoc)
qed simp

lemma openingBalance_i64:
  "openingBalance a = Inr o' \<Longrightarrow> is_i64 (Amount (acc_OpeningBalance a)) \<Longrightarrow> is_i64 (Amount o')"
  by (auto simp: openingBalance_def Let_def Zero_def split: if_splits)

definition register_step ::
  "Money \<times> (string, Money) go_map \<Rightarrow> Transaction \<Rightarrow> ledger_error + Money \<times> (string, Money) go_map" where
  "register_step = (\<lambda>(bal, out) t. bindE (add_txn bal t) (\<lambda>next. Inr (next, map_put (tx_ID t) next out)))"

lemma register_step_eq: "register_step (bal, out) t =
    bindE (add_txn bal t) (\<lambda>next. Inr (next, map_put (tx_ID t) next out))"
  by (simp add: register_step_def)

lemma register_fold_other:
  "foldE register_step (bal, out) ts = Inr (bal', out') \<Longrightarrow> k \<notin> tx_ID ` set ts \<Longrightarrow> map_of out' k = map_of out k"
proof (induction ts arbitrary: bal out)
  case (Cons t ts)
  then show ?case
    by (cases "add_txn bal t") (auto simp: register_step_eq update_conv')
qed simp

lemma register_fold_prefix:
  assumes "foldE register_step (bal, out) ts = Inr (bal', out')" "distinct (map tx_ID ts)" "i < length ts"
  shows "\<exists>m. foldE add_txn bal (take (Suc i) ts) = Inr m \<and> map_of out' (tx_ID (ts ! i)) = Some m"
  using assms
proof (induction ts arbitrary: bal out i)
  case (Cons t ts)
  from Cons.prems(1) obtain b where b: "add_txn bal t = Inr b"
    "foldE register_step (b, map_put (tx_ID t) b out) ts = Inr (bal', out')"
    by (cases "add_txn bal t") (auto simp: register_step_eq)
  show ?case
  proof (cases i)
    case 0
    then show ?thesis
      using b register_fold_other [OF b(2), of "tx_ID t"] Cons.prems(2) by (simp add: update_conv')
  next
    case (Suc j)
    then show ?thesis using Cons.IH [OF b(2)] Cons.prems b(1) by simp
  qed
qed simp

lemma sorted_key_prefix:
  assumes "distinct (map f xs)" "sorted (map f xs)" "i < length xs"
  shows "filter (\<lambda>x. f x \<le> f (xs ! i)) xs = take (Suc i) xs"
proof -
  have le: "f (xs ! j) \<le> f (xs ! i) \<longleftrightarrow> j \<le> i" if "j < length xs" for j
  proof
    assume "f (xs ! j) \<le> f (xs ! i)"
    show "j \<le> i"
    proof (rule ccontr)
      assume "\<not> j \<le> i"
      then have "f (xs ! i) \<le> f (xs ! j)" using assms(2) that by (simp add: sorted_iff_nth_mono)
      then have "map f xs ! i = map f xs ! j" using \<open>f (xs ! j) \<le> f (xs ! i)\<close> assms(3) that by simp
      then show False using assms(1,3) that \<open>\<not> j \<le> i\<close> by (simp add: nth_eq_iff_index_eq del: nth_map)
    qed
  qed (use assms(2,3) in \<open>simp add: sorted_iff_nth_mono\<close>)
  have "filter (\<lambda>x. f x \<le> f (xs ! i)) (take (Suc i) xs @ drop (Suc i) xs) = take (Suc i) xs"
  proof -
    have "\<forall>x \<in> set (take (Suc i) xs). f x \<le> f (xs ! i)"
      using le by (auto simp: in_set_conv_nth)
    moreover have "\<forall>x \<in> set (drop (Suc i) xs). \<not> f x \<le> f (xs ! i)"
      using le by (auto simp: in_set_conv_nth)
    ultimately show ?thesis by (simp add: filter_id_conv filter_empty_conv del: append_take_drop_id)
  qed
  then show ?thesis by simp
qed

lemma RegisterBalances_fold:
  "RegisterBalances a all = bindE (openingBalance a) (\<lambda>bal.
     bindE (foldE register_step (bal, []) (sort_key register_key (filter (own a) all))) (\<lambda>(bal, out). Inr out))"
  by (simp add: RegisterBalances_def register_step_def Let_def)

lemma distinct_map_perm: "mset xs = mset ys \<Longrightarrow> distinct (map f xs) \<longleftrightarrow> distinct (map f ys)"
  by (rule mset_eq_imp_distinct_iff) simp

lemma sum_filter_sort_key:
  "(\<Sum>x\<leftarrow>filter P (sort_key k xs). f x) = (\<Sum>x\<leftarrow>filter P xs. f x :: int)"
  by (metis filter_sort sum_sort_key)

text \<open>for an account whose own transactions have distinct ids, the register shows for each of
  them the balance of the opening amount and of every own transaction up to it in (date, id)
  order, in the account's currency, and does not depend on the order of the input; a register
  exists only when no partial balance overflows or mixes currencies.\<close>

theorem RegisterBalances_prefix_sums:
  assumes "RegisterBalances a all = Inr reg" "distinct (map tx_ID (filter (own a) all))"
    "amounts_i64 all" "is_i64 (Amount (acc_OpeningBalance a))" "openingBalance a = Inr opening"
  shows "(\<forall>t \<in> set all. own a t \<longrightarrow>
      (\<exists>m. map_of reg (tx_ID t) = Some m \<and> Currency m = Currency opening \<and>
        Amount m = Amount opening +
          (\<Sum>u\<leftarrow>filter (\<lambda>u. own a u \<and> register_key u \<le> register_key t) all. Amount (tx_Amount u)))) \<and>
    (\<forall>all'. mset all' = mset all \<longrightarrow> RegisterBalances a all' = Inr reg)"
proof -
  let ?own = "filter (own a) all" let ?ord = "sort_key register_key ?own"
  have ids: "distinct (map tx_ID ?ord)"
    using assms(2) distinct_map_perm [of ?ord ?own tx_ID] by simp
  then have keys: "distinct (map register_key ?ord)"
    by (auto simp: distinct_map inj_on_def register_key_def)
  obtain b where fold: "foldE register_step (opening, []) ?ord = Inr (b, reg)"
    using assms(1,5) by (auto simp: RegisterBalances_fold bindE_Inr_iff)
  have o64: "is_i64 (Amount opening)" using openingBalance_i64 [OF assms(5,4)] .
  have entries: "\<exists>m. map_of reg (tx_ID t) = Some m \<and> Currency m = Currency opening \<and>
      Amount m = Amount opening +
        (\<Sum>u\<leftarrow>filter (\<lambda>u. own a u \<and> register_key u \<le> register_key t) all. Amount (tx_Amount u))"
    if t: "t \<in> set all" "own a t" for t
  proof -
    have "t \<in> set ?ord" using t by simp
    from this [unfolded in_set_conv_nth] obtain i where i: "i < length ?ord" "?ord ! i = t" by blast
    obtain m where m: "foldE add_txn opening (take (Suc i) ?ord) = Inr m" "map_of reg (tx_ID t) = Some m"
      using register_fold_prefix [OF fold ids i(1)] i(2) by auto
    have "amounts_i64 (take (Suc i) ?ord)"
      using assms(3) by (auto dest!: in_set_takeD)
    from foldE_add_txn_sum [OF m(1) o64 this]
    have "Amount m = Amount opening + (\<Sum>u\<leftarrow>take (Suc i) ?ord. Amount (tx_Amount u))" "Currency m = Currency opening"
      by auto
    moreover have "take (Suc i) ?ord = filter (\<lambda>u. register_key u \<le> register_key t) ?ord"
      using sorted_key_prefix [OF keys _ i(1)] i(2) by simp
    ultimately show ?thesis
      using m(2) by (simp add: sum_filter_sort_key filter_filter conj_commute)
  qed
  have "RegisterBalances a all' = Inr reg" if "mset all' = mset all" for all'
  proof -
    have "inj_on register_key (set (filter (own a) all'))"
      using assms(2) mset_eq_setD [OF that] by (auto simp: inj_on_def distinct_map register_key_def)
    moreover have "mset (filter (own a) all') = mset ?own" using that by simp
    ultimately have "sort_key register_key (filter (own a) all') = ?ord" by (metis sort_key_perm)
    then show ?thesis using assms(1) by (simp add: RegisterBalances_fold)
  qed
  with entries show ?thesis by blast
qed

lemma RegisterBalances_prefix_sums_witness:
  "\<exists>m. map_of [(''t'', \<lparr>Amount = 12, Currency = ''USD''\<rparr>)] ''t'' = Some m \<and> Amount m = 7 + (5 :: int)"
proof -
  let ?t = "Transaction_zero\<lparr>tx_ID := ''t'', tx_AccountID := ''a'', tx_Amount := \<lparr>Amount = 5, Currency = ''USD''\<rparr>\<rparr>"
  let ?a = "Account_zero\<lparr>acc_ID := ''a'', acc_OpeningBalance := \<lparr>Amount = 7, Currency = ''USD''\<rparr>, acc_Currency := ''USD''\<rparr>"
  have o: "openingBalance ?a = Inr \<lparr>Amount = 7, Currency = ''USD''\<rparr>" by (simp add: openingBalance_def)
  have r: "RegisterBalances ?a [?t] = Inr [(''t'', \<lparr>Amount = 12, Currency = ''USD''\<rparr>)]"
    by (simp add: RegisterBalances_fold o register_step_eq add_txn_def Money_Add_eq is_i64_def)
  show ?thesis
    using RegisterBalances_prefix_sums [OF r _ _ _ o] by (simp add: is_i64_def)
qed

subsection \<open>Small summaries\<close>

definition SavingsRate :: "int \<Rightarrow> int \<Rightarrow> int" where
  "SavingsRate income expense =
     (if income \<le> 0 then 0 else the (go_div (wrap64 (wrap64 (income - expense) * 100)) income))"

definition PercentChange :: "int \<Rightarrow> int \<Rightarrow> int \<times> bool" where
  "PercentChange current prev =
     (if prev = 0 then (0, False)
      else
        let mag = (if prev < 0 then wrap64 (- prev) else prev)
        in (the (go_div (wrap64 (wrap64 (current - prev) * 100)) mag), True))"

datatype DeltaKind = DeltaPctKind | DeltaNew | DeltaGone | DeltaZero

record DeltaResult =
  dl_Pct :: int
  dl_Kind :: DeltaKind

definition Delta :: "int \<Rightarrow> int \<Rightarrow> DeltaResult" where
  "Delta current prev =
     (if prev = 0 \<and> current = 0 then \<lparr>dl_Pct = 0, dl_Kind = DeltaZero\<rparr>
      else if prev = 0 then \<lparr>dl_Pct = 0, dl_Kind = DeltaNew\<rparr>
      else if current = 0 then \<lparr>dl_Pct = 0, dl_Kind = DeltaGone\<rparr>
      else
        let mag = (if prev < 0 then wrap64 (- prev) else prev)
        in \<lparr>dl_Pct = the (go_div (wrap64 (wrap64 (current - prev) * 100)) mag), dl_Kind = DeltaPctKind\<rparr>)"

definition RankSpending :: "(string, int) go_map \<Rightarrow> int \<Rightarrow> (string \<times> int) list \<times> int" where
  "RankSpending totals n =
     (let all = sort_key (\<lambda>(cat, amt). (- amt, cat)) totals in
      if n \<le> 0 \<or> int (length all) \<le> n + 1 then (all, 0)
      else (take (nat n) all, foldl (\<lambda>other c. wrap64 (other + snd c)) 0 (drop (nat n) all)))"

definition Recent :: "Transaction list \<Rightarrow> int \<Rightarrow> Transaction list" where
  "Recent txns n =
     (let cp = sort_key (\<lambda>t. (- tx_Date t, tx_ID t)) txns; n = (if n < 0 then 0 else n) in
      if int (length cp) > n then take (nat n) cp else cp)"

record PaymentInfo =
  pay_Latest :: Money
  pay_LatestTxn :: string
  pay_Count :: int
  pay_HasAny :: bool

definition no_payment :: PaymentInfo where
  "no_payment = \<lparr>pay_Latest = Money_empty, pay_LatestTxn = [], pay_Count = 0, pay_HasAny = False\<rparr>"

text \<open>The shared loop of the two functions; \<open>Abs\<close> panics on \<open>MinInt64\<close>.\<close>

definition payment_step :: "PaymentInfo \<times> time \<Rightarrow> Transaction \<Rightarrow> (PaymentInfo \<times> time) option" where
  "payment_step st t =
     (case st of (info, latest) \<Rightarrow>
       let info = info\<lparr>pay_Count := pay_Count info + 1, pay_HasAny := True\<rparr> in
       if pay_LatestTxn info = [] \<or> \<not> tx_Date t < latest
       then (case Money_Abs (tx_Amount t) of None \<Rightarrow> None
             | Some m \<Rightarrow> Some (info\<lparr>pay_LatestTxn := tx_ID t, pay_Latest := m\<rparr>, tx_Date t))
       else Some (info, latest))"

fun payment_loop :: "PaymentInfo \<times> time \<Rightarrow> Transaction list \<Rightarrow> (PaymentInfo \<times> time) option" where
  "payment_loop st [] = Some st"
| "payment_loop st (t # ts) = (case payment_step st t of None \<Rightarrow> None | Some st' \<Rightarrow> payment_loop st' ts)"

definition BillPaymentForAccount :: "string \<Rightarrow> Transaction list \<Rightarrow> PaymentInfo option" where
  "BillPaymentForAccount accountID txns =
     (if accountID = [] then Some no_payment
      else map_option fst (payment_loop (no_payment, zero_time)
             (filter (\<lambda>t. tx_BillAccountID t = accountID) txns)))"

definition SubscriptionPaymentForName :: "string \<Rightarrow> Transaction list \<Rightarrow> PaymentInfo option" where
  "SubscriptionPaymentForName name txns =
     (if name = [] then Some no_payment
      else map_option fst (payment_loop (no_payment, zero_time)
             (filter (\<lambda>t. tx_SubscriptionName t = name) txns)))"

datatype ProvenanceKind = ProvenanceOpening | ProvenanceAdjusted | ProvenanceImported | ProvenanceDerived

definition newest_txn :: "string \<Rightarrow> Transaction list \<Rightarrow> Transaction option" where
  "newest_txn accountID txns =
     foldl (\<lambda>newest t. if tx_AccountID t \<noteq> accountID then newest
              else case newest of None \<Rightarrow> Some t
                   | Some u \<Rightarrow> if \<not> tx_Date t < tx_Date u then Some t else Some u) None txns"

definition BalanceProvenance ::
  "string \<Rightarrow> Transaction list \<Rightarrow> (Transaction \<Rightarrow> bool) option \<Rightarrow> ProvenanceKind \<times> time" where
  "BalanceProvenance accountID txns isAdjustment =
     (case newest_txn accountID txns of
        None \<Rightarrow> (ProvenanceOpening, zero_time)
      | Some newest \<Rightarrow>
          if (case isAdjustment of None \<Rightarrow> False | Some f \<Rightarrow> f newest) then (ProvenanceAdjusted, tx_Date newest)
          else if tx_Source newest = TxnSourceImported \<or> tx_Source newest = TxnSourceScanned
            then (ProvenanceImported, tx_Date newest)
          else (ProvenanceDerived, tx_Date newest))"

end
