(* ===== verification/NetWorth.thy ===== *)
theory NetWorth
  imports Ledger
begin

text \<open>
  Package \<open>internal/ledger\<close>, the aggregates over accounts: ownership shares, period totals, net
  worth per owner, liquid balances, the net-worth accumulation with its explained and series
  forms, and the category spend series. Shows that the single-pass and precomputed forms agree
  with the per-account reference and that net worth is assets minus liabilities.
\<close>

subsection \<open>Ownership shares\<close>

definition SplitByShares :: "int \<Rightarrow> (string, int) go_map \<Rightarrow> (string, int) go_map" where
  "SplitByShares amountMinor shares =
     (if shares = [] then []
      else
        let memberIDs = sort (map fst shares);
            sign = (if amountMinor < 0 then - 1 else 1);
            mag = (if amountMinor < 0 then wrap64 (- amountMinor) else amountMinor);
            weighted = map (\<lambda>m. \<lparr>wm_MemberID = m, Weight = map_get 0 shares m\<rparr>) memberIDs
        in foldl (\<lambda>out s. map_put (sh_MemberID s) (wrap64 (sh_Amount s * sign)) out) [] (ByWeights mag weighted))"

definition SplitBySharesChecked ::
  "int \<Rightarrow> (string, int) go_map \<Rightarrow> (ledger_error + (string, int) go_map) option" where
  "SplitBySharesChecked amountMinor shares =
     (if shares = [] then Some (Inr [])
      else
        let memberIDs = sort (map fst shares); weights = map (map_get 0 shares) memberIDs in
        case foldE (\<lambda>tot weight.
               if weight < 0 \<or> weight > 100 then Inl (InSplit ErrInvalidWeights)
               else lift_money (Add tot weight)) 0 weights of
          Inl e \<Rightarrow> Some (Inl e)
        | Inr tot \<Rightarrow>
            if tot \<noteq> 100 then Some (Inl (InSplit ErrInvalidWeights))
            else
              (case Allocate amountMinor weights of
                 None \<Rightarrow> None
               | Some (Inl e) \<Rightarrow> Some (Inl (InSplit e))
               | Some (Inr parts) \<Rightarrow>
                   Some (Inr (foldl (\<lambda>out (m, p). map_put m p out) [] (zip memberIDs parts)))))"

subsection \<open>Period totals\<close>

definition InRange :: "time \<Rightarrow> time \<Rightarrow> time \<Rightarrow> bool" where
  "InRange t start finish \<longleftrightarrow> \<not> t < start \<and> t < finish"

definition period_step ::
  "time \<Rightarrow> time \<Rightarrow> Rates \<Rightarrow> Money \<times> Money \<Rightarrow> Transaction \<Rightarrow> ledger_error + Money \<times> Money" where
  "period_step start finish rates st t =
     (case st of (income, expense) \<Rightarrow>
       if IsTransfer t \<or> \<not> CountsInReports t \<or> \<not> InRange (tx_Date t) start finish then Inr st
       else
         bindE (lift_currency (Convert rates (tx_Amount t) (Base rates))) (\<lambda>conv.
           if IsIncome t then
             bindE (lift_money (Money_Add income conv)) (\<lambda>income'. Inr (income', expense))
           else if IsExpense t then
             bindE (lift_money (AbsChecked conv)) (\<lambda>mag.
               bindE (lift_money (Money_Add expense mag)) (\<lambda>expense'. Inr (income, expense')))
           else Inr st))"

definition PeriodTotals ::
  "Transaction list \<Rightarrow> time \<Rightarrow> time \<Rightarrow> Rates \<Rightarrow> ledger_error + Money \<times> Money" where
  "PeriodTotals all start finish rates =
     foldE (period_step start finish rates) (Zero (Base rates), Zero (Base rates)) all"

subsection \<open>Accumulating account values\<close>

record NetWorthResult =
  nw_Net :: Money
  nw_Assets :: Money
  nw_Liabilities :: Money
  nw_MissingCurrencies :: "string list"
  nw_ExcludedAccounts :: "string list"
  nw_ExcludedByChoice :: "string list"

record accountTotalsPolicy =
  includeChosenAccounts :: bool
  explainMissingRates :: bool

abbreviation strict_policy :: accountTotalsPolicy where
  "strict_policy \<equiv> \<lparr>includeChosenAccounts = False, explainMissingRates = False\<rparr>"
abbreviation explain_policy :: accountTotalsPolicy where
  "explain_policy \<equiv> \<lparr>includeChosenAccounts = False, explainMissingRates = True\<rparr>"
abbreviation chosen_policy :: accountTotalsPolicy where
  "chosen_policy \<equiv> \<lparr>includeChosenAccounts = True, explainMissingRates = False\<rparr>"

text \<open>The loop state: the result so far and the set of missing currencies.\<close>

type_synonym totals_state = "NetWorthResult \<times> string list"

definition totals_step ::
  "Rates \<Rightarrow> (Account \<Rightarrow> ledger_error + Money) \<Rightarrow> accountTotalsPolicy \<Rightarrow>
   totals_state \<Rightarrow> Account \<Rightarrow> ledger_error + totals_state" where
  "totals_step rates balanceOf policy st a =
     (case st of (res, missing) \<Rightarrow>
       if acc_Archived a then Inr st
       else if \<not> CountsInNetWorth a \<and> \<not> includeChosenAccounts policy
         then Inr (res\<lparr>nw_ExcludedByChoice := nw_ExcludedByChoice res @ [acc_Name a]\<rparr>, missing)
       else
         bindE (balanceOf a) (\<lambda>bal.
           case Convert rates bal (Base rates) of
             Inl e \<Rightarrow>
               if explainMissingRates policy \<and> e = ErrUnknownRate
               then Inr (res\<lparr>nw_ExcludedAccounts := nw_ExcludedAccounts res @ [acc_Name a]\<rparr>,
                         List.insert (to_upper (trim_space (acc_Currency a))) missing)
               else Inl (InCurrency e)
           | Inr conv \<Rightarrow>
               if acc_Class a = ClassLiability then
                 bindE (lift_money (AbsChecked conv)) (\<lambda>mag.
                   bindE (lift_money (Money_Add (nw_Liabilities res) mag)) (\<lambda>l.
                     Inr (res\<lparr>nw_Liabilities := l\<rparr>, missing)))
               else
                 bindE (lift_money (Money_Add (nw_Assets res) conv)) (\<lambda>v.
                   Inr (res\<lparr>nw_Assets := v\<rparr>, missing))))"

definition totals_start :: "Rates \<Rightarrow> totals_state" where
  "totals_start rates =
     (\<lparr>nw_Net = Money_empty, nw_Assets = Zero (Base rates), nw_Liabilities = Zero (Base rates),
       nw_MissingCurrencies = [], nw_ExcludedAccounts = [], nw_ExcludedByChoice = []\<rparr>, [])"

definition accumulateAccountTotals ::
  "Account list \<Rightarrow> Rates \<Rightarrow> (Account \<Rightarrow> ledger_error + Money) \<Rightarrow> accountTotalsPolicy \<Rightarrow>
   ledger_error + NetWorthResult" where
  "accumulateAccountTotals accounts rates balanceOf policy =
     bindE (foldE (totals_step rates balanceOf policy) (totals_start rates) accounts) (\<lambda>(res, missing).
       bindE (lift_money (Money_Sub (nw_Assets res) (nw_Liabilities res))) (\<lambda>net.
         Inr (res\<lparr>nw_Net := net, nw_MissingCurrencies := sort missing\<rparr>)))"

definition netWorthAccumulate ::
  "Account list \<Rightarrow> Rates \<Rightarrow> (Account \<Rightarrow> ledger_error + Money) \<Rightarrow> ledger_error + NetWorthResult" where
  "netWorthAccumulate accounts rates balanceOf =
     accumulateAccountTotals accounts rates balanceOf explain_policy"

definition strictAccountTotals ::
  "Account list \<Rightarrow> Transaction list \<Rightarrow> Rates \<Rightarrow> accountTotalsPolicy \<Rightarrow> ledger_error + NetWorthResult" where
  "strictAccountTotals accounts all rates policy =
     accumulateAccountTotals accounts rates (\<lambda>a. Balance a all) policy"

definition NetWorth :: "Account list \<Rightarrow> Transaction list \<Rightarrow> Rates \<Rightarrow> ledger_error + Money \<times> Money \<times> Money" where
  "NetWorth accounts all rates =
     bindE (strictAccountTotals accounts all rates strict_policy) (\<lambda>res.
       Inr (nw_Net res, nw_Assets res, nw_Liabilities res))"

definition precomputed :: "(string, Money) go_map \<Rightarrow> Account \<Rightarrow> ledger_error + Money" where
  "precomputed balances a =
     (case map_of balances (acc_ID a) of None \<Rightarrow> Inl NoComputedBalance | Some bal \<Rightarrow> Inr bal)"

definition NetWorthFromBalances ::
  "Account list \<Rightarrow> (string, Money) go_map \<Rightarrow> Rates \<Rightarrow> ledger_error + NetWorthResult" where
  "NetWorthFromBalances accounts balances rates =
     netWorthAccumulate accounts rates (precomputed balances)"

text \<open>\<open>eligible\<close> of \<open>NetWorthExplained\<close>, or \<open>None\<close> on a repeated id (the early return).\<close>

fun eligible_accounts :: "string list \<Rightarrow> Account list \<Rightarrow> Account list option" where
  "eligible_accounts seen [] = Some []"
| "eligible_accounts seen (a # as) =
     (if \<not> CountsInNetWorth a then eligible_accounts seen as
      else if acc_ID a \<in> set seen then None
      else map_option (Cons a) (eligible_accounts (acc_ID a # seen) as))"

definition NetWorthExplained ::
  "Account list \<Rightarrow> Transaction list \<Rightarrow> Rates \<Rightarrow> ledger_error + NetWorthResult" where
  "NetWorthExplained accounts all rates =
     (case eligible_accounts [] accounts of
        None \<Rightarrow> netWorthAccumulate accounts rates (\<lambda>a. Balance a all)
      | Some eligible \<Rightarrow>
          let balances = fst (Balances eligible all) in
          netWorthAccumulate accounts rates (\<lambda>a.
            case map_of balances (acc_ID a) of Some bal \<Rightarrow> Inr bal | None \<Rightarrow> Balance a all))"

subsection \<open>Value series\<close>

text \<open>The rows of each kept account, as positions into the transactions.\<close>

definition accountValueRows ::
  "Account list \<Rightarrow> Transaction list \<Rightarrow> accountTotalsPolicy \<Rightarrow> (string, nat list) go_map" where
  "accountValueRows accounts all policy =
     (let rows = foldl (\<lambda>rows a.
            if acc_Archived a \<or> (\<not> CountsInNetWorth a \<and> \<not> includeChosenAccounts policy) then rows
            else map_put (acc_ID a) [] rows) [] accounts
      in if rows = [] then rows
         else foldl (\<lambda>rows i.
            case map_of rows (tx_AccountID (all ! i)) of
              None \<Rightarrow> rows
            | Some positions \<Rightarrow> map_put (tx_AccountID (all ! i)) (positions @ [i]) rows)
            rows [0..<length all])"

definition accountValueAt ::
  "Account \<Rightarrow> Transaction list \<Rightarrow> nat list \<Rightarrow> time \<Rightarrow> ledger_error + Money" where
  "accountValueAt a all rows cutoff =
     bindE (openingBalance a) (\<lambda>bal.
       foldE (\<lambda>bal i. if \<not> tx_Date (all ! i) < cutoff then Inr bal else add_txn bal (all ! i)) bal rows)"

definition accountValueSeries ::
  "Account list \<Rightarrow> Transaction list \<Rightarrow> time list \<Rightarrow> Rates \<Rightarrow> accountTotalsPolicy \<Rightarrow>
   ledger_error + Money list" where
  "accountValueSeries accounts all cutoffs rates policy =
     (if cutoffs = [] then Inr []
      else
        let rows = accountValueRows accounts all policy in
        foldE (\<lambda>out c.
          bindE (accumulateAccountTotals accounts rates
              (\<lambda>a. accountValueAt a all (map_get [] rows (acc_ID a)) c) policy)
            (\<lambda>res. Inr (out @ [nw_Net res]))) [] cutoffs)"

definition NetWorthSeries ::
  "Account list \<Rightarrow> Transaction list \<Rightarrow> time list \<Rightarrow> Rates \<Rightarrow> ledger_error + Money list" where
  "NetWorthSeries accounts all cutoffs rates =
     accountValueSeries accounts all cutoffs rates strict_policy"

definition AccountNetValueSeries ::
  "Account list \<Rightarrow> Transaction list \<Rightarrow> time list \<Rightarrow> Rates \<Rightarrow> ledger_error + Money list" where
  "AccountNetValueSeries accounts all cutoffs rates =
     accountValueSeries accounts all cutoffs rates chosen_policy"

subsection \<open>Liquid balances and owners\<close>

definition is_liquid_type :: "AccountType \<Rightarrow> bool" where
  "is_liquid_type t \<longleftrightarrow> t \<in> {TypeChecking, TypeDebit, TypeSavings, TypeCash}"

definition liquid_step ::
  "Rates \<Rightarrow> (Account \<Rightarrow> ledger_error + Money) \<Rightarrow> Money \<Rightarrow> Account \<Rightarrow> ledger_error + Money" where
  "liquid_step rates balanceOf tot a =
     (if acc_Archived a then Inr tot
      else if \<not> is_liquid_type (acc_Type a) then Inr tot
      else bindE (balanceOf a) (\<lambda>bal.
        bindE (lift_currency (Convert rates bal (Base rates))) (\<lambda>conv.
          lift_money (Money_Add tot conv))))"

definition LiquidBalance :: "Account list \<Rightarrow> Transaction list \<Rightarrow> Rates \<Rightarrow> ledger_error + Money" where
  "LiquidBalance accounts all rates =
     foldE (liquid_step rates (\<lambda>a. Balance a all)) (Zero (Base rates)) accounts"

definition LiquidFromBalances :: "Account list \<Rightarrow> (string, Money) go_map \<Rightarrow> Rates \<Rightarrow> ledger_error + Money" where
  "LiquidFromBalances accounts balances rates =
     foldE (liquid_step rates (precomputed balances)) (Zero (Base rates)) accounts"

definition owner_add ::
  "Rates \<Rightarrow> (string, Money) go_map \<Rightarrow> string \<times> Money \<Rightarrow> ledger_error + (string, Money) go_map" where
  "owner_add rates out p =
     (case p of (member, part) \<Rightarrow>
       bindE (lift_money (Money_Add (map_get (Zero (Base rates)) out member) part))
         (\<lambda>v. Inr (map_put member v out)))"

definition owner_step ::
  "Transaction list \<Rightarrow> Rates \<Rightarrow> (string, Money) go_map \<Rightarrow> Account \<Rightarrow> ledger_error + (string, Money) go_map" where
  "owner_step all rates out a =
     (if acc_Archived a then Inr out
      else bindE (Balance a all) (\<lambda>bal.
        bindE (lift_currency (Convert rates bal (Base rates))) (\<lambda>conv.
          if acc_OwnershipShares a \<noteq> [] then
            (case the (SplitBySharesChecked (Amount conv) (acc_OwnershipShares a)) of
               Inl e \<Rightarrow> Inl e
             | Inr parts \<Rightarrow> foldE (owner_add rates) out (map (\<lambda>(m, p). (m, New p (Base rates))) parts))
          else owner_add rates out (acc_OwnerID a, conv))))"

definition NetByOwner ::
  "Account list \<Rightarrow> Transaction list \<Rightarrow> Rates \<Rightarrow> ledger_error + (string, Money) go_map" where
  "NetByOwner accounts all rates = foldE (owner_step all rates) [] accounts"

subsection \<open>Category spend series\<close>

definition period_index :: "time list \<Rightarrow> time \<Rightarrow> nat option" where
  "period_index bounds d =
     List.find (\<lambda>i. InRange d (bounds ! i) (bounds ! (i + 1))) [0..<length bounds - 1]"

definition add_spend ::
  "nat \<Rightarrow> nat \<Rightarrow> (string, int list) go_map \<Rightarrow> string \<Rightarrow> int \<Rightarrow> ledger_error + (string, int list) go_map" where
  "add_spend n idx out cat v =
     (let series = map_get (replicate n 0) out cat in
      bindE (lift_money (Add (series ! idx) v)) (\<lambda>next. Inr (map_put cat (series[idx := next]) out)))"

text \<open>One split line; the state is the map and the per-transaction totals of unselected categories.\<close>

definition split_spend ::
  "Rates \<Rightarrow> (string \<Rightarrow> bool) \<Rightarrow> bool \<Rightarrow> nat \<Rightarrow> nat \<Rightarrow>
   (string, int list) go_map \<times> (string, int) go_map \<Rightarrow> CategorySplit \<Rightarrow>
   ledger_error + (string, int list) go_map \<times> (string, int) go_map" where
  "split_spend rates selected selectedOnly n idx st s =
     (case st of (out, unselected) \<Rightarrow>
       if Amount (cs_Amount s) \<ge> 0 then Inr st
       else
         bindE (lift_currency (Convert rates (cs_Amount s) (Base rates))) (\<lambda>splitValue.
         bindE (lift_money (AbsChecked splitValue)) (\<lambda>v.
           if selectedOnly \<and> \<not> selected (cs_CategoryID s) then
             bindE (lift_money (Add (map_get 0 unselected (cs_CategoryID s)) (Amount v))) (\<lambda>next.
               Inr (out, map_put (cs_CategoryID s) next unselected))
           else
             bindE (add_spend n idx out (cs_CategoryID s) (Amount v)) (\<lambda>out'. Inr (out', unselected)))))"

definition spend_step ::
  "Rates \<Rightarrow> time list \<Rightarrow> (string \<Rightarrow> bool) \<Rightarrow> bool \<Rightarrow> (string, int list) go_map \<Rightarrow> Transaction \<Rightarrow>
   ledger_error + (string, int list) go_map" where
  "spend_step rates bounds selected selectedOnly out t =
     (let n = length bounds - 1 in
      if \<not> IsExpense t \<or> \<not> CountsInReports t then Inr out
      else
        case period_index bounds (tx_Date t) of
          None \<Rightarrow> Inr out
        | Some idx \<Rightarrow>
            bindE (lift_currency (Convert rates (tx_Amount t) (Base rates))) (\<lambda>conv.
              if HasSplits t then
                bindE (foldE (split_spend rates selected selectedOnly n idx) (out, []) (tx_Splits t))
                  (\<lambda>(out', _). Inr out')
              else
                bindE (lift_money (AbsChecked conv)) (\<lambda>v.
                  if selectedOnly \<and> \<not> selected (tx_CategoryID t) then Inr out
                  else add_spend n idx out (tx_CategoryID t) (Amount v))))"

definition categorySpendSeries ::
  "Transaction list \<Rightarrow> time list \<Rightarrow> Rates \<Rightarrow> (string \<Rightarrow> bool) \<Rightarrow> bool \<Rightarrow>
   ledger_error + (string, int list) go_map" where
  "categorySpendSeries all bounds rates selected selectedOnly =
     (if length bounds < 2 then Inr []
      else foldE (spend_step rates bounds selected selectedOnly) [] all)"

definition CategorySpendSeries ::
  "Transaction list \<Rightarrow> time list \<Rightarrow> Rates \<Rightarrow> ledger_error + (string, int list) go_map" where
  "CategorySpendSeries all bounds rates = categorySpendSeries all bounds rates (\<lambda>_. False) False"

definition CategorySpendSeriesSelected ::
  "Transaction list \<Rightarrow> time list \<Rightarrow> Rates \<Rightarrow> (string, bool) go_map \<Rightarrow>
   ledger_error + (string, int list) go_map" where
  "CategorySpendSeriesSelected all bounds rates selected =
     categorySpendSeries all bounds rates (map_get False selected) True"

end
