(* ===== verification/NetWorthFacts.thy ===== *)
theory NetWorthFacts
  imports NetWorth
begin

text \<open>
  Facts about \<open>internal/ledger\<close>'s aggregates (theory NetWorth): the explained single-pass net
  worth equals the per-account reference, the value series equals the net worth of the
  transactions before each cutoff, net worth is the converted assets minus the converted
  liabilities, and ownership shares divide an amount exactly.
\<close>

lemma foldE_cong:
  "(\<And>s x. x \<in> set xs \<Longrightarrow> f s x = g s x) \<Longrightarrow> foldE f s xs = foldE g s xs"
proof (induction xs arbitrary: s)
  case (Cons x xs)
  then show ?case by (cases "g s x") simp_all
qed simp

definition kept_by :: "accountTotalsPolicy \<Rightarrow> Account \<Rightarrow> bool" where
  "kept_by policy a \<longleftrightarrow> \<not> acc_Archived a \<and> (CountsInNetWorth a \<or> includeChosenAccounts policy)"

lemma totals_step_cong:
  "(kept_by policy a \<Longrightarrow> f a = g a) \<Longrightarrow> totals_step rates f policy st a = totals_step rates g policy st a"
  by (cases st) (auto simp: totals_step_def kept_by_def)

lemma accumulate_cong:
  assumes "\<And>a. a \<in> set accounts \<Longrightarrow> kept_by policy a \<Longrightarrow> f a = g a"
  shows "accumulateAccountTotals accounts rates f policy = accumulateAccountTotals accounts rates g policy"
proof -
  have "foldE (totals_step rates f policy) (totals_start rates) accounts =
      foldE (totals_step rates g policy) (totals_start rates) accounts"
    by (rule foldE_cong) (auto intro: totals_step_cong assms)
  then show ?thesis by (simp add: accumulateAccountTotals_def)
qed

subsection \<open>The explained net worth\<close>

lemma eligible_accounts_Some:
  "eligible_accounts seen accounts = Some es \<Longrightarrow>
   es = filter CountsInNetWorth accounts \<and> distinct (map acc_ID es) \<and> acc_ID ` set es \<inter> set seen = {}"
proof (induction accounts arbitrary: seen es)
  case (Cons a accounts)
  then show ?case
    by (cases "CountsInNetWorth a"; cases "acc_ID a \<in> set seen";
        cases "eligible_accounts (acc_ID a # seen) accounts") (fastforce dest: Cons.IH)+
qed simp

lemma balance_of_False: "balance_of False a all = Balance a all"
  by (simp add: balance_of_def)

text \<open>the single-pass explained net worth is the per-account fold, for every account list
  (repeated ids and failing accounts included): same totals, same explanations, same error.\<close>

theorem NetWorthExplained_single_pass:
  "NetWorthExplained accounts all rates = netWorthAccumulate accounts rates (\<lambda>a. Balance a all)"
proof (cases "eligible_accounts [] accounts")
  case (Some es)
  let ?m = "fst (Balances es all)"
  have es: "es = filter CountsInNetWorth accounts" "distinct (map acc_ID es)"
    using eligible_accounts_Some [OF Some] by blast+
  have entry: "map_of ?m (acc_ID a) = to_option (Balance a all)" if "a \<in> set es" for a
    using bulkBalances_entry [OF es(2), where all = all and c = False] that
    by (simp add: Balances_def balance_of_False)
  have same: "(case map_of ?m (acc_ID a) of Some bal \<Rightarrow> Inr bal | None \<Rightarrow> Balance a all) = Balance a all"
    if a: "a \<in> set accounts" "kept_by explain_policy a" for a
  proof -
    have "a \<in> set es" using a by (simp add: es(1) kept_by_def)
    from entry [OF this] show ?thesis by (cases "Balance a all") simp_all
  qed
  have "accumulateAccountTotals accounts rates
      (\<lambda>a. case map_of ?m (acc_ID a) of Some bal \<Rightarrow> Inr bal | None \<Rightarrow> Balance a all) explain_policy =
    accumulateAccountTotals accounts rates (\<lambda>a. Balance a all) explain_policy"
    by (rule accumulate_cong) (rule same)
  then show ?thesis
    unfolding NetWorthExplained_def netWorthAccumulate_def Let_def Some option.case .
qed (simp add: NetWorthExplained_def)

subsection \<open>The value series\<close>

definition keys_step :: "accountTotalsPolicy \<Rightarrow> (string, nat list) go_map \<Rightarrow> Account \<Rightarrow> (string, nat list) go_map" where
  "keys_step policy rows a =
     (if acc_Archived a \<or> (\<not> CountsInNetWorth a \<and> \<not> includeChosenAccounts policy) then rows
      else map_put (acc_ID a) [] rows)"

definition row_step :: "Transaction list \<Rightarrow> (string, nat list) go_map \<Rightarrow> nat \<Rightarrow> (string, nat list) go_map" where
  "row_step all rows i =
     (case map_of rows (tx_AccountID (all ! i)) of
        None \<Rightarrow> rows
      | Some positions \<Rightarrow> map_put (tx_AccountID (all ! i)) (positions @ [i]) rows)"

lemma accountValueRows_steps:
  "accountValueRows accounts all policy =
    (let rows = foldl (keys_step policy) [] accounts
     in if rows = [] then rows else foldl (row_step all) rows [0..<length all])"
  unfolding accountValueRows_def keys_step_def [abs_def] row_step_def [abs_def] by (rule refl)

lemma keys_steps_mono: "map_of rows k = Some [] \<Longrightarrow> map_of (foldl (keys_step policy) rows as) k = Some []"
  by (induction as arbitrary: rows) (auto simp: keys_step_def update_conv')

lemma keys_steps:
  "a \<in> set as \<Longrightarrow> kept_by policy a \<Longrightarrow> map_of (foldl (keys_step policy) rows as) (acc_ID a) = Some []"
proof (induction as arbitrary: rows)
  case (Cons b as)
  show ?case
  proof (cases "a = b")
    case True
    then have "map_of (keys_step policy rows b) (acc_ID a) = Some []"
      using Cons.prems by (auto simp: keys_step_def kept_by_def update_conv')
    then show ?thesis by (simp add: keys_steps_mono)
  qed (use Cons in auto)
qed simp

lemma row_steps:
  "map_of rows k = Some ps \<Longrightarrow>
   map_of (foldl (row_step all) rows is) k = Some (ps @ filter (\<lambda>i. tx_AccountID (all ! i) = k) is)"
proof (induction "is" arbitrary: rows ps)
  case (Cons i "is")
  show ?case
  proof (cases "tx_AccountID (all ! i) = k")
    case True
    then have "map_of (row_step all rows i) k = Some (ps @ [i])"
      using Cons.prems by (simp add: row_step_def update_conv')
    from Cons.IH [OF this] True show ?thesis by simp
  next
    case False
    then have "map_of (row_step all rows i) k = Some ps"
      using Cons.prems by (simp add: row_step_def update_conv' split: option.splits)
    from Cons.IH [OF this] False show ?thesis by simp
  qed
qed simp

lemma rows_of_account:
  assumes "a \<in> set accounts" "kept_by policy a"
  shows "map_get [] (accountValueRows accounts all policy) (acc_ID a) =
    filter (\<lambda>i. tx_AccountID (all ! i) = acc_ID a) [0..<length all]"
proof -
  let ?k = "foldl (keys_step policy) [] accounts"
  have k: "map_of ?k (acc_ID a) = Some []" by (rule keys_steps [OF assms])
  then have "?k \<noteq> []" by auto
  then show ?thesis
    using row_steps [OF k, of all "[0..<length all]"]
    by (simp add: accountValueRows_steps map_get_def)
qed

lemma foldE_filter: "foldE (\<lambda>s x. if P x then f s x else Inr s) s xs = foldE f s (filter P xs)"
proof (induction xs arbitrary: s)
  case (Cons x xs)
  then show ?case by (cases "f s x") auto
qed simp

lemma foldE_filter_not: "foldE (\<lambda>s x. if P x then Inr s else f s x) s xs = foldE f s (filter (\<lambda>x. \<not> P x) xs)"
proof (induction xs arbitrary: s)
  case (Cons x xs)
  then show ?case by (cases "f s x") auto
qed simp

lemma foldE_map: "foldE f s (map g xs) = foldE (\<lambda>s x. f s (g x)) s xs"
proof (induction xs arbitrary: s)
  case (Cons x xs)
  then show ?case by (cases "f s (g x)") auto
qed simp

lemma filter_positions: "map ((!) xs) (filter (\<lambda>i. P (xs ! i)) [0..<length xs]) = filter P xs"
proof -
  have "filter P xs = filter P (map ((!) xs) [0..<length xs])" by (simp add: map_nth)
  then show ?thesis by (simp only: filter_map comp_def)
qed

lemma Balance_filter:
  "Balance a all = bindE (openingBalance a) (\<lambda>b. foldE add_txn b (filter (\<lambda>t. tx_AccountID t = acc_ID a) all))"
  by (simp add: Balance_def foldE_filter_not)

lemma accountValueAt_Balance:
  assumes "a \<in> set accounts" "kept_by policy a"
  shows "accountValueAt a all (map_get [] (accountValueRows accounts all policy) (acc_ID a)) c =
    Balance a (filter (\<lambda>t. tx_Date t < c) all)"
proof -
  let ?own = "\<lambda>t. tx_AccountID t = acc_ID a"
  have "foldE (\<lambda>bal i. if \<not> tx_Date (all ! i) < c then Inr bal else add_txn bal (all ! i)) b
      (filter (\<lambda>i. ?own (all ! i)) [0..<length all]) =
    foldE add_txn b (filter (\<lambda>t. tx_Date t < c) (filter ?own all))" for b
  proof -
    have "foldE (\<lambda>bal i. if \<not> tx_Date (all ! i) < c then Inr bal else add_txn bal (all ! i)) b
        (filter (\<lambda>i. ?own (all ! i)) [0..<length all]) =
      foldE (\<lambda>bal t. if \<not> tx_Date t < c then Inr bal else add_txn bal t) b
        (map ((!) all) (filter (\<lambda>i. ?own (all ! i)) [0..<length all]))"
      by (simp add: foldE_map)
    also have "\<dots> = foldE add_txn b (filter (\<lambda>t. tx_Date t < c) (filter ?own all))"
      by (simp add: foldE_filter_not filter_positions [where P = "own a"])
    finally show ?thesis .
  qed
  then show ?thesis
    by (simp add: accountValueAt_def rows_of_account [OF assms] Balance_filter filter_filter conj_commute)
qed

text \<open>each point of the net-worth series is the net worth of the transactions dated before
  its cutoff; the first failing cutoff fails the series.\<close>

theorem NetWorthSeries_is_NetWorth_before:
  "NetWorthSeries accounts all cutoffs rates =
    foldE (\<lambda>out c. bindE (NetWorth accounts (filter (\<lambda>t. tx_Date t < c) all) rates)
      (\<lambda>(net, _, _). Inr (out @ [net]))) [] cutoffs"
proof -
  have "bindE (accumulateAccountTotals accounts rates
            (\<lambda>a. accountValueAt a all (map_get [] (accountValueRows accounts all strict_policy) (acc_ID a)) c) strict_policy)
          (\<lambda>res. Inr (out @ [nw_Net res])) =
        bindE (NetWorth accounts (filter (\<lambda>t. tx_Date t < c) all) rates) (\<lambda>(net, _, _). Inr (out @ [net]))"
    for c and out :: "Money list"
  proof -
    have "accumulateAccountTotals accounts rates
        (\<lambda>a. accountValueAt a all (map_get [] (accountValueRows accounts all strict_policy) (acc_ID a)) c) strict_policy =
      accumulateAccountTotals accounts rates (\<lambda>a. Balance a (filter (\<lambda>t. tx_Date t < c) all)) strict_policy"
      by (rule accumulate_cong) (rule accountValueAt_Balance)
    then show ?thesis
      by (cases "strictAccountTotals accounts (filter (\<lambda>t. tx_Date t < c) all) rates strict_policy")
        (simp_all add: NetWorth_def strictAccountTotals_def)
  qed
  then show ?thesis
    by (cases "cutoffs = []") (simp_all add: NetWorthSeries_def accountValueSeries_def)
qed

subsection \<open>Assets minus liabilities\<close>

lemma lift_Inr_iff [simp]: "lift_money r = Inr v \<longleftrightarrow> r = Inr v" "lift_currency c = Inr v \<longleftrightarrow> c = Inr v"
  by (simp_all add: lift_money_def lift_currency_def split: sum.split)

lemma Convert_i64:
  assumes "Convert r m to = Inr m'" "is_i64 (Amount m)"
  shows "is_i64 (Amount m')"
proof -
  have small: "is_i64 \<lfloor>f_rat x\<rfloor>" if "\<not> needs_exact x n b" for x n b
  proof (cases x)
    case (Fin y)
    then have "\<bar>y\<bar> < 4611686018427387904" using that by (simp add: needs_exact_def)
    then have "- 4611686018427387904 \<le> y" "y < 4611686018427387904" by linarith+
    then show ?thesis by (simp add: Fin is_i64_def le_floor_iff floor_le_iff)
  qed (use that in \<open>auto simp: needs_exact_def\<close>)
  show ?thesis
    using assms by (auto simp: Convert_def bindE_Inr_iff Let_def convertExact_eq New_def small split: if_splits)
qed

lemma Balance_i64:
  assumes "Balance a all = Inr b" "amounts_i64 all" "is_i64 (Amount (acc_OpeningBalance a))"
  shows "is_i64 (Amount b)"
proof -
  from assms(1) obtain o' where o: "openingBalance a = Inr o'" "foldE add_txn o' (filter (own a) all) = Inr b"
    by (auto simp: Balance_own bindE_Inr_iff)
  show ?thesis using foldE_add_txn_sum [OF o(2) openingBalance_i64 [OF o(1) assms(3)]] assms(2) by auto
qed

definition base_value :: "Transaction list \<Rightarrow> Rates \<Rightarrow> Account \<Rightarrow> ledger_error + Money" where
  "base_value all rates a = bindE (Balance a all) (\<lambda>b. lift_currency (Convert rates b (Base rates)))"

definition base_amount :: "Transaction list \<Rightarrow> Rates \<Rightarrow> Account \<Rightarrow> int" where
  "base_amount all rates a = (case base_value all rates a of Inl _ \<Rightarrow> 0 | Inr v \<Rightarrow> Amount v)"

lemma base_value_i64:
  assumes "base_value all rates a = Inr v" "amounts_i64 all" "is_i64 (Amount (acc_OpeningBalance a))"
  shows "is_i64 (Amount v)"
proof -
  from assms(1) obtain b where b: "Balance a all = Inr b" "Convert rates b (Base rates) = Inr v"
    by (auto simp: base_value_def bindE_Inr_iff)
  show ?thesis using Convert_i64 [OF b(2)] Balance_i64 [OF b(1) assms(2,3)] by simp
qed

lemma Money_Add_Inr:
  assumes "Money_Add m n = Inr s" "is_i64 (Amount m)" "is_i64 (Amount n)"
  shows "Amount s = Amount m + Amount n" "is_i64 (Amount s)"
  using assms by (auto simp: Money_Add_eq split: if_splits)

lemma AbsChecked_Inr:
  assumes "AbsChecked m = Inr v" "is_i64 (Amount m)"
  shows "Amount v = \<bar>Amount m\<bar>" "is_i64 (Amount v)"
  using assms by (auto simp: AbsChecked_def Abs_exact bindE_Inr_iff split: if_splits)

text \<open>What the strict loop has accumulated after the accounts \<open>as\<close>.\<close>

definition totals_of :: "Transaction list \<Rightarrow> Rates \<Rightarrow> Account list \<Rightarrow> NetWorthResult \<Rightarrow> bool" where
  "totals_of all rates as res \<longleftrightarrow>
     (let kept = filter (kept_by strict_policy) as in
      (\<forall>a \<in> set kept. \<exists>v. base_value all rates a = Inr v) \<and>
      is_i64 (Amount (nw_Assets res)) \<and> is_i64 (Amount (nw_Liabilities res)) \<and>
      Amount (nw_Assets res) = (\<Sum>a\<leftarrow>filter (\<lambda>a. acc_Class a \<noteq> ClassLiability) kept. base_amount all rates a) \<and>
      Amount (nw_Liabilities res) = (\<Sum>a\<leftarrow>filter (\<lambda>a. acc_Class a = ClassLiability) kept. \<bar>base_amount all rates a\<bar>))"

lemma totals_of_step:
  assumes "totals_of all rates as (fst st)" "totals_step rates (\<lambda>a. Balance a all) strict_policy st a = Inr st'"
    and "amounts_i64 all" "is_i64 (Amount (acc_OpeningBalance a))"
  shows "totals_of all rates (as @ [a]) (fst st')"
proof (cases "kept_by strict_policy a")
  case False
  then show ?thesis
    using assms(1,2) by (cases st) (auto simp: totals_of_def totals_step_def kept_by_def split: if_splits)
next
  case True
  obtain res missing where st: "st = (res, missing)" by (cases st)
  have "\<exists>v. base_value all rates a = Inr v"
  proof (cases "Balance a all")
    case (Inl e)
    then show ?thesis using assms(2) True by (auto simp: st totals_step_def kept_by_def)
  next
    case (Inr b)
    then show ?thesis using assms(2) True
      by (cases "Convert rates b (Base rates)") (auto simp: st totals_step_def kept_by_def base_value_def)
  qed
  then obtain v where v: "base_value all rates a = Inr v" by blast
  then have amt: "base_amount all rates a = Amount v" by (simp add: base_amount_def)
  from v obtain b where b: "Balance a all = Inr b" "Convert rates b (Base rates) = Inr v"
    by (auto simp: base_value_def bindE_Inr_iff)
  have i: "is_i64 (Amount v)" by (rule base_value_i64 [OF v assms(3,4)])
  show ?thesis
  proof (cases "acc_Class a = ClassLiability")
    case lia: True
    then obtain w l where w: "AbsChecked v = Inr w" "Money_Add (nw_Liabilities res) w = Inr l"
        "st' = (res\<lparr>nw_Liabilities := l\<rparr>, missing)"
      using assms(2) True b by (auto simp: st totals_step_def kept_by_def bindE_Inr_iff split: sum.splits)
    show ?thesis
      using assms(1) True lia v AbsChecked_Inr [OF w(1) i] Money_Add_Inr [OF w(2)]
      by (auto simp: totals_of_def Let_def st w(3) amt)
  next
    case ast: False
    then obtain l where w: "Money_Add (nw_Assets res) v = Inr l" "st' = (res\<lparr>nw_Assets := l\<rparr>, missing)"
      using assms(2) True b by (auto simp: st totals_step_def kept_by_def bindE_Inr_iff split: sum.splits)
    show ?thesis
      using assms(1) True ast v Money_Add_Inr [OF w(1)] i
      by (auto simp: totals_of_def Let_def st w(2) amt)
  qed
qed

lemma totals_of_fold:
  assumes "foldE (totals_step rates (\<lambda>a. Balance a all) strict_policy) st accounts = Inr st'"
    and "totals_of all rates as (fst st)" "amounts_i64 all" "\<forall>a \<in> set accounts. is_i64 (Amount (acc_OpeningBalance a))"
  shows "totals_of all rates (as @ accounts) (fst st')"
  using assms
proof (induction accounts arbitrary: st as)
  case (Cons a accounts)
  from Cons.prems(1) obtain s where s: "totals_step rates (\<lambda>a. Balance a all) strict_policy st a = Inr s"
      "foldE (totals_step rates (\<lambda>a. Balance a all) strict_policy) s accounts = Inr st'"
    by (auto simp: bindE_Inr_iff)
  have "totals_of all rates (as @ [a]) (fst s)"
    by (rule totals_of_step [OF Cons.prems(2) s(1) Cons.prems(3)]) (use Cons.prems(4) in simp)
  from Cons.IH [OF s(2) this Cons.prems(3)] Cons.prems(4) show ?case by simp
qed simp

text \<open>C28: when the net worth is returned, every kept account has a balance that converts to the
  base currency; assets are the exact sum of the converted asset balances, liabilities the exact
  sum of the magnitudes of the converted liability balances, and the net their difference.\<close>

theorem NetWorth_assets_minus_liabilities:
  assumes "NetWorth accounts all rates = Inr (net, assets, liabilities)"
    and "\<forall>t \<in> set all. is_i64 (Amount (tx_Amount t))"
    and "\<forall>a \<in> set accounts. is_i64 (Amount (acc_OpeningBalance a))"
  shows "(\<forall>a \<in> set (filter (kept_by strict_policy) accounts). \<exists>v. base_value all rates a = Inr v) \<and>
    Amount assets = (\<Sum>a\<leftarrow>filter (\<lambda>a. kept_by strict_policy a \<and> acc_Class a \<noteq> ClassLiability) accounts. base_amount all rates a) \<and>
    Amount liabilities = (\<Sum>a\<leftarrow>filter (\<lambda>a. kept_by strict_policy a \<and> acc_Class a = ClassLiability) accounts. \<bar>base_amount all rates a\<bar>) \<and>
    Amount net = Amount assets - Amount liabilities"
proof -
  from assms(1) obtain st where st: "foldE (totals_step rates (\<lambda>a. Balance a all) strict_policy) (totals_start rates) accounts = Inr st"
      "Money_Sub (nw_Assets (fst st)) (nw_Liabilities (fst st)) = Inr net"
      "assets = nw_Assets (fst st)" "liabilities = nw_Liabilities (fst st)"
    by (auto simp: NetWorth_def strictAccountTotals_def accumulateAccountTotals_def bindE_Inr_iff)
  have "totals_of all rates ([] @ accounts) (fst st)"
    by (rule totals_of_fold [OF st(1) _ assms(2,3)]) (simp add: totals_of_def totals_start_def Zero_def is_i64_def)
  moreover from this have "Amount net = Amount assets - Amount liabilities"
    using st(2) by (auto simp: st(3,4) totals_of_def Let_def Money_Sub_def Sub_exact bindE_Inr_iff split: if_splits)
  ultimately show ?thesis by (simp add: totals_of_def Let_def st(3,4) filter_filter conj_commute)
qed

lemma code_USD: "normalizeCode ''USD'' = ''USD''" "currency_normalize ''USD'' = ''USD''"
  by (simp_all add: normalizeCode_def currency_normalize_def trim_space_id is_graph_def to_upper_def to_upper_char_def)

lemma sample_net_worth:
  "NetWorth [Account_zero\<lparr>acc_Class := ClassAsset, acc_Currency := ''USD'', acc_OpeningBalance := \<lparr>Amount = 700, Currency = ''USD''\<rparr>\<rparr>,
             Account_zero\<lparr>acc_Class := ClassLiability, acc_Currency := ''USD'', acc_OpeningBalance := \<lparr>Amount = - 500, Currency = ''USD''\<rparr>\<rparr>]
      [] \<lparr>Base = ''USD'', rate_table = []\<rparr> =
    Inr (\<lparr>Amount = 200, Currency = ''USD''\<rparr>, \<lparr>Amount = 700, Currency = ''USD''\<rparr>, \<lparr>Amount = 500, Currency = ''USD''\<rparr>)"
  by (simp add: NetWorth_def strictAccountTotals_def accumulateAccountTotals_def totals_step_def totals_start_def
      CountsInNetWorth_def Account_zero_def Balance_def openingBalance_def Convert_same code_USD Zero_def
      Money_Add_eq Money_Sub_def Sub_exact AbsChecked_def Abs_exact is_i64_def)

lemma NetWorth_assets_minus_liabilities_witness:
  "Amount \<lparr>Amount = 200, Currency = ''USD''\<rparr> =
   Amount \<lparr>Amount = 700, Currency = ''USD''\<rparr> - Amount \<lparr>Amount = 500, Currency = ''USD''\<rparr>"
  by (rule NetWorth_assets_minus_liabilities [OF sample_net_worth, THEN conjunct2, THEN conjunct2, THEN conjunct2])
    (simp_all add: Account_zero_def is_i64_def)

subsection \<open>Ownership shares\<close>

lemma share_total_fold:
  assumes "\<forall>w \<in> set ws. 0 \<le> w" "0 \<le> acc" "acc + sum_list ws = 100"
  shows "foldE (\<lambda>tot weight. if weight < 0 \<or> weight > 100 then Inl (InSplit ErrInvalidWeights)
      else lift_money (Add tot weight)) acc ws = Inr 100"
  using assms
proof (induction ws arbitrary: acc)
  case (Cons w ws)
  have "0 \<le> sum_list ws" using Cons.prems(1) by (intro sum_list_nonneg) auto
  with Cons.prems have w: "0 \<le> w" "w \<le> 100" "acc \<le> 100" "acc + w \<le> 100" by auto
  then have "Add acc w = Inr (acc + w)" using Cons.prems(2) by (subst Add_exact) (auto simp: is_i64_def)
  with Cons w show ?case by simp
qed simp

lemma sum_over_sorted_keys:
  fixes shares :: "(string, int) go_map"
  assumes "map_ok shares"
  shows "sum_list (map (map_get 0 shares) (sort (map fst shares))) = sum_list (map snd shares)"
    and "set (map (map_get 0 shares) (sort (map fst shares))) = snd ` set shares"
proof -
  have g: "map (map_get 0 shares) (map fst shares) = map snd shares"
    using assms by (auto simp: map_get_present)
  have m: "mset (map (map_get 0 shares) (sort (map fst shares))) = mset (map snd shares)"
    unfolding g [symmetric] mset_map mset_sort ..
  from arg_cong [OF m, of sum_mset] show "sum_list (map (map_get 0 shares) (sort (map fst shares))) = sum_list (map snd shares)"
    by (simp only: sum_mset_sum_list)
  from arg_cong [OF m, of set_mset] show "set (map (map_get 0 shares) (sort (map fst shares))) = snd ` set shares"
    by (simp only: set_mset_mset set_map)
qed

lemma put_all_fresh:
  assumes "distinct (map fst out @ ks)" "length ks = length ps"
  shows "foldl (\<lambda>out (k, p). map_put k p out) out (zip ks ps) = out @ zip ks ps"
  using assms(2,1)
proof (induction ks ps arbitrary: out rule: list_induct2)
  case (Cons k ks p ps)
  have "k \<notin> fst ` set out" using Cons.prems by auto
  then have put: "map_put k p out = out @ [(k, p)]" by (induction out) auto
  show ?case using Cons.IH [of "out @ [(k, p)]"] Cons.prems by (simp add: put)
qed simp

text \<open>with nonnegative shares that total 100, \<open>SplitBySharesChecked\<close> never panics or fails:
  it returns one part for each owner and the parts add up to the amount, whatever its sign and
  however the map of shares is ordered.\<close>

theorem SplitBySharesChecked_exact:
  assumes "map_ok shares" "\<forall>w \<in> snd ` set shares. 0 \<le> w" "sum_list (map snd shares) = 100" "is_i64 amountMinor"
  shows "\<exists>parts. SplitBySharesChecked amountMinor shares = Some (Inr parts) \<and> map_ok parts \<and>
    map fst parts = sort (map fst shares) \<and> sum_list (map snd parts) = amountMinor"
proof -
  let ?ids = "sort (map fst shares)" and ?ws = "map (map_get 0 shares) (sort (map fst shares))"
  have ne: "shares \<noteq> []" using assms(3) by auto
  have nn: "\<forall>w \<in> set ?ws. 0 \<le> w" and tot: "sum_list ?ws = 100"
    using assms(2,3) sum_over_sorted_keys [OF assms(1)] by simp_all
  have i: "\<forall>w \<in> set ?ws. is_i64 w"
    using weight_le_sum [OF nn] nn tot by (fastforce simp: is_i64_def)
  obtain parts where parts: "Allocate amountMinor ?ws = Some (Inr parts)"
    using money.alloc_valid [OF nn _ _ assms(4)] by (auto simp: tot is_i64_def)
  have len: "length ?ids = length parts" and sum: "sum_list parts = amountMinor"
    using money.alloc_shares [OF i assms(4) parts] by simp_all
  have fold: "foldE (\<lambda>tot weight. if weight < 0 \<or> weight > 100 then Inl (InSplit ErrInvalidWeights)
      else lift_money (Add tot weight)) 0 ?ws = Inr 100"
    by (rule share_total_fold) (use nn tot in auto)
  have "SplitBySharesChecked amountMinor shares = Some (Inr (zip ?ids parts))"
    using ne put_all_fresh [of "[]" ?ids parts] assms(1) len fold parts
    by (simp add: SplitBySharesChecked_def Let_def)
  then show ?thesis using len assms(1) sum by (intro exI [of _ "zip ?ids parts"]) simp
qed

lemma SplitBySharesChecked_exact_witness:
  "\<exists>parts. SplitBySharesChecked (- 101) [(''zoe'', 60), (''ann'', 40)] = Some (Inr parts) \<and> sum_list (map snd parts) = - 101"
  using SplitBySharesChecked_exact [of "[(''zoe'', 60), (''ann'', 40)]" "- 101"] by (auto simp: is_i64_def)

end
