(* ===== verification/Clock.thy ===== *)
theory Clock
  imports Go_Prelude "HOL-Library.Word"
begin

text \<open>
  File \<open>internal/changes/hlc.go\<close>: hybrid logical clocks and the stamps every merge decision
  compares. A clock reading takes the physical time as an argument; the mutex makes each call one
  step. Shows that the two \<open>Compare\<close> methods are the lexicographic linear orders, and that along
  every run of a clock the issued readings strictly increase, exceed everything observed within
  the drift bound, and never outrun it by more than the one-millisecond spill.
\<close>

subsection \<open>Readings and stamps\<close>

datatype HLC = HLC (WallMillis: int) (Logical: "32 word")

definition HLC_Compare :: "HLC \<Rightarrow> HLC \<Rightarrow> int" where
  "HLC_Compare h q =
     (if WallMillis h \<noteq> WallMillis q then (if WallMillis h < WallMillis q then - 1 else 1)
      else if Logical h \<noteq> Logical q then (if Logical h < Logical q then - 1 else 1)
      else 0)"

definition HLC_IsZero :: "HLC \<Rightarrow> bool" where "HLC_IsZero h \<longleftrightarrow> h = HLC 0 0"

datatype Stamp = Stamp (stamp_HLC: HLC) (stamp_DeviceID: string)

definition strings_Compare :: "string \<Rightarrow> string \<Rightarrow> int" where
  "strings_Compare a b = (if a = b then 0 else if a < b then - 1 else 1)"

definition Stamp_Compare :: "Stamp \<Rightarrow> Stamp \<Rightarrow> int" where
  "Stamp_Compare s q =
     (let c = HLC_Compare (stamp_HLC s) (stamp_HLC q)
      in if c \<noteq> 0 then c else strings_Compare (stamp_DeviceID s) (stamp_DeviceID q))"

definition Before :: "Stamp \<Rightarrow> Stamp \<Rightarrow> bool" where "Before s q \<longleftrightarrow> Stamp_Compare s q < 0"
definition After :: "Stamp \<Rightarrow> Stamp \<Rightarrow> bool" where "After s q \<longleftrightarrow> Stamp_Compare s q > 0"

definition Stamp_IsZero :: "Stamp \<Rightarrow> bool" where
  "Stamp_IsZero s \<longleftrightarrow> HLC_IsZero (stamp_HLC s) \<and> stamp_DeviceID s = []"

text \<open>The orders the comparisons implement, as instances of the library's class.\<close>

instantiation HLC :: linorder
begin

definition less_eq_HLC :: "HLC \<Rightarrow> HLC \<Rightarrow> bool" where
  "h \<le> q \<longleftrightarrow> WallMillis h < WallMillis q \<or> WallMillis h = WallMillis q \<and> Logical h \<le> Logical q"

definition less_HLC :: "HLC \<Rightarrow> HLC \<Rightarrow> bool" where
  "h < q \<longleftrightarrow> h \<le> q \<and> \<not> q \<le> (h :: HLC)"

instance
  by standard (auto simp: less_eq_HLC_def less_HLC_def intro: HLC.expand)

end

instantiation Stamp :: linorder
begin

definition less_eq_Stamp :: "Stamp \<Rightarrow> Stamp \<Rightarrow> bool" where
  "s \<le> q \<longleftrightarrow> stamp_HLC s < stamp_HLC q \<or> stamp_HLC s = stamp_HLC q \<and> stamp_DeviceID s \<le> stamp_DeviceID q"

definition less_Stamp :: "Stamp \<Rightarrow> Stamp \<Rightarrow> bool" where
  "s < q \<longleftrightarrow> s \<le> q \<and> \<not> q \<le> (s :: Stamp)"

instance
  by standard (auto simp: less_eq_Stamp_def less_Stamp_def intro: Stamp.expand)

end

lemma HLC_less_iff: "h < q \<longleftrightarrow> WallMillis h < WallMillis q \<or> WallMillis h = WallMillis q \<and> Logical h < Logical q"
  by (auto simp: less_HLC_def less_eq_HLC_def)

lemma HLC_Compare_order: "HLC_Compare h q = (if h = q then 0 else if h < q then - 1 else 1)"
  by (auto simp: HLC_Compare_def HLC_less_iff intro: HLC.expand)

lemma Stamp_less_iff:
  "s < q \<longleftrightarrow> stamp_HLC s < stamp_HLC q \<or> stamp_HLC s = stamp_HLC q \<and> stamp_DeviceID s < stamp_DeviceID q"
  by (auto simp: less_Stamp_def less_eq_Stamp_def)

lemma Stamp_Compare_order: "Stamp_Compare s q = (if s = q then 0 else if s < q then - 1 else 1)"
  by (auto simp: Stamp_Compare_def HLC_Compare_order strings_Compare_def Stamp_less_iff intro: Stamp.expand)

lemma Before_less [simp]: "Before s q \<longleftrightarrow> s < q"
  by (auto simp: Before_def Stamp_Compare_order)

lemma After_less [simp]: "After s q \<longleftrightarrow> q < s"
  by (auto simp: After_def Stamp_Compare_order)

subsection \<open>The clock\<close>

record Clock =
  maxSkewMs :: int
  last_reading :: HLC
  skewEvents :: "64 word"

definition DefaultMaxSkew :: int where "DefaultMaxSkew = 24 * 3600 * 1000000000"

definition NewClock :: "int \<Rightarrow> HLC \<Rightarrow> Clock" where
  "NewClock MaxSkew Initial =
     (let skew = (if MaxSkew \<le> 0 then DefaultMaxSkew else MaxSkew)
      in \<lparr>maxSkewMs = skew sdiv 1000000, last_reading = Initial, skewEvents = 0\<rparr>)"

definition nextAfter :: "int \<Rightarrow> 32 word \<Rightarrow> HLC" where
  "nextAfter wall logical = (if logical = - 1 then HLC (wrap64 (wall + 1)) 0 else HLC wall (logical + 1))"

definition nextLogical :: "HLC \<Rightarrow> HLC" where
  "nextLogical h = nextAfter (WallMillis h) (Logical h)"

definition Clock_Now :: "Clock \<Rightarrow> int \<Rightarrow> Clock \<times> HLC" where
  "Clock_Now c pt =
     (let next = (if pt > WallMillis (last_reading c) then HLC pt 0 else nextLogical (last_reading c))
      in (c\<lparr>last_reading := next\<rparr>, next))"

definition max64 :: "int \<Rightarrow> int list \<Rightarrow> int" where
  "max64 v rest = foldl (\<lambda>v r. if r > v then r else v) v rest"

definition max32 :: "32 word \<Rightarrow> 32 word \<Rightarrow> 32 word" where
  "max32 a b = (if b > a then b else a)"

text \<open>\<open>Observe\<close>: the new clock, its reading, and whether the remote reading was clamped (\<open>ErrClockSkew\<close>).\<close>

definition Observe :: "Clock \<Rightarrow> int \<Rightarrow> HLC \<Rightarrow> Clock \<times> HLC \<times> bool" where
  "Observe c pt remote =
     (let limit = wrap64 (pt + maxSkewMs c);
          clamped = (WallMillis remote > limit);
          effective = (if clamped then HLC limit (Logical remote) else remote);
          prev = last_reading c;
          wall = max64 (WallMillis prev) [WallMillis effective, pt];
          next = (if wall = WallMillis prev \<and> wall = WallMillis effective
                    then nextAfter wall (max32 (Logical prev) (Logical effective))
                  else if wall = WallMillis prev then nextLogical prev
                  else if wall = WallMillis effective then nextAfter wall (Logical effective)
                  else HLC wall 0)
      in (c\<lparr>last_reading := next, skewEvents := (if clamped then skewEvents c + 1 else skewEvents c)\<rparr>, next, clamped))"

lemma max64_max: "max64 a [b, c] = max a (max b c)"
  by (auto simp: max64_def)

lemma max32_max: "max32 a b = max a b"
  by (auto simp: max32_def)

lemma word_less_succ: "x \<noteq> - 1 \<Longrightarrow> x < x + (1 :: 32 word)"
proof -
  assume "x \<noteq> - 1"
  then have "1 + x \<noteq> 0" by (metis add.commute add_eq_0_iff)
  from unatSuc [OF this] show ?thesis by (simp add: word_less_nat_alt add.commute)
qed

lemma nextAfter_facts:
  assumes "is_i64 wall" "wall < max_i64"
  shows "HLC wall l < nextAfter wall l" "wall \<le> WallMillis (nextAfter wall l)" "WallMillis (nextAfter wall l) \<le> wall + 1"
proof -
  have i: "is_i64 (wall + 1)" using assms by (simp add: is_i64_def)
  show "HLC wall l < nextAfter wall l" "wall \<le> WallMillis (nextAfter wall l)" "WallMillis (nextAfter wall l) \<le> wall + 1"
    using word_less_succ [of l] by (simp_all add: nextAfter_def HLC_less_iff i)
qed

lemma nextLogical_facts:
  assumes "is_i64 (WallMillis h)" "WallMillis h < max_i64"
  shows "h < nextLogical h" "WallMillis h \<le> WallMillis (nextLogical h)" "WallMillis (nextLogical h) \<le> WallMillis h + 1"
  using nextAfter_facts [OF assms, of "Logical h"] by (simp_all add: nextLogical_def)

lemma Clock_Now_facts:
  assumes "Clock_Now c pt = (c', h)" "is_i64 (WallMillis (last_reading c))" "WallMillis (last_reading c) < max_i64"
  shows "last_reading c' = h" "last_reading c < h" "maxSkewMs c' = maxSkewMs c"
    and "WallMillis h \<le> max pt (WallMillis (last_reading c) + 1)" "pt \<le> WallMillis h"
  using assms(1) nextLogical_facts [OF assms(2,3)]
  by (auto simp: Clock_Now_def Let_def HLC_less_iff split: if_splits)

lemma Observe_facts:
  assumes "Observe c pt remote = (c', h, clamped)" "is_i64 (pt + maxSkewMs c)" "0 \<le> maxSkewMs c"
    and "is_i64 pt" "is_i64 (WallMillis (last_reading c))" "WallMillis (last_reading c) < max_i64"
    and "is_i64 (WallMillis remote)" "pt + maxSkewMs c < max_i64"
  shows "last_reading c' = h" "last_reading c < h" "maxSkewMs c' = maxSkewMs c"
    and "clamped \<longleftrightarrow> WallMillis remote > pt + maxSkewMs c"
    and "\<not> clamped \<Longrightarrow> remote < h"
    and "clamped \<Longrightarrow> HLC (pt + maxSkewMs c) (Logical remote) < h"
    and "WallMillis h \<le> max (WallMillis (last_reading c)) (pt + maxSkewMs c) + 1"
proof -
  define limit where "limit = pt + maxSkewMs c"
  define eff where "eff = (if WallMillis remote > limit then HLC limit (Logical remote) else remote)"
  define prev where "prev = last_reading c"
  define wall where "wall = max (WallMillis prev) (max (WallMillis eff) pt)"
  have eff: "WallMillis eff \<le> limit" by (simp add: eff_def)
  have wall: "is_i64 wall" "wall < max_i64" "wall \<le> max (WallMillis prev) limit"
    "WallMillis prev \<le> wall" "WallMillis eff \<le> wall" "pt \<le> wall"
    using assms eff by (auto simp: wall_def prev_def limit_def is_i64_def)
  note after = nextAfter_facts [OF wall(1,2)]
  have h: "h = (if wall = WallMillis prev \<and> wall = WallMillis eff
                    then nextAfter wall (max (Logical prev) (Logical eff))
                  else if wall = WallMillis prev then nextLogical prev
                  else if wall = WallMillis eff then nextAfter wall (Logical eff)
                  else HLC wall 0)"
      and c': "last_reading c' = h" "maxSkewMs c' = maxSkewMs c" "clamped \<longleftrightarrow> WallMillis remote > limit"
    using assms(1,2) by (auto simp: Observe_def Let_def max64_max max32_max wall_def eff_def prev_def limit_def)
  have "prev < h \<and> eff < h \<and> WallMillis h \<le> wall + 1"
  proof (cases "wall = WallMillis prev \<and> wall = WallMillis eff")
    case True
    have "prev \<le> HLC wall (max (Logical prev) (Logical eff))" "eff \<le> HLC wall (max (Logical prev) (Logical eff))"
      using True by (auto simp: less_eq_HLC_def)
    then show ?thesis using after [of "max (Logical prev) (Logical eff)"] True by (auto simp: h)
  next
    case False
    then consider "wall = WallMillis prev" "WallMillis eff < wall" | "WallMillis prev < wall" "wall = WallMillis eff"
      | "WallMillis prev < wall" "WallMillis eff < wall"
      using wall(4,5) by linarith
    then show ?thesis
      using after [of "Logical prev"] after [of "Logical eff"] wall
      by cases (auto simp: h nextLogical_def HLC_less_iff)
  qed
  then show "last_reading c < h" "\<not> clamped \<Longrightarrow> remote < h" "clamped \<Longrightarrow> HLC (pt + maxSkewMs c) (Logical remote) < h"
    "WallMillis h \<le> max (WallMillis (last_reading c)) (pt + maxSkewMs c) + 1"
    using wall(3) c'(3) by (auto simp: prev_def eff_def limit_def split: if_splits)
  show "last_reading c' = h" "maxSkewMs c' = maxSkewMs c" "clamped \<longleftrightarrow> WallMillis remote > pt + maxSkewMs c"
    using c' by (simp_all add: limit_def)
qed

subsection \<open>Runs of a clock\<close>

text \<open>
  A run interleaves \<open>Now\<close> and \<open>Observe\<close> calls with arbitrary physical readings, going backwards
  included. The log holds the issued and the accepted (not clamped) observed readings, newest
  first, each with whether it was issued here. The guards keep the wall component within int64:
  292 million years of milliseconds.
\<close>

definition in_range :: "Clock \<Rightarrow> int \<Rightarrow> bool" where
  "in_range c pt \<longleftrightarrow> is_i64 pt \<and> is_i64 (WallMillis (last_reading c)) \<and> WallMillis (last_reading c) < max_i64 \<and>
     is_i64 (pt + maxSkewMs c) \<and> pt + maxSkewMs c < max_i64"

inductive clock_step :: "Clock \<times> (bool \<times> HLC) list \<Rightarrow> Clock \<times> (bool \<times> HLC) list \<Rightarrow> bool" where
  issue: "in_range c pt \<Longrightarrow> Clock_Now c pt = (c', h) \<Longrightarrow> clock_step (c, log) (c', (True, h) # log)"
| observe: "in_range c pt \<Longrightarrow> is_i64 (WallMillis remote) \<Longrightarrow> Observe c pt remote = (c', h, clamped) \<Longrightarrow>
    clock_step (c, log) (c', (if clamped then log else (False, remote) # log))"

inductive_cases clock_stepE: "clock_step (c, log) s"

inductive clock_run :: "Clock \<Rightarrow> Clock \<times> (bool \<times> HLC) list \<Rightarrow> bool" for c0 where
  start: "clock_run c0 (c0, [])"
| step: "clock_run c0 s \<Longrightarrow> clock_step s s' \<Longrightarrow> clock_run c0 s'"

definition clock_inv :: "Clock \<times> (bool \<times> HLC) list \<Rightarrow> bool" where
  "clock_inv s \<longleftrightarrow> 0 \<le> maxSkewMs (fst s) \<and> (\<forall>p \<in> set (snd s). snd p \<le> last_reading (fst s)) \<and>
     sorted_wrt (\<lambda>p q. fst p \<longrightarrow> snd q < snd p) (snd s)"

lemma clock_inv_step: "clock_step s s' \<Longrightarrow> clock_inv s \<Longrightarrow> clock_inv s'"
proof (induction rule: clock_step.induct)
  case (issue c pt c' h log)
  then have "last_reading c < h" "last_reading c' = h" "maxSkewMs c' = maxSkewMs c"
    using Clock_Now_facts [OF issue(2)] by (simp_all add: in_range_def)
  then show ?case using issue(3) by (auto simp: clock_inv_def)
next
  case (observe c pt remote c' h clamped log)
  note facts = Observe_facts [OF observe(3)]
  have "last_reading c < last_reading c'" "maxSkewMs c' = maxSkewMs c" "\<not> clamped \<Longrightarrow> remote < last_reading c'"
    using facts observe by (simp_all add: in_range_def clock_inv_def)
  then show ?case using observe(4) by (auto simp: clock_inv_def)
qed

lemma clock_inv_run: "clock_run c0 s \<Longrightarrow> 0 \<le> maxSkewMs c0 \<Longrightarrow> clock_inv s"
  by (induction rule: clock_run.induct) (auto simp: clock_inv_step, simp add: clock_inv_def)

lemma NewClock_skew: "0 \<le> maxSkewMs (NewClock MaxSkew Initial)"
  by (simp add: NewClock_def Let_def sdiv_pos DefaultMaxSkew_def pos_imp_zdiv_nonneg_iff)

text \<open>C27: in every run of a clock, however the physical clock moves, each issued reading is
  strictly greater than every reading issued before it and than every remote reading accepted
  before it, and the clock is at least all of them.\<close>

theorem Clock_issues_increase:
  assumes "clock_run (NewClock MaxSkew Initial) (c, log)"
  shows "sorted_wrt (\<lambda>p q. fst p \<longrightarrow> snd q < snd p) log \<and> (\<forall>p \<in> set log. snd p \<le> last_reading c)"
  using clock_inv_run [OF assms NewClock_skew] by (simp add: clock_inv_def)

lemma Clock_issues_increase_witness:
  "HLC 5 0 < HLC 5 1"
proof -
  let ?c = "NewClock 1000000 (HLC 0 0)"
  have "clock_run ?c (?c\<lparr>last_reading := HLC 5 0\<rparr>, [(True, HLC 5 0)])"
    by (rule clock_run.step [OF clock_run.start clock_step.issue [of _ 5]])
      (simp_all add: in_range_def NewClock_def is_i64_def signed_divide_int_def Clock_Now_def Let_def)
  then have "clock_run ?c (?c\<lparr>last_reading := HLC 5 1\<rparr>, [(True, HLC 5 1), (True, HLC 5 0)])"
    by (rule clock_run.step [OF _ clock_step.issue [of _ 3]])
      (simp_all add: in_range_def NewClock_def is_i64_def signed_divide_int_def Clock_Now_def Let_def nextLogical_def nextAfter_def)
  from Clock_issues_increase [OF this] show ?thesis by simp
qed

text \<open>observing a remote reading always advances the clock past its own last reading; it
  reports a skew exactly when the remote wall time is beyond the bound, orders after the remote
  reading otherwise and after its clamped form when clamped, and never moves the wall time more
  than one millisecond past the later of its own and the bound.\<close>

theorem Observe_bounded_drift:
  assumes "Observe c pt remote = (c', h, clamped)" "in_range c pt" "0 \<le> maxSkewMs c" "is_i64 (WallMillis remote)"
  shows "last_reading c' = h \<and> last_reading c < h \<and> (clamped \<longleftrightarrow> pt + maxSkewMs c < WallMillis remote) \<and>
    (\<not> clamped \<longrightarrow> remote < h) \<and> (clamped \<longrightarrow> HLC (pt + maxSkewMs c) (Logical remote) < h) \<and>
    WallMillis h \<le> max (WallMillis (last_reading c)) (pt + maxSkewMs c) + 1"
  using Observe_facts [OF assms(1)] assms(2-4) by (simp add: in_range_def)

text \<open>The bound is really passed by one millisecond when the logical counter spills.\<close>

lemma Observe_spill: "Observe (NewClock 10000000 (HLC 0 0)) 0 (HLC 10 (- 1)) =
    ((NewClock 10000000 (HLC 0 0))\<lparr>last_reading := HLC 11 0\<rparr>, HLC 11 0, False)"
  by (simp add: Observe_def Let_def NewClock_def max64_def max32_def nextAfter_def signed_divide_int_def is_i64_def)

lemma Observe_bounded_drift_witness:
  "HLC 10 (- 1) < HLC 11 0 \<and> WallMillis (HLC 11 0) \<le> max 0 10 + 1"
  using Observe_bounded_drift [OF Observe_spill]
  by (simp add: in_range_def NewClock_def is_i64_def signed_divide_int_def)

end
