(* ===== verification/Replica.thy ===== *)
theory Replica
  imports Clock "HOL-Library.Finite_Map" "HOL-Library.Product_Lexorder"
begin

text \<open>
  Files \<open>internal/changes/batch.go\<close>, \<open>validate.go\<close> and \<open>state.go\<close>: change batches, their
  validation, and the replicated state they are merged into. A Go map of records or of field
  clocks is an \<open>fmap\<close>; the fields of an operation are an association list in the order the run
  ranges over them. \<open>json.Valid\<close> is the validator of theory \<open>Json\<close>.
\<close>

subsection \<open>Batches\<close>

datatype change_error = ErrInvalidBatch | ErrNewerSchema | ErrScopeMismatch | ErrInvalidDocument

record ChangeScope =
  ServerID :: string
  AccountID :: string

definition Scope_IsZero :: "ChangeScope \<Rightarrow> bool" where
  "Scope_IsZero s \<longleftrightarrow> ServerID s = [] \<and> AccountID s = []"

record ChangeOp =
  op_Table :: string
  op_RecordID :: string
  op_Fields :: "(string, string) go_map"
  op_Removed :: "string list"
  op_Deleted :: bool

record Batch =
  ChangeID :: string
  bt_Scope :: ChangeScope
  bt_WorkspaceID :: string
  bt_DeviceID :: string
  bt_HLC :: HLC
  SchemaVersion :: int
  Ops :: "ChangeOp list"

definition Batch_Stamp :: "Batch \<Rightarrow> Stamp" where
  "Batch_Stamp b = Stamp (bt_HLC b) (bt_DeviceID b)"

subsection \<open>Merge state\<close>

type_synonym recordKey = "string \<times> string"

record fieldState =
  fs_value :: string
  fs_stamp :: Stamp
  fs_deleted :: bool

record recordState =
  rs_fields :: "(string, fieldState) fmap"
  rs_tombstone :: Stamp
  rs_hasTomb :: bool
  rs_alive :: Stamp
  rs_hasAlive :: bool

definition zero_stamp :: Stamp where "zero_stamp = Stamp (HLC 0 0) []"

definition empty_record :: recordState where
  "empty_record = \<lparr>rs_fields = fmempty, rs_tombstone = zero_stamp, rs_hasTomb = False,
     rs_alive = zero_stamp, rs_hasAlive = False\<rparr>"

definition tieBreakWins :: "string \<Rightarrow> bool \<Rightarrow> fieldState \<Rightarrow> bool" where
  "tieBreakWins raw removed existing =
     (if removed \<and> fs_deleted existing then False
      else if removed then False
      else if fs_deleted existing then True
      else strings_Compare raw (fs_value existing) > 0)"

definition covered :: "recordState \<Rightarrow> Stamp \<Rightarrow> bool" where
  "covered r stamp \<longleftrightarrow> rs_hasTomb r \<and> \<not> After stamp (rs_tombstone r)"

definition applyDelete :: "recordState \<Rightarrow> Stamp \<Rightarrow> recordState" where
  "applyDelete r stamp =
     (if covered r stamp then r
      else r\<lparr>rs_tombstone := stamp, rs_hasTomb := True,
             rs_fields := fmfilter (\<lambda>name. case fmlookup (rs_fields r) name of
                 None \<Rightarrow> False | Some f \<Rightarrow> After (fs_stamp f) stamp) (rs_fields r)\<rparr>)"

definition applyFieldWrite :: "recordState \<Rightarrow> string \<Rightarrow> string \<Rightarrow> Stamp \<Rightarrow> bool \<Rightarrow> recordState" where
  "applyFieldWrite r name raw stamp removed =
     (if covered r stamp then r
      else
        let next = \<lparr>fs_value = (if removed then [] else raw), fs_stamp = stamp, fs_deleted = removed\<rparr> in
        case fmlookup (rs_fields r) name of
          None \<Rightarrow> r\<lparr>rs_fields := fmupd name next (rs_fields r)\<rparr>
        | Some existing \<Rightarrow>
            if Before stamp (fs_stamp existing) then r
            else if stamp = fs_stamp existing \<and> \<not> tieBreakWins raw removed existing then r
            else r\<lparr>rs_fields := fmupd name next (rs_fields r)\<rparr>)"

definition mark_alive :: "recordState \<Rightarrow> Stamp \<Rightarrow> recordState" where
  "mark_alive r stamp =
     (if \<not> rs_hasAlive r \<or> After stamp (rs_alive r) then r\<lparr>rs_alive := stamp, rs_hasAlive := True\<rparr> else r)"

type_synonym records = "(recordKey, recordState) fmap"

definition record_at :: "records \<Rightarrow> recordKey \<Rightarrow> recordState" where
  "record_at rs key = (case fmlookup rs key of None \<Rightarrow> empty_record | Some r \<Rightarrow> r)"

definition op_on_record :: "ChangeOp \<Rightarrow> Stamp \<Rightarrow> recordState \<Rightarrow> recordState" where
  "op_on_record op stamp r =
     (if op_Deleted op then applyDelete r stamp
      else
        let r = mark_alive r stamp;
            r = foldl (\<lambda>r (name, raw). applyFieldWrite r name raw stamp False) r (op_Fields op)
        in foldl (\<lambda>r name. applyFieldWrite r name [] stamp True) r (op_Removed op))"

definition applyOp :: "Stamp \<Rightarrow> records \<Rightarrow> ChangeOp \<Rightarrow> records" where
  "applyOp stamp rs op =
     (let key = (op_Table op, op_RecordID op) in fmupd key (op_on_record op stamp (record_at rs key)) rs)"

subsection \<open>The merge is a join\<close>

text \<open>
  The elementary updates of a record. Each is idempotent and any two commute, on every record
  state; a batch is a sequence of them.
\<close>

datatype atom = ADelete Stamp | AAlive Stamp | AWrite string fieldState

fun run_atom :: "atom \<Rightarrow> recordState \<Rightarrow> recordState" where
  "run_atom (ADelete s) r = applyDelete r s"
| "run_atom (AAlive s) r = mark_alive r s"
| "run_atom (AWrite name e) r = applyFieldWrite r name (fs_value e) (fs_stamp e) (fs_deleted e)"

declare run_atom.simps [simp del]

definition normal_entry :: "fieldState \<Rightarrow> bool" where
  "normal_entry e \<longleftrightarrow> (fs_deleted e \<longrightarrow> fs_value e = [])"

fun normal_atom :: "atom \<Rightarrow> bool" where
  "normal_atom (AWrite name e) = normal_entry e"
| "normal_atom _ = True"

text \<open>The order in which a field entry wins over another.\<close>

definition entry_key :: "fieldState \<Rightarrow> Stamp \<times> bool \<times> string" where
  "entry_key e = (fs_stamp e, \<not> fs_deleted e, if fs_deleted e then [] else fs_value e)"

lemma entry_key_inj: "normal_entry e \<Longrightarrow> normal_entry e' \<Longrightarrow> entry_key e = entry_key e' \<Longrightarrow> e = e'"
  by (auto simp: entry_key_def normal_entry_def split: if_splits intro: fieldState.equality)

definition join_entry :: "fieldState option \<Rightarrow> fieldState \<Rightarrow> fieldState" where
  "join_entry f e = (case f of None \<Rightarrow> e | Some f \<Rightarrow> if entry_key f < entry_key e then e else f)"

lemma run_write:
  assumes "normal_entry e"
  shows "run_atom (AWrite name e) r =
    (if covered r (fs_stamp e) then r
     else r\<lparr>rs_fields := fmupd name (join_entry (fmlookup (rs_fields r) name) e) (rs_fields r)\<rparr>)"
proof -
  have e: "\<lparr>fs_value = (if fs_deleted e then [] else fs_value e), fs_stamp = fs_stamp e, fs_deleted = fs_deleted e\<rparr> = e"
    using assms by (auto simp: normal_entry_def)
  have keep: "fmupd name f (rs_fields r) = rs_fields r" if "fmlookup (rs_fields r) name = Some f" for f
    using that by (intro fmap_ext) auto
  show ?thesis
  proof (cases "fmlookup (rs_fields r) name")
    case None
    then show ?thesis by (simp add: run_atom.simps applyFieldWrite_def e join_entry_def)
  next
    case (Some f)
    have "(entry_key f < entry_key e) \<longleftrightarrow>
        \<not> (fs_stamp e < fs_stamp f \<or> fs_stamp e = fs_stamp f \<and> \<not> tieBreakWins (fs_value e) (fs_deleted e) f)"
      by (auto simp: entry_key_def tieBreakWins_def strings_Compare_def)
    then show ?thesis
      using Some keep [OF Some] by (auto simp: run_atom.simps applyFieldWrite_def e join_entry_def)
  qed
qed

lemma join_entry_idem: "join_entry (Some (join_entry f e)) e = join_entry f e"
  by (auto simp: join_entry_def split: option.splits)

lemma join_entry_commute:
  assumes "normal_entry e" "normal_entry e'"
  shows "join_entry (Some (join_entry f e)) e' = join_entry (Some (join_entry f e')) e"
  using entry_key_inj [OF assms] by (auto simp: join_entry_def not_less split: option.splits)

lemma covered_fields [simp]: "covered (r\<lparr>rs_fields := fs\<rparr>) s = covered r s"
  "covered (r\<lparr>rs_alive := a, rs_hasAlive := h\<rparr>) s = covered r s"
  by (simp_all add: covered_def)

lemma covered_iff: "covered r s \<longleftrightarrow> rs_hasTomb r \<and> s \<le> rs_tombstone r"
  by (auto simp: covered_def not_less)

lemma covered_mono: "covered r q \<Longrightarrow> s \<le> q \<Longrightarrow> covered r s"
  by (auto simp: covered_iff)

text \<open>What a delete leaves of a field.\<close>

definition survives :: "fieldState option \<Rightarrow> Stamp \<Rightarrow> fieldState option" where
  "survives f s = (case f of None \<Rightarrow> None | Some f \<Rightarrow> if s < fs_stamp f then Some f else None)"

lemma delete_lookup: "fmlookup (rs_fields (applyDelete r s)) name =
    (if covered r s then fmlookup (rs_fields r) name else survives (fmlookup (rs_fields r) name) s)"
  by (auto simp: applyDelete_def survives_def split: option.splits)

lemma delete_tomb: "rs_hasTomb (applyDelete r s)" "rs_tombstone (applyDelete r s) = (if covered r s then rs_tombstone r else s)"
  "rs_alive (applyDelete r s) = rs_alive r" "rs_hasAlive (applyDelete r s) = rs_hasAlive r"
  by (auto simp: applyDelete_def covered_def)

lemma covered_delete: "covered (applyDelete r s) q \<longleftrightarrow> covered r q \<or> q \<le> s"
  by (auto simp: covered_iff delete_tomb)

lemma record_eqI:
  assumes "\<And>name. fmlookup (rs_fields r) name = fmlookup (rs_fields r') name"
    "rs_tombstone r = rs_tombstone r'" "rs_hasTomb r = rs_hasTomb r'"
    "rs_alive r = rs_alive r'" "rs_hasAlive r = rs_hasAlive r'"
  shows "r = (r' :: recordState)"
  using assms by (intro recordState.equality) (auto intro: fmap_ext)

lemma delete_commute: "applyDelete (applyDelete r s) q = applyDelete (applyDelete r q) s"
  by (rule record_eqI)
    (auto simp: delete_lookup delete_tomb covered_delete covered_iff survives_def split: option.splits)

lemma delete_idem: "applyDelete (applyDelete r s) s = applyDelete r s"
  by (simp add: applyDelete_def [of "applyDelete r s"] covered_delete)

lemma write_lookup:
  assumes "normal_entry e"
  shows "fmlookup (rs_fields (run_atom (AWrite n e) r)) name =
    (if covered r (fs_stamp e) \<or> n \<noteq> name then fmlookup (rs_fields r) name
     else Some (join_entry (fmlookup (rs_fields r) name) e))"
  unfolding run_write [OF assms] by auto

lemma write_rest:
  assumes "normal_entry e"
  shows "rs_tombstone (run_atom (AWrite n e) r) = rs_tombstone r" "rs_hasTomb (run_atom (AWrite n e) r) = rs_hasTomb r"
    "rs_alive (run_atom (AWrite n e) r) = rs_alive r" "rs_hasAlive (run_atom (AWrite n e) r) = rs_hasAlive r"
    "covered (run_atom (AWrite n e) r) s = covered r s"
  unfolding run_write [OF assms] by auto

lemma alive_rest:
  "rs_fields (mark_alive r s) = rs_fields r" "rs_tombstone (mark_alive r s) = rs_tombstone r"
  "rs_hasTomb (mark_alive r s) = rs_hasTomb r" "covered (mark_alive r s) q = covered r q"
  "rs_hasAlive (mark_alive r s)"
  "rs_alive (mark_alive r s) = (if rs_hasAlive r \<and> s \<le> rs_alive r then rs_alive r else s)"
  by (auto simp: mark_alive_def not_less)

lemma survives_join: "s < fs_stamp e \<Longrightarrow> survives (Some (join_entry f e)) s = Some (join_entry (survives f s) e)"
  by (auto simp: survives_def join_entry_def entry_key_def split: option.splits)

lemma survives_covered: "fs_stamp e \<le> s \<Longrightarrow> survives (Some (join_entry f e)) s = survives f s"
  by (auto simp: survives_def join_entry_def entry_key_def split: option.splits)

lemma delete_write_commute:
  assumes "normal_entry e"
  shows "applyDelete (run_atom (AWrite n e) r) s = run_atom (AWrite n e) (applyDelete r s)"
proof (rule record_eqI)
  fix name
  show "fmlookup (rs_fields (applyDelete (run_atom (AWrite n e) r) s)) name =
      fmlookup (rs_fields (run_atom (AWrite n e) (applyDelete r s))) name"
  proof (cases "n = name \<and> \<not> covered r (fs_stamp e)")
    case True
    then show ?thesis
      by (cases "s < fs_stamp e")
        (auto simp: delete_lookup write_lookup [OF assms] write_rest [OF assms] covered_delete
          survives_join survives_covered not_less dest: covered_mono)
  next
    case False
    then show ?thesis
      by (auto simp: delete_lookup write_lookup [OF assms] write_rest [OF assms] covered_delete)
  qed
qed (simp_all add: delete_tomb write_rest [OF assms])

lemma write_commute:
  assumes "normal_entry e" "normal_entry e'"
  shows "run_atom (AWrite n e) (run_atom (AWrite n' e') r) = run_atom (AWrite n' e') (run_atom (AWrite n e) r)"
proof (rule record_eqI)
  fix name
  show "fmlookup (rs_fields (run_atom (AWrite n e) (run_atom (AWrite n' e') r))) name =
      fmlookup (rs_fields (run_atom (AWrite n' e') (run_atom (AWrite n e) r))) name"
    unfolding write_lookup [OF assms(1)] write_lookup [OF assms(2)] write_rest(5) [OF assms(1)] write_rest(5) [OF assms(2)]
    using join_entry_commute [OF assms] by auto
qed (simp_all only: write_rest [OF assms(1)] write_rest [OF assms(2)])

lemma write_idem:
  assumes "normal_entry e"
  shows "run_atom (AWrite n e) (run_atom (AWrite n e) r) = run_atom (AWrite n e) r"
proof (rule record_eqI)
  fix name
  show "fmlookup (rs_fields (run_atom (AWrite n e) (run_atom (AWrite n e) r))) name =
      fmlookup (rs_fields (run_atom (AWrite n e) r)) name"
    unfolding write_lookup [OF assms] write_rest(5) [OF assms] using join_entry_idem by auto
qed (simp_all only: write_rest [OF assms])

lemma alive_commutes:
  "mark_alive (mark_alive r s) q = mark_alive (mark_alive r q) s"
  "mark_alive (mark_alive r s) s = mark_alive r s"
  "mark_alive (applyDelete r s) q = applyDelete (mark_alive r q) s"
  by (rule record_eqI; auto simp: alive_rest delete_lookup delete_tomb)+

lemma alive_write_commute:
  assumes "normal_entry e"
  shows "mark_alive (run_atom (AWrite n e) r) s = run_atom (AWrite n e) (mark_alive r s)"
  by (rule record_eqI) (simp_all only: alive_rest write_lookup [OF assms] write_rest [OF assms])

lemma atoms_commute:
  assumes "normal_atom a" "normal_atom b"
  shows "run_atom a (run_atom b r) = run_atom b (run_atom a r)"
proof (cases a)
  case (ADelete s)
  then show ?thesis using assms
    by (cases b) (simp_all only: run_atom.simps(1,2) normal_atom.simps delete_commute alive_commutes delete_write_commute)
next
  case (AAlive s)
  then show ?thesis using assms
    by (cases b) (simp_all only: run_atom.simps(1,2) normal_atom.simps alive_commutes(1,3) alive_write_commute)
next
  case (AWrite n e)
  then show ?thesis using assms
    by (cases b) (simp_all only: run_atom.simps(1,2) normal_atom.simps delete_write_commute alive_write_commute write_commute)
qed

lemma atoms_idem: "normal_atom a \<Longrightarrow> run_atom a (run_atom a r) = run_atom a r"
  by (cases a) (simp_all only: run_atom.simps(1,2) normal_atom.simps delete_idem alive_commutes(2) write_idem)

end
