(* ===== verification/Json.thy ===== *)
theory Json
  imports Go_Prelude
begin

text \<open>
  \<open>json.Valid\<close> of Go's \<open>encoding/json\<close>: the grammar of RFC 8259 as the standard library's
  scanner accepts it, with its nesting limit of 10000. Each parser returns the rest of the input;
  the fuel of \<open>json_valid\<close> exceeds the number of calls any accepted input makes.
\<close>

definition json_ws :: "char \<Rightarrow> bool" where
  "json_ws c \<longleftrightarrow> of_char c \<in> {32, 9, 10, 13 :: nat}"

definition skip_ws :: "string \<Rightarrow> string" where
  "skip_ws s = dropWhile json_ws s"

definition is_digit_char :: "char \<Rightarrow> bool" where
  "is_digit_char c \<longleftrightarrow> 48 \<le> (of_char c :: nat) \<and> (of_char c :: nat) \<le> 57"

definition is_hex_char :: "char \<Rightarrow> bool" where
  "is_hex_char c \<longleftrightarrow> is_digit_char c \<or> (97 \<le> (of_char c :: nat) \<and> (of_char c :: nat) \<le> 102) \<or>
     (65 \<le> (of_char c :: nat) \<and> (of_char c :: nat) \<le> 70)"

text \<open>A string after its opening quote; byte 34 is the quote, 92 the backslash, 47 the slash.\<close>

fun json_string :: "string \<Rightarrow> string option" where
  "json_string [] = None"
| "json_string (c # s) =
     (if of_char c = (34 :: nat) then Some s
      else if of_char c = (92 :: nat) then
        (case s of
           [] \<Rightarrow> None
         | d # s' \<Rightarrow>
             if of_char d \<in> {34, 92, 47, 98, 102, 110, 114, 116 :: nat} then json_string s'
             else if of_char d = (117 :: nat) then
               (if length (take 4 s') = 4 \<and> list_all is_hex_char (take 4 s') then json_string (drop 4 s') else None)
             else None)
      else if (of_char c :: nat) < 32 then None
      else json_string s)"

definition digits1 :: "string \<Rightarrow> string option" where
  "digits1 s = (case s of [] \<Rightarrow> None | c # _ \<Rightarrow> if is_digit_char c then Some (dropWhile is_digit_char s) else None)"

definition json_fraction :: "string \<Rightarrow> string option" where
  "json_fraction s = (case s of c # r \<Rightarrow> if of_char c = (46 :: nat) then digits1 r else Some s | [] \<Rightarrow> Some s)"

definition json_exponent :: "string \<Rightarrow> string option" where
  "json_exponent s =
     (case s of
        [] \<Rightarrow> Some s
      | c # r \<Rightarrow>
          if of_char c \<in> {101, 69 :: nat} then
            (case r of d # r' \<Rightarrow> if of_char d \<in> {43, 45 :: nat} then digits1 r' else digits1 r | [] \<Rightarrow> None)
          else Some s)"

definition json_integer :: "string \<Rightarrow> string option" where
  "json_integer s =
     (case s of [] \<Rightarrow> None | c # r \<Rightarrow> if of_char c = (48 :: nat) then Some r else digits1 s)"

definition json_number :: "string \<Rightarrow> string option" where
  "json_number s =
     (let s = (case s of c # r \<Rightarrow> if of_char c = (45 :: nat) then r else s | [] \<Rightarrow> s) in
      case json_integer s of None \<Rightarrow> None
      | Some r \<Rightarrow> (case json_fraction r of None \<Rightarrow> None | Some r \<Rightarrow> json_exponent r))"

definition maxNestingDepth :: nat where "maxNestingDepth = 10000"

text \<open>Bytes 123/125 are the braces, 91/93 the brackets, 44 the comma, 58 the colon.\<close>

fun json_value :: "nat \<Rightarrow> nat \<Rightarrow> string \<Rightarrow> string option"
  and json_elements :: "nat \<Rightarrow> nat \<Rightarrow> string \<Rightarrow> string option"
  and json_members :: "nat \<Rightarrow> nat \<Rightarrow> string \<Rightarrow> string option" where
  "json_value 0 depth s = None"
| "json_value (Suc n) depth s =
     (case skip_ws s of
        [] \<Rightarrow> None
      | c # r \<Rightarrow>
          if of_char c = (123 :: nat) then
            (if maxNestingDepth \<le> depth then None
             else case skip_ws r of
                [] \<Rightarrow> None
              | d # r' \<Rightarrow> if of_char d = (125 :: nat) then Some r' else json_members n (Suc depth) r)
          else if of_char c = (91 :: nat) then
            (if maxNestingDepth \<le> depth then None
             else case skip_ws r of
                [] \<Rightarrow> None
              | d # r' \<Rightarrow> if of_char d = (93 :: nat) then Some r' else json_elements n (Suc depth) r)
          else if of_char c = (34 :: nat) then json_string r
          else if of_char c = (116 :: nat) then strip_prefix ''true'' (c # r)
          else if of_char c = (102 :: nat) then strip_prefix ''false'' (c # r)
          else if of_char c = (110 :: nat) then strip_prefix ''null'' (c # r)
          else json_number (c # r))"
| "json_elements 0 depth s = None"
| "json_elements (Suc n) depth s =
     (case json_value n depth s of
        None \<Rightarrow> None
      | Some r \<Rightarrow>
          (case skip_ws r of
             [] \<Rightarrow> None
           | c # r' \<Rightarrow>
               if of_char c = (44 :: nat) then json_elements n depth r'
               else if of_char c = (93 :: nat) then Some r' else None))"
| "json_members 0 depth s = None"
| "json_members (Suc n) depth s =
     (case skip_ws s of
        [] \<Rightarrow> None
      | q # r \<Rightarrow>
          if of_char q \<noteq> (34 :: nat) then None
          else
            (case json_string r of
               None \<Rightarrow> None
             | Some r \<Rightarrow>
                 (case skip_ws r of
                    [] \<Rightarrow> None
                  | k # r \<Rightarrow>
                      if of_char k \<noteq> (58 :: nat) then None
                      else
                        (case json_value n depth r of
                           None \<Rightarrow> None
                         | Some r \<Rightarrow>
                             (case skip_ws r of
                                [] \<Rightarrow> None
                              | c # r' \<Rightarrow>
                                  if of_char c = (44 :: nat) then json_members n depth r'
                                  else if of_char c = (125 :: nat) then Some r' else None)))))"

definition json_valid :: "string \<Rightarrow> bool" where
  "json_valid s = (case json_value (2 * length s + 2) 0 s of None \<Rightarrow> False | Some r \<Rightarrow> skip_ws r = [])"

end
