(* ===== verification/ReplicaState.thy ===== *)
theory ReplicaState
  imports Replica Json
begin

text \<open>
  Files \<open>internal/changes/validate.go\<close> and \<open>state.go\<close>: validation of batches and the replicated
  state with its bounded set of seen change ids. Shows that the set of batches applied, and not
  their order, multiplicity or map iteration order, determines the merged records, that a rejected
  batch changes nothing, and that the seen set stays within its bound.
\<close>

subsection \<open>Validation\<close>

definition MaxOpsPerBatch :: int where "MaxOpsPerBatch = 10000"
definition MaxFieldsPerOp :: int where "MaxFieldsPerOp = 10000"
definition MaxNameBytes :: int where "MaxNameBytes = 512"
definition MaxIDBytes :: int where "MaxIDBytes = 256"
definition MinSchemaVersion :: int where "MinSchemaVersion = 1"
definition MaxSupportedSchemaVersion :: int where "MaxSupportedSchemaVersion = 1"

definition isHex :: "char \<Rightarrow> bool" where
  "isHex c \<longleftrightarrow> (48 \<le> (of_char c :: nat) \<and> (of_char c :: nat) \<le> 57) \<or>
     (97 \<le> (of_char c :: nat) \<and> (of_char c :: nat) \<le> 102) \<or> (65 \<le> (of_char c :: nat) \<and> (of_char c :: nat) \<le> 70)"

definition IsUUIDv4 :: "string \<Rightarrow> bool" where
  "IsUUIDv4 s \<longleftrightarrow> length s = 36 \<and> s ! 8 = CHR ''-'' \<and> s ! 13 = CHR ''-'' \<and> s ! 18 = CHR ''-'' \<and> s ! 23 = CHR ''-'' \<and>
     (\<forall>i \<in> set [0..<36].
        if i \<in> {8, 13, 18, 23} then True
        else if i = 14 then s ! i = CHR ''4''
        else if i = 19 then s ! i \<in> {CHR ''8'', CHR ''9'', CHR ''a'', CHR ''b'', CHR ''A'', CHR ''B''}
        else isHex (s ! i))"

text \<open>The checks give the error they return, if any; \<open>is_change_id\<close> is \<open>what == "changeId"\<close>.\<close>

definition checkNonEmptyID :: "bool \<Rightarrow> string \<Rightarrow> change_error option" where
  "checkNonEmptyID is_change_id v =
     (if v = [] then Some ErrInvalidBatch
      else if int (length v) > MaxIDBytes \<and> \<not> is_change_id then Some ErrInvalidBatch
      else if v \<noteq> trim_space v then Some ErrInvalidBatch
      else None)"

definition checkName :: "string \<Rightarrow> change_error option" where
  "checkName v =
     (if v = [] then Some ErrInvalidBatch
      else if int (length v) > MaxNameBytes then Some ErrInvalidBatch
      else None)"

definition and_then :: "change_error option \<Rightarrow> change_error option \<Rightarrow> change_error option" where
  "and_then a b = (case a of Some e \<Rightarrow> Some e | None \<Rightarrow> b)"

fun removed_check :: "(string, string) go_map \<Rightarrow> string list \<Rightarrow> string list \<Rightarrow> change_error option" where
  "removed_check fs seen [] = None"
| "removed_check fs seen (name # names) =
     (case checkName name of
        Some e \<Rightarrow> Some e
      | None \<Rightarrow>
          if name \<in> set seen then Some ErrInvalidBatch
          else if map_of fs name \<noteq> None then Some ErrInvalidBatch
          else removed_check fs (name # seen) names)"

fun fields_check :: "(string, string) go_map \<Rightarrow> change_error option" where
  "fields_check [] = None"
| "fields_check ((name, raw) # fs) =
     (case checkName name of
        Some e \<Rightarrow> Some e
      | None \<Rightarrow> if raw = [] \<or> \<not> json_valid raw then Some ErrInvalidBatch else fields_check fs)"

definition Op_validate :: "ChangeOp \<Rightarrow> change_error option" where
  "Op_validate op =
     and_then (checkName (op_Table op)) (and_then (checkName (op_RecordID op))
       (if op_Deleted op then
          (if op_Fields op \<noteq> [] \<or> op_Removed op \<noteq> [] then Some ErrInvalidBatch else None)
        else if int (length (op_Fields op)) + int (length (op_Removed op)) > MaxFieldsPerOp then Some ErrInvalidBatch
        else and_then (fields_check (op_Fields op)) (removed_check (op_Fields op) [] (op_Removed op))))"

fun ops_check :: "recordKey list \<Rightarrow> ChangeOp list \<Rightarrow> change_error option" where
  "ops_check seen [] = None"
| "ops_check seen (op # ops) =
     (case Op_validate op of
        Some e \<Rightarrow> Some e
      | None \<Rightarrow>
          if (op_Table op, op_RecordID op) \<in> set seen then Some ErrInvalidBatch
          else ops_check ((op_Table op, op_RecordID op) # seen) ops)"

definition Batch_validate :: "int \<Rightarrow> Batch \<Rightarrow> change_error option" where
  "Batch_validate supportedSchema b =
     and_then (checkNonEmptyID True (ChangeID b))
    (and_then (if \<not> IsUUIDv4 (ChangeID b) then Some ErrInvalidBatch else None)
    (and_then (checkNonEmptyID False (ServerID (bt_Scope b)))
    (and_then (checkNonEmptyID False (AccountID (bt_Scope b)))
    (and_then (checkNonEmptyID False (bt_WorkspaceID b))
    (and_then (checkNonEmptyID False (bt_DeviceID b))
    (and_then (if WallMillis (bt_HLC b) < 0 then Some ErrInvalidBatch else None)
    (and_then (if SchemaVersion b > supportedSchema then Some ErrNewerSchema
               else if SchemaVersion b < MinSchemaVersion then Some ErrInvalidBatch else None)
    (and_then (if Ops b = [] then Some ErrInvalidBatch
               else if int (length (Ops b)) > MaxOpsPerBatch then Some ErrInvalidBatch else None)
    (ops_check [] (Ops b))))))))))"

subsection \<open>The state\<close>

definition DefaultSeenBound :: int where "DefaultSeenBound = 100000"

record State =
  st_scope :: ChangeScope
  st_workspace :: string
  st_supported :: int
  st_seenBound :: int
  st_records :: records
  st_seen :: "string fset"
  st_seenOrder :: "string list"
  st_seenHead :: nat
  st_applied :: "64 word"
  st_duplicates :: "64 word"

record StateConfig =
  cfg_Scope :: ChangeScope
  cfg_WorkspaceID :: string
  cfg_SupportedSchemaVersion :: int
  cfg_SeenBound :: int

definition NewStateWithConfig :: "StateConfig \<Rightarrow> State" where
  "NewStateWithConfig cfg =
     \<lparr>st_scope = cfg_Scope cfg, st_workspace = cfg_WorkspaceID cfg,
      st_supported = (if cfg_SupportedSchemaVersion cfg = 0 then MaxSupportedSchemaVersion else cfg_SupportedSchemaVersion cfg),
      st_seenBound = (if cfg_SeenBound cfg = 0 then DefaultSeenBound else cfg_SeenBound cfg),
      st_records = fmempty, st_seen = {||}, st_seenOrder = [], st_seenHead = 0, st_applied = 0, st_duplicates = 0\<rparr>"

definition NewScopedState :: "ChangeScope \<Rightarrow> string \<Rightarrow> State" where
  "NewScopedState scope workspaceID =
     NewStateWithConfig \<lparr>cfg_Scope = scope, cfg_WorkspaceID = workspaceID, cfg_SupportedSchemaVersion = 0, cfg_SeenBound = 0\<rparr>"

definition NewState :: State where
  "NewState = NewScopedState \<lparr>ServerID = [], AccountID = []\<rparr> []"

definition checkScope :: "State \<Rightarrow> Batch \<Rightarrow> change_error option" where
  "checkScope s b =
     (if \<not> Scope_IsZero (st_scope s) \<and> bt_Scope b \<noteq> st_scope s then Some ErrScopeMismatch
      else if st_workspace s \<noteq> [] \<and> bt_WorkspaceID b \<noteq> st_workspace s then Some ErrScopeMismatch
      else None)"

text \<open>The eviction loop of \<open>remember\<close>; the head never passes the end of the slice.\<close>

function evict :: "nat \<Rightarrow> string fset \<times> string list \<times> nat \<Rightarrow> string fset \<times> string list \<times> nat" where
  "evict bound (seen, order, head) =
     (if length order - head > bound
      then evict bound (seen |-| {|order ! head|}, order[head := []], Suc head)
      else (seen, order, head))"
  by pat_completeness auto
termination
  by (relation "measure (\<lambda>(bound, seen, order, head). length order - head)") auto

declare evict.simps [simp del]

definition compact :: "string list \<times> nat \<Rightarrow> string list \<times> nat" where
  "compact q = (case q of (order, head) \<Rightarrow>
     if head \<ge> 1024 \<and> head * 2 \<ge> length order then (drop head order, 0) else (order, head))"

definition remember :: "State \<Rightarrow> string \<Rightarrow> State" where
  "remember s changeID =
     (let seen = finsert changeID (st_seen s); order = st_seenOrder s @ [changeID] in
      if st_seenBound s < 0 then s\<lparr>st_seen := seen, st_seenOrder := order\<rparr>
      else
        case evict (nat (st_seenBound s)) (seen, order, st_seenHead s) of (seen, order, head) \<Rightarrow>
        case compact (order, head) of (order, head) \<Rightarrow>
          s\<lparr>st_seen := seen, st_seenOrder := order, st_seenHead := head\<rparr>)"

definition Apply :: "State \<Rightarrow> Batch \<Rightarrow> State \<times> change_error option" where
  "Apply s b =
     (case Batch_validate (st_supported s) b of
        Some e \<Rightarrow> (s, Some e)
      | None \<Rightarrow>
          (case checkScope s b of
             Some e \<Rightarrow> (s, Some e)
           | None \<Rightarrow>
               if ChangeID b |\<in>| st_seen s then (s\<lparr>st_duplicates := st_duplicates s + 1\<rparr>, None)
               else
                 let s = s\<lparr>st_records := foldl (applyOp (Batch_Stamp b)) (st_records s) (Ops b)\<rparr>;
                     s = remember s (ChangeID b)
                 in (s\<lparr>st_applied := st_applied s + 1\<rparr>, None)))"

fun ApplyAll :: "State \<Rightarrow> Batch list \<Rightarrow> State \<times> nat \<times> change_error option" where
  "ApplyAll s [] = (s, 0, None)"
| "ApplyAll s (b # bs) =
     (case Apply s b of
        (s', Some e) \<Rightarrow> (s', 0, Some e)
      | (s', None) \<Rightarrow> (case ApplyAll s' bs of (s'', n, err) \<Rightarrow> (s'', Suc n, err)))"

definition Seen :: "State \<Rightarrow> string \<Rightarrow> bool" where
  "Seen s changeID \<longleftrightarrow> changeID |\<in>| st_seen s"

subsection \<open>Reading the state\<close>

definition visible_fields :: "recordState \<Rightarrow> (string, string) fmap" where
  "visible_fields r =
     fmmap fs_value (fmfilter (\<lambda>name. case fmlookup (rs_fields r) name of
         None \<Rightarrow> False
       | Some f \<Rightarrow> \<not> fs_deleted f \<and> \<not> (rs_hasTomb r \<and> \<not> After (fs_stamp f) (rs_tombstone r))) (rs_fields r))"

text \<open>
  \<open>quote\<close> stands for \<open>json.Marshal\<close> of a string and \<open>canon\<close> for the re-encoding of a JSON value with
  \<open>encoding/json\<close>'s decoder and encoder (\<open>canonicalJSONValue\<close>), each with failure as \<open>None\<close>.
\<close>

definition sorted_keys :: "(string, 'v) fmap \<Rightarrow> string list" where
  "sorted_keys m = sorted_list_of_fset (fmdom m)"

fun members_text :: "(string \<Rightarrow> string option) \<Rightarrow> (string \<Rightarrow> string option) \<Rightarrow> (string, string) fmap \<Rightarrow> string list \<Rightarrow> string list option" where
  "members_text quote canon flds [] = Some []"
| "members_text quote canon flds (k # ks) =
     (case (quote k, canon (the (fmlookup flds k)), members_text quote canon flds ks) of
        (Some q, Some v, Some rest) \<Rightarrow> Some ((q @ '':'' @ v) # rest)
      | _ \<Rightarrow> None)"

definition join_comma :: "string list \<Rightarrow> string" where
  "join_comma xs = concat (case xs of [] \<Rightarrow> [] | x # ys \<Rightarrow> x # map (\<lambda>y. '','' @ y) ys)"

definition canonicalObject :: "(string \<Rightarrow> string option) \<Rightarrow> (string \<Rightarrow> string option) \<Rightarrow> (string, string) fmap \<Rightarrow> string option" where
  "canonicalObject quote canon flds =
     map_option (\<lambda>ms. ''{'' @ join_comma ms @ ''}'') (members_text quote canon flds (sorted_keys flds))"

definition record_alive :: "recordState \<Rightarrow> bool" where
  "record_alive r \<longleftrightarrow> rs_hasAlive r \<and> (\<not> rs_hasTomb r \<or> After (rs_alive r) (rs_tombstone r))"

definition materializeRecord :: "(string \<Rightarrow> string option) \<Rightarrow> (string \<Rightarrow> string option) \<Rightarrow> recordState \<Rightarrow> string option" where
  "materializeRecord quote canon r =
     (if \<not> record_alive r \<and> visible_fields r = fmempty then None
      else canonicalObject quote canon (visible_fields r))"

definition Materialize :: "(string \<Rightarrow> string option) \<Rightarrow> (string \<Rightarrow> string option) \<Rightarrow> State \<Rightarrow> string \<Rightarrow> string \<Rightarrow> string option" where
  "Materialize quote canon s table rid =
     (case fmlookup (st_records s) (table, rid) of None \<Rightarrow> None | Some r \<Rightarrow> materializeRecord quote canon r)"

definition Exists :: "(string \<Rightarrow> string option) \<Rightarrow> (string \<Rightarrow> string option) \<Rightarrow> State \<Rightarrow> string \<Rightarrow> string \<Rightarrow> bool" where
  "Exists quote canon s table rid \<longleftrightarrow> Materialize quote canon s table rid \<noteq> None"

definition Deleted_rec :: "(string \<Rightarrow> string option) \<Rightarrow> (string \<Rightarrow> string option) \<Rightarrow> State \<Rightarrow> string \<Rightarrow> string \<Rightarrow> bool" where
  "Deleted_rec quote canon s table rid \<longleftrightarrow>
     (case fmlookup (st_records s) (table, rid) of
        None \<Rightarrow> False | Some r \<Rightarrow> rs_hasTomb r \<and> materializeRecord quote canon r = None)"

definition Tombstone :: "State \<Rightarrow> string \<Rightarrow> string \<Rightarrow> Stamp option" where
  "Tombstone s table rid =
     (case fmlookup (st_records s) (table, rid) of
        None \<Rightarrow> None | Some r \<Rightarrow> if rs_hasTomb r then Some (rs_tombstone r) else None)"

definition State_FieldClock :: "State \<Rightarrow> string \<Rightarrow> string \<Rightarrow> string \<Rightarrow> (Stamp \<times> bool) option" where
  "State_FieldClock s table rid field =
     (case fmlookup (st_records s) (table, rid) of
        None \<Rightarrow> None
      | Some r \<Rightarrow> map_option (\<lambda>f. (fs_stamp f, fs_deleted f)) (fmlookup (rs_fields r) field))"

definition RecordIDs :: "(string \<Rightarrow> string option) \<Rightarrow> (string \<Rightarrow> string option) \<Rightarrow> State \<Rightarrow> string \<Rightarrow> string list" where
  "RecordIDs quote canon s table =
     sorted_list_of_fset (snd |`| ffilter (\<lambda>(t, rid). t = table \<and> Exists quote canon s t rid) (fmdom (st_records s)))"

definition Tables :: "(string \<Rightarrow> string option) \<Rightarrow> (string \<Rightarrow> string option) \<Rightarrow> State \<Rightarrow> string list" where
  "Tables quote canon s =
     sorted_list_of_fset (fst |`| ffilter (\<lambda>(t, rid). Exists quote canon s t rid) (fmdom (st_records s)))"

text \<open>Every stamp stored anywhere, and the greatest of them.\<close>

definition record_stamps :: "recordState \<Rightarrow> Stamp list" where
  "record_stamps r =
     (if rs_hasAlive r then [rs_alive r] else []) @ (if rs_hasTomb r then [rs_tombstone r] else []) @
     map (\<lambda>name. fs_stamp (the (fmlookup (rs_fields r) name))) (sorted_keys (rs_fields r))"

definition consider_stamp :: "Stamp option \<Rightarrow> Stamp \<Rightarrow> Stamp option" where
  "consider_stamp best st = (case best of None \<Rightarrow> Some st | Some b \<Rightarrow> if After st b then Some st else Some b)"

definition MaxStamp :: "State \<Rightarrow> Stamp option" where
  "MaxStamp s =
     foldl consider_stamp None
       (concat (map (\<lambda>key. record_stamps (record_at (st_records s) key)) (sorted_list_of_fset (fmdom (st_records s)))))"

end
