(* ===== verification/Convergence.thy ===== *)
theory Convergence
  imports ReplicaState
begin

text \<open>
  Convergence of \<open>internal/changes\<close>: every batch is a set of elementary updates that commute and
  are idempotent, so replicas that have applied the same updates hold the same records; the seen
  set is the window of the last change ids and stays within its bound.
\<close>

subsection \<open>Commuting idempotent steps\<close>

locale convergent =
  fixes step :: "'a \<Rightarrow> 's \<Rightarrow> 's" and ok :: "'a \<Rightarrow> bool"
  assumes commute: "ok a \<Longrightarrow> ok b \<Longrightarrow> step a (step b s) = step b (step a s)"
    and idem: "ok a \<Longrightarrow> step a (step a s) = step a s"

sublocale convergent \<subseteq> comp_fun_idem_on "Collect ok" step
  by unfold_locales (auto simp: fun_eq_iff commute idem)

context convergent
begin

lemma converge:
  assumes "\<forall>a \<in> set xs. ok a" "set xs = set ys"
  shows "fold step xs s = fold step ys s"
  using fold_set_fold [of xs s] fold_set_fold [of ys s] assms by (auto simp: subset_iff)

lemma absorb:
  assumes "\<forall>a \<in> set xs. ok a" "set ys \<subseteq> set xs"
  shows "fold step ys (fold step xs s) = fold step xs s"
proof -
  have "fold step (xs @ ys) s = fold step xs s" by (rule converge) (use assms in auto)
  then show ?thesis by simp
qed

end

subsection \<open>Updates of the records\<close>

type_synonym update = "recordKey \<times> atom"

definition run_update :: "update \<Rightarrow> records \<Rightarrow> records" where
  "run_update u rs = fmupd (fst u) (run_atom (snd u) (record_at rs (fst u))) rs"

lemma record_at_upd: "record_at (fmupd k r rs) k' = (if k = k' then r else record_at rs k')"
  by (simp add: record_at_def)

interpretation upd: convergent run_update "\<lambda>u. normal_atom (snd u)"
proof
  fix u v :: update and rs :: records
  assume u: "normal_atom (snd u)"
  show "run_update u (run_update u rs) = run_update u rs"
    by (rule fmap_ext) (auto simp: run_update_def record_at_upd atoms_idem [OF u])
  assume v: "normal_atom (snd v)"
  show "run_update u (run_update v rs) = run_update v (run_update u rs)"
    by (rule fmap_ext) (auto simp: run_update_def record_at_upd atoms_commute [OF u v])
qed

definition op_atoms :: "ChangeOp \<Rightarrow> Stamp \<Rightarrow> atom list" where
  "op_atoms op stamp =
     (if op_Deleted op then [ADelete stamp]
      else AAlive stamp # map (\<lambda>(name, raw). AWrite name \<lparr>fs_value = raw, fs_stamp = stamp, fs_deleted = False\<rparr>) (op_Fields op)
        @ map (\<lambda>name. AWrite name \<lparr>fs_value = [], fs_stamp = stamp, fs_deleted = True\<rparr>) (op_Removed op))"

definition op_updates :: "Stamp \<Rightarrow> ChangeOp \<Rightarrow> update list" where
  "op_updates stamp op = map (Pair (op_Table op, op_RecordID op)) (op_atoms op stamp)"

definition batch_updates :: "Batch \<Rightarrow> update list" where
  "batch_updates b = concat (map (op_updates (Batch_Stamp b)) (Ops b))"

lemma op_on_record_atoms: "op_on_record op stamp r = fold run_atom (op_atoms op stamp) r"
proof -
  have "foldl (\<lambda>r (name, raw). applyFieldWrite r name raw stamp False) r fs =
      fold run_atom (map (\<lambda>(name, raw). AWrite name \<lparr>fs_value = raw, fs_stamp = stamp, fs_deleted = False\<rparr>) fs) r" for fs r
    by (induction fs arbitrary: r) (auto simp: run_atom.simps)
  moreover have "foldl (\<lambda>r name. applyFieldWrite r name [] stamp True) r ns =
      fold run_atom (map (\<lambda>name. AWrite name \<lparr>fs_value = [], fs_stamp = stamp, fs_deleted = True\<rparr>) ns) r" for ns r
    by (induction ns arbitrary: r) (auto simp: run_atom.simps)
  ultimately show ?thesis by (simp add: op_on_record_def op_atoms_def run_atom.simps)
qed

lemma fold_updates_one_key:
  "as \<noteq> [] \<Longrightarrow> fold run_update (map (Pair k) as) rs = fmupd k (fold run_atom as (record_at rs k)) rs"
proof (induction as arbitrary: rs rule: list_nonempty_induct)
  case (cons a as)
  have "run_update (k, a) rs = fmupd k (run_atom a (record_at rs k)) rs" by (simp add: run_update_def)
  then show ?case by (simp add: cons.IH record_at_upd)
qed (simp add: run_update_def)

lemma applyOp_updates: "applyOp stamp rs op = fold run_update (op_updates stamp op) rs"
proof -
  have "op_atoms op stamp \<noteq> []" by (simp add: op_atoms_def)
  then show ?thesis by (simp add: applyOp_def Let_def op_updates_def op_on_record_atoms fold_updates_one_key)
qed

lemma apply_batch_updates: "foldl (applyOp (Batch_Stamp b)) rs (Ops b) = fold run_update (batch_updates b) rs"
proof -
  have "foldl (applyOp st) rs ops = fold run_update (concat (map (op_updates st) ops)) rs" for st ops
    by (induction ops arbitrary: rs) (auto simp: applyOp_updates)
  then show ?thesis by (simp add: batch_updates_def)
qed

lemma batch_updates_normal: "u \<in> set (batch_updates b) \<Longrightarrow> normal_atom (snd u)"
  by (auto simp: batch_updates_def op_updates_def op_atoms_def normal_entry_def split: if_splits)

subsection \<open>The seen set\<close>

definition seen_window :: "string fset \<times> string list \<times> nat \<Rightarrow> bool" where
  "seen_window w \<longleftrightarrow> (case w of (seen, order, head) \<Rightarrow>
     head \<le> length order \<and> distinct (drop head order) \<and> fset seen = set (drop head order))"

lemma evict_window:
  "seen_window w \<Longrightarrow> seen_window (evict bound w) \<and>
   (case evict bound w of (seen', order', head') \<Rightarrow> length order' - head' \<le> bound \<and> seen' |\<subseteq>| fst w)"
proof (induction bound w rule: evict.induct)
  case (1 bound seen order head)
  show ?case
  proof (cases "length order - head > bound")
    case True
    then have h: "head < length order" by simp
    have d: "drop head order = order ! head # drop (Suc head) order" using h by (rule Cons_nth_drop_Suc [symmetric])
    have w: "seen_window (seen |-| {|order ! head|}, order[head := []], Suc head)"
      using 1(2) h unfolding seen_window_def prod.case d by auto
    from 1(1) [OF True w] True show ?thesis
      unfolding evict.simps [of bound seen order head] by (auto split: prod.splits)
  qed (use 1 in \<open>simp add: evict.simps\<close>)
qed

definition seen_inv :: "State \<Rightarrow> bool" where
  "seen_inv s \<longleftrightarrow> seen_window (st_seen s, st_seenOrder s, st_seenHead s) \<and>
     (0 \<le> st_seenBound s \<longrightarrow> int (fcard (st_seen s)) \<le> st_seenBound s)"

lemma window_card: "seen_window (seen, order, head) \<Longrightarrow> fcard seen = length order - head"
  by (simp add: seen_window_def fcard.rep_eq distinct_card)

lemma remember_facts:
  assumes "seen_inv s" "x |\<notin>| st_seen s"
  shows "seen_inv (remember s x)" "st_seen (remember s x) |\<subseteq>| finsert x (st_seen s)"
    and "st_records (remember s x) = st_records s" "st_scope (remember s x) = st_scope s"
    "st_workspace (remember s x) = st_workspace s" "st_supported (remember s x) = st_supported s"
    "st_seenBound (remember s x) = st_seenBound s"
proof -
  have w: "seen_window (finsert x (st_seen s), st_seenOrder s @ [x], st_seenHead s)"
    using assms by (auto simp: seen_inv_def seen_window_def)
  show "seen_inv (remember s x)" "st_seen (remember s x) |\<subseteq>| finsert x (st_seen s)"
  proof (atomize (full), cases "st_seenBound s < 0")
    case True
    then show "seen_inv (remember s x) \<and> st_seen (remember s x) |\<subseteq>| finsert x (st_seen s)"
      using w by (simp add: remember_def seen_inv_def)
  next
    case False
    obtain seen order head where e: "evict (nat (st_seenBound s)) (finsert x (st_seen s), st_seenOrder s @ [x], st_seenHead s) =
      (seen, order, head)" by (metis prod_cases3)
    obtain order' head' where c: "compact (order, head) = (order', head')" by (cases "compact (order, head)")
    have ev: "seen_window (seen, order, head)" "length order - head \<le> nat (st_seenBound s)" "seen |\<subseteq>| finsert x (st_seen s)"
      using evict_window [OF w, of "nat (st_seenBound s)"] by (simp_all add: e)
    then have "seen_window (seen, order', head')" "length order' - head' = length order - head"
      using c by (auto simp: compact_def seen_window_def split: if_splits)
    then show "seen_inv (remember s x) \<and> st_seen (remember s x) |\<subseteq>| finsert x (st_seen s)"
      using ev False by (simp add: remember_def seen_inv_def e c window_card)
  qed
qed (simp_all add: remember_def Let_def split: prod.splits)

subsection \<open>Applying batches\<close>

definition accepts :: "State \<Rightarrow> Batch \<Rightarrow> bool" where
  "accepts s b \<longleftrightarrow> Batch_validate (st_supported s) b = None \<and> checkScope s b = None"

definition same_config :: "State \<Rightarrow> State \<Rightarrow> bool" where
  "same_config s s' \<longleftrightarrow> st_scope s' = st_scope s \<and> st_workspace s' = st_workspace s \<and>
     st_supported s' = st_supported s \<and> st_seenBound s' = st_seenBound s"

lemma accepts_same: "same_config s s' \<Longrightarrow> accepts s' b = accepts s b"
  by (simp add: same_config_def accepts_def checkScope_def)

lemma Apply_accepted:
  assumes "accepts s b" "seen_inv s"
  shows "\<exists>s'. Apply s b = (s', None) \<and> seen_inv s' \<and> same_config s s' \<and>
    st_seen s' |\<subseteq>| finsert (ChangeID b) (st_seen s) \<and>
    st_records s' = (if ChangeID b |\<in>| st_seen s then st_records s else fold run_update (batch_updates b) (st_records s))"
proof (cases "ChangeID b |\<in>| st_seen s")
  case True
  then show ?thesis
    using assms by (auto simp: Apply_def accepts_def same_config_def seen_inv_def)
next
  case False
  let ?s = "s\<lparr>st_records := foldl (applyOp (Batch_Stamp b)) (st_records s) (Ops b)\<rparr>"
  have "seen_inv ?s" "ChangeID b |\<notin>| st_seen ?s" using assms(2) False by (simp_all add: seen_inv_def)
  note r = remember_facts [OF this]
  have "Apply s b = ((remember ?s (ChangeID b))\<lparr>st_applied := st_applied (remember ?s (ChangeID b)) + 1\<rparr>, None)"
    using assms(1) False by (simp add: Apply_def accepts_def Let_def)
  moreover have "seen_inv (t\<lparr>st_applied := n\<rparr>) = seen_inv t" for t n by (simp add: seen_inv_def)
  ultimately show ?thesis
    using r False by (simp add: same_config_def apply_batch_updates)
qed

definition identified :: "Batch set \<Rightarrow> bool" where
  "identified B \<longleftrightarrow> (\<forall>b \<in> B. \<forall>b' \<in> B. ChangeID b = ChangeID b' \<longrightarrow> set (batch_updates b) = set (batch_updates b'))"

lemma ApplyAll_accepted:
  assumes "seen_inv s" "\<forall>b \<in> set bs. accepts s b" "identified (set (ds @ bs))"
    and "fset (st_seen s) \<subseteq> ChangeID ` set ds" "st_records s = fold run_update (concat (map batch_updates ds)) fmempty"
  shows "\<exists>s'. ApplyAll s bs = (s', length bs, None) \<and> seen_inv s' \<and> fset (st_seen s') \<subseteq> ChangeID ` set (ds @ bs) \<and>
    st_records s' = fold run_update (concat (map batch_updates (ds @ bs))) fmempty"
  using assms
proof (induction bs arbitrary: s ds)
  case (Cons b bs)
  from Cons.prems obtain s' where s': "Apply s b = (s', None)" "seen_inv s'" "same_config s s'"
    "st_seen s' |\<subseteq>| finsert (ChangeID b) (st_seen s)"
    "st_records s' = (if ChangeID b |\<in>| st_seen s then st_records s else fold run_update (batch_updates b) (st_records s))"
    using Apply_accepted [of s b] by auto
  let ?all = "concat (map batch_updates ds)"
  have "st_records s' = fold run_update (batch_updates b) (st_records s)"
  proof (cases "ChangeID b |\<in>| st_seen s")
    case True
    then obtain d where d: "d \<in> set ds" "ChangeID d = ChangeID b" using Cons.prems(4) by auto
    then have "set (batch_updates b) = set (batch_updates d)"
      using Cons.prems(3) by (auto simp: identified_def)
    then have "set (batch_updates b) \<subseteq> set ?all" using d(1) by auto
    then have "fold run_update (batch_updates b) (fold run_update ?all fmempty) = fold run_update ?all fmempty"
      by (intro upd.absorb) (auto dest: batch_updates_normal)
    then show ?thesis using True s'(5) Cons.prems(5) by simp
  qed (simp add: s'(5))
  then have rec: "st_records s' = fold run_update (concat (map batch_updates (ds @ [b]))) fmempty"
    using Cons.prems(5) by simp
  have "\<forall>b \<in> set bs. accepts s' b" using Cons.prems(2) accepts_same [OF s'(3)] by simp
  moreover have "identified (set ((ds @ [b]) @ bs))" using Cons.prems(3) by simp
  moreover have "fset (st_seen s') \<subseteq> ChangeID ` set (ds @ [b])" using s'(4) Cons.prems(4) by (auto simp: less_eq_fset.rep_eq)
  ultimately obtain s'' where "ApplyAll s' bs = (s'', length bs, None)" "seen_inv s''"
    "fset (st_seen s'') \<subseteq> ChangeID ` set ((ds @ [b]) @ bs)"
    "st_records s'' = fold run_update (concat (map batch_updates ((ds @ [b]) @ bs))) fmempty"
    using Cons.IH [OF s'(2) _ _ _ rec] by blast
  then show ?case using s'(1) by simp
qed simp

lemma NewState_inv: "seen_inv (NewStateWithConfig cfg)"
  by (simp add: seen_inv_def seen_window_def NewStateWithConfig_def DefaultSeenBound_def fcard.rep_eq)

lemma replica_records:
  assumes "\<forall>b \<in> set bs. accepts (NewStateWithConfig cfg) b" "identified (set bs)"
  shows "\<exists>s'. ApplyAll (NewStateWithConfig cfg) bs = (s', length bs, None) \<and>
    st_records s' = fold run_update (concat (map batch_updates bs)) fmempty"
  using ApplyAll_accepted [OF NewState_inv assms(1), of "[]"] assms(2)
  by (auto simp: NewStateWithConfig_def)

text \<open>C1: two replicas, whatever their bounds on remembered change ids, that have each accepted
  batches with the same sets of updates, in any order, with any repetitions and any map iteration
  order, hold the same records, so every document reads the same on both.\<close>

theorem replicas_converge:
  assumes "\<forall>b \<in> set bs. accepts (NewStateWithConfig cfg) b" "\<forall>b \<in> set bs'. accepts (NewStateWithConfig cfg') b"
    and "\<forall>b \<in> set bs \<union> set bs'. \<forall>b' \<in> set bs \<union> set bs'. ChangeID b = ChangeID b' \<longrightarrow> set (batch_updates b) = set (batch_updates b')"
    and "ChangeID ` set bs = ChangeID ` set bs'"
  shows "\<exists>s s'. ApplyAll (NewStateWithConfig cfg) bs = (s, length bs, None) \<and>
    ApplyAll (NewStateWithConfig cfg') bs' = (s', length bs', None) \<and> st_records s = st_records s' \<and>
    Materialize quote canon s table rid = Materialize quote canon s' table rid"
proof -
  let ?all = "concat (map batch_updates bs)" and ?all' = "concat (map batch_updates bs')"
  have ids: "identified (set bs)" "identified (set bs')" using assms(3) by (auto simp: identified_def)
  obtain s s' where s: "ApplyAll (NewStateWithConfig cfg) bs = (s, length bs, None)"
      "st_records s = fold run_update ?all fmempty"
    and s': "ApplyAll (NewStateWithConfig cfg') bs' = (s', length bs', None)"
      "st_records s' = fold run_update ?all' fmempty"
    using replica_records [OF assms(1) ids(1)] replica_records [OF assms(2) ids(2)] by blast
  have "set ?all \<subseteq> set ?all'" "set ?all' \<subseteq> set ?all"
    using assms(3,4) by (auto simp: image_iff set_eq_iff) (metis UnCI)+
  then have "fold run_update ?all fmempty = fold run_update ?all' fmempty"
    by (intro upd.converge) (auto dest: batch_updates_normal)
  then have "st_records s = st_records s'" using s(2) s'(2) by simp
  then show ?thesis using s(1) s'(1) by (auto simp: Materialize_def)
qed

definition sample_batch :: Batch where
  "sample_batch = \<lparr>ChangeID = ''0b7c1f0e-9a5d-4c3b-8a21-5f6e7d8c9b0a'', bt_Scope = \<lparr>ServerID = ''local'', AccountID = ''local''\<rparr>,
     bt_WorkspaceID = ''w'', bt_DeviceID = ''d'', bt_HLC = HLC 7 0, SchemaVersion = 1,
     Ops = [\<lparr>op_Table = ''txn'', op_RecordID = ''t'', op_Fields = [(''memo'', ''7'')], op_Removed = [], op_Deleted = False\<rparr>]\<rparr>"

lemma json_valid_7: "json_valid ''7''"
  by (simp add: json_valid_def numeral_2_eq_2 skip_ws_def json_ws_def json_number_def json_integer_def digits1_def
      is_digit_char_def json_fraction_def json_exponent_def)

lemma sample_accepted: "accepts NewState sample_batch"
proof -
  have "IsUUIDv4 (ChangeID sample_batch)"
    unfolding sample_batch_def by code_simp
  then show ?thesis
    by (simp add: accepts_def Batch_validate_def and_then_def checkNonEmptyID_def checkScope_def Scope_IsZero_def
        NewState_def NewScopedState_def NewStateWithConfig_def MaxSupportedSchemaVersion_def MinSchemaVersion_def
        MaxIDBytes_def MaxOpsPerBatch_def MaxFieldsPerOp_def MaxNameBytes_def Op_validate_def checkName_def
        json_valid_7 trim_space_id is_graph_def sample_batch_def)
qed

lemma replicas_converge_witness:
  "\<exists>s s'. ApplyAll NewState [sample_batch] = (s, 1, None) \<and> ApplyAll NewState [sample_batch, sample_batch] = (s', 2, None) \<and>
    Materialize Some Some s ''txn'' ''t'' = Materialize Some Some s' ''txn'' ''t''"
proof -
  let ?c = "\<lparr>cfg_Scope = \<lparr>ServerID = [], AccountID = []\<rparr>, cfg_WorkspaceID = [], cfg_SupportedSchemaVersion = 0, cfg_SeenBound = 0\<rparr>"
  have N: "NewState = NewStateWithConfig ?c" by (simp add: NewState_def NewScopedState_def)
  have "\<exists>s s'. ApplyAll NewState [sample_batch] = (s, length [sample_batch], None) \<and>
      ApplyAll NewState [sample_batch, sample_batch] = (s', length [sample_batch, sample_batch], None) \<and>
      st_records s = st_records s' \<and> Materialize Some Some s ''txn'' ''t'' = Materialize Some Some s' ''txn'' ''t''"
    unfolding N by (rule replicas_converge) (use sample_accepted in \<open>simp_all add: N\<close>)
  moreover have "length [sample_batch] = 1" "length [sample_batch, sample_batch] = 2" by simp_all
  ultimately show ?thesis by (simp only:) blast
qed

lemma Apply_seen_inv: "seen_inv s \<Longrightarrow> seen_inv (fst (Apply s b)) \<and> same_config s (fst (Apply s b))"
proof (cases "accepts s b")
  case False
  then show "seen_inv s \<Longrightarrow> ?thesis" by (auto simp: Apply_def accepts_def same_config_def split: option.split)
qed (use Apply_accepted in fastforce)

lemma ApplyAll_seen_inv:
  "seen_inv s \<Longrightarrow> seen_inv (fst (ApplyAll s bs)) \<and> same_config s (fst (ApplyAll s bs))"
proof (induction bs arbitrary: s)
  case (Cons b bs)
  obtain s' e where a: "Apply s b = (s', e)" by (cases "Apply s b")
  with Apply_seen_inv [OF Cons.prems, of b] have "seen_inv s'" "same_config s s'" by simp_all
  with Cons.IH [of s'] a show ?case
    by (cases e) (auto simp: same_config_def split: prod.split)
qed (simp add: same_config_def)

text \<open>whatever batches a state is given, accepted or not, the set of remembered change ids is
  exactly the window of the last ones in its queue, without repetition, and never exceeds a
  nonnegative bound.\<close>

theorem seen_set_bounded:
  "case fst (ApplyAll (NewStateWithConfig cfg) bs) of s \<Rightarrow>
     fset (st_seen s) = set (drop (st_seenHead s) (st_seenOrder s)) \<and> distinct (drop (st_seenHead s) (st_seenOrder s)) \<and>
     (st_seenBound s < 0 \<or> int (fcard (st_seen s)) \<le> st_seenBound s)"
  using ApplyAll_seen_inv [OF NewState_inv, of cfg bs] by (auto simp: seen_inv_def seen_window_def not_less)

text \<open>C37: \<open>ApplyAll\<close> stops exactly at the first batch that is rejected: the batches before it stay
  applied, the count is theirs, the error is the one that batch gives on its own, and the batch
  has changed nothing.\<close>

theorem ApplyAll_first_rejection:
  assumes "ApplyAll s bs = (s', n, Some e)"
  shows "n < length bs \<and> ApplyAll s (take n bs) = (s', n, None) \<and> Apply s' (bs ! n) = (s', Some e) \<and>
    \<not> accepts s' (bs ! n)"
  using assms
proof (induction bs arbitrary: s n)
  case (Cons b bs)
  show ?case
  proof (cases "Apply s b")
    case (Pair t err)
    show ?thesis
    proof (cases err)
      case None
      then obtain m where "ApplyAll t bs = (s', m, Some e)" "n = Suc m"
        using Cons.prems Pair by (auto split: prod.splits)
      with Cons.IH [of t m] Pair None show ?thesis by simp
    next
      case (Some e')
      then have "t = s" "\<not> accepts s b"
        using Pair by (auto simp: Apply_def accepts_def Let_def split: option.splits if_splits)
      then show ?thesis using Cons.prems Pair Some by simp
    qed
  qed
qed simp

lemma ApplyAll_first_rejection_witness:
  "Apply NewState (sample_batch\<lparr>SchemaVersion := 2, ChangeID := []\<rparr>) = (NewState, Some ErrInvalidBatch)"
proof -
  have "ApplyAll NewState [sample_batch\<lparr>SchemaVersion := 2, ChangeID := []\<rparr>] = (NewState, 0, Some ErrInvalidBatch)"
    by (simp add: Apply_def Batch_validate_def checkNonEmptyID_def and_then_def)
  from ApplyAll_first_rejection [OF this] show ?thesis by simp
qed

end
