(* ===== verification/Snapshots.thy ===== *)
theory Snapshots
  imports Convergence
begin

text \<open>
  Files \<open>internal/changes/snapshot.go\<close> and \<open>diff.go\<close>: exporting the merge clocks of a state,
  importing them into another, and the field difference of two documents. Shows that a snapshot
  restores the records it was taken from, that restoring one and replaying any batches equals
  replaying the whole log, and that applying a difference turns the one document into the other.
\<close>

subsection \<open>Field clocks\<close>

record FieldClock =
  fc_Table :: string
  fc_RecordID :: string
  fc_Field :: string
  fc_Value :: string
  fc_Stamp :: Stamp
  fc_Deleted :: bool
  fc_Tombstone :: bool
  fc_Alive :: bool

definition record_marker :: "recordKey \<Rightarrow> Stamp \<Rightarrow> bool \<Rightarrow> bool \<Rightarrow> FieldClock" where
  "record_marker key stamp tomb alive =
     \<lparr>fc_Table = fst key, fc_RecordID = snd key, fc_Field = [], fc_Value = [], fc_Stamp = stamp,
      fc_Deleted = False, fc_Tombstone = tomb, fc_Alive = alive\<rparr>"

definition field_clock :: "(string \<Rightarrow> string option) \<Rightarrow> recordKey \<Rightarrow> string \<Rightarrow> fieldState \<Rightarrow> FieldClock" where
  "field_clock canon key name f =
     \<lparr>fc_Table = fst key, fc_RecordID = snd key, fc_Field = name,
      fc_Value = (if fs_deleted f then [] else case canon (fs_value f) of Some v \<Rightarrow> v | None \<Rightarrow> fs_value f),
      fc_Stamp = fs_stamp f, fc_Deleted = fs_deleted f, fc_Tombstone = False, fc_Alive = False\<rparr>"

definition export_record :: "(string \<Rightarrow> string option) \<Rightarrow> recordKey \<Rightarrow> recordState \<Rightarrow> FieldClock list" where
  "export_record canon key r =
     (if rs_hasAlive r then [record_marker key (rs_alive r) False True] else []) @
     (if rs_hasTomb r then [record_marker key (rs_tombstone r) True False] else []) @
     map (\<lambda>name. field_clock canon key name (the (fmlookup (rs_fields r) name))) (sorted_keys (rs_fields r))"

definition ExportFieldClocks :: "(string \<Rightarrow> string option) \<Rightarrow> State \<Rightarrow> FieldClock list" where
  "ExportFieldClocks canon s =
     concat (map (\<lambda>key. export_record canon key (record_at (st_records s) key))
       (sorted_list_of_fset (fmdom (st_records s))))"

definition import_entry :: "FieldClock \<Rightarrow> recordState \<Rightarrow> recordState" where
  "import_entry e r =
     (if fc_Tombstone e then applyDelete r (fc_Stamp e)
      else if fc_Alive e then mark_alive r (fc_Stamp e)
      else mark_alive (applyFieldWrite r (fc_Field e) (fc_Value e) (fc_Stamp e) (fc_Deleted e)) (fc_Stamp e))"

definition importFieldClockLocked :: "records \<Rightarrow> FieldClock \<Rightarrow> records" where
  "importFieldClockLocked rs e =
     (let key = (fc_Table e, fc_RecordID e) in fmupd key (import_entry e (record_at rs key)) rs)"

definition FieldClock_validate :: "FieldClock \<Rightarrow> change_error option" where
  "FieldClock_validate e =
     and_then (checkName (fc_Table e)) (and_then (checkName (fc_RecordID e))
     (and_then (if WallMillis (stamp_HLC (fc_Stamp e)) < 0 then Some ErrInvalidBatch else None)
     (and_then (checkNonEmptyID False (stamp_DeviceID (fc_Stamp e)))
       (if fc_Field e = [] then
          (if fc_Tombstone e = fc_Alive e then Some ErrInvalidBatch
           else if fc_Value e \<noteq> [] \<or> fc_Deleted e then Some ErrInvalidBatch else None)
        else
          and_then (checkName (fc_Field e))
            (if fc_Tombstone e \<or> fc_Alive e then Some ErrInvalidBatch
             else if fc_Deleted e then (if fc_Value e \<noteq> [] then Some ErrInvalidBatch else None)
             else if fc_Value e = [] \<or> \<not> json_valid (fc_Value e) then Some ErrInvalidBatch
             else None)))))"

fun clocks_check :: "FieldClock list \<Rightarrow> change_error option" where
  "clocks_check [] = None"
| "clocks_check (e # es) = and_then (FieldClock_validate e) (clocks_check es)"

definition ImportFieldClocks :: "State \<Rightarrow> FieldClock list \<Rightarrow> State \<times> change_error option" where
  "ImportFieldClocks s entries =
     (case clocks_check entries of
        Some e \<Rightarrow> (s, Some e)
      | None \<Rightarrow> (s\<lparr>st_records := foldl importFieldClockLocked (st_records s) entries\<rparr>, None))"

subsection \<open>Snapshots\<close>

record Snapshot =
  sn_SchemaVersion :: int
  sn_Scope :: ChangeScope
  sn_WorkspaceID :: string
  sn_FieldClocks :: "FieldClock list"
  sn_SeenChangeIDs :: "string list"

definition ExportSnapshot :: "(string \<Rightarrow> string option) \<Rightarrow> State \<Rightarrow> Snapshot" where
  "ExportSnapshot canon s =
     \<lparr>sn_SchemaVersion = 1, sn_Scope = st_scope s, sn_WorkspaceID = st_workspace s,
      sn_FieldClocks = ExportFieldClocks canon s, sn_SeenChangeIDs = drop (st_seenHead s) (st_seenOrder s)\<rparr>"

definition Snapshot_validate :: "int \<Rightarrow> Snapshot \<Rightarrow> change_error option" where
  "Snapshot_validate supported snap =
     and_then (if sn_SchemaVersion snap > supported then Some ErrNewerSchema
               else if sn_SchemaVersion snap < MinSchemaVersion then Some ErrInvalidBatch else None)
    (and_then (clocks_check (sn_FieldClocks snap))
      (if list_all IsUUIDv4 (sn_SeenChangeIDs snap) then None else Some ErrInvalidBatch))"

definition adopt_seen :: "State \<Rightarrow> string \<Rightarrow> State" where
  "adopt_seen s x = (if x |\<in>| st_seen s then s else remember s x)"

definition ImportSnapshot :: "State \<Rightarrow> Snapshot \<Rightarrow> State \<times> change_error option" where
  "ImportSnapshot s snap =
     (case Snapshot_validate (st_supported s) snap of
        Some e \<Rightarrow> (s, Some e)
      | None \<Rightarrow>
          if \<not> Scope_IsZero (st_scope s) \<and> sn_Scope snap \<noteq> st_scope s then (s, Some ErrScopeMismatch)
          else if st_workspace s \<noteq> [] \<and> sn_WorkspaceID snap \<noteq> st_workspace s then (s, Some ErrScopeMismatch)
          else
            (case ImportFieldClocks s (sn_FieldClocks snap) of
               (s', Some e) \<Rightarrow> (s', Some e)
             | (s', None) \<Rightarrow> (foldl adopt_seen s' (sn_SeenChangeIDs snap), None)))"

subsection \<open>What a reachable state holds\<close>

definition stamp_ok :: "Stamp \<Rightarrow> bool" where
  "stamp_ok s \<longleftrightarrow> 0 \<le> WallMillis (stamp_HLC s) \<and> checkNonEmptyID False (stamp_DeviceID s) = None"

definition entry_ok :: "(string \<Rightarrow> string option) \<Rightarrow> fieldState \<Rightarrow> bool" where
  "entry_ok canon e \<longleftrightarrow> normal_entry e \<and> stamp_ok (fs_stamp e) \<and>
     (\<not> fs_deleted e \<longrightarrow> fs_value e \<noteq> [] \<and> json_valid (fs_value e) \<and> canon (fs_value e) = Some (fs_value e))"

definition rec_pre :: "(string \<Rightarrow> string option) \<Rightarrow> recordState \<Rightarrow> bool" where
  "rec_pre canon r \<longleftrightarrow>
     (if rs_hasTomb r then stamp_ok (rs_tombstone r) else rs_tombstone r = zero_stamp) \<and>
     (if rs_hasAlive r then stamp_ok (rs_alive r) else rs_alive r = zero_stamp) \<and>
     (\<forall>name f. fmlookup (rs_fields r) name = Some f \<longrightarrow>
        checkName name = None \<and> entry_ok canon f \<and> \<not> covered r (fs_stamp f) \<and> rs_hasAlive r \<and> fs_stamp f \<le> rs_alive r)"

definition rec_ok :: "(string \<Rightarrow> string option) \<Rightarrow> recordKey \<Rightarrow> recordState \<Rightarrow> bool" where
  "rec_ok canon key r \<longleftrightarrow> checkName (fst key) = None \<and> checkName (snd key) = None \<and>
     (rs_hasTomb r \<or> rs_hasAlive r) \<and> rec_pre canon r"

definition all_ok :: "(string \<Rightarrow> string option) \<Rightarrow> records \<Rightarrow> bool" where
  "all_ok canon rs \<longleftrightarrow> (\<forall>key r. fmlookup rs key = Some r \<longrightarrow> rec_ok canon key r)"

lemma rec_pre_empty: "rec_pre canon empty_record"
  by (simp add: rec_pre_def empty_record_def)

lemma rec_pre_delete: "rec_pre canon r \<Longrightarrow> stamp_ok s \<Longrightarrow> rec_pre canon (applyDelete r s)"
  by (auto simp: rec_pre_def delete_tomb delete_lookup covered_delete survives_def not_le split: if_splits option.splits)
    (auto simp: covered_def not_less not_le intro: le_less_trans)

lemma rec_pre_alive: "rec_pre canon r \<Longrightarrow> stamp_ok s \<Longrightarrow> rec_pre canon (mark_alive r s)"
  by (auto simp: rec_pre_def alive_rest not_le intro: order_trans [OF _ less_imp_le])

lemma rec_pre_write:
  assumes "rec_pre canon r" "rs_hasAlive r" "fs_stamp e \<le> rs_alive r" "entry_ok canon e" "checkName n = None"
  shows "rec_pre canon (run_atom (AWrite n e) r)"
proof -
  have e: "normal_entry e" using assms(4) by (simp add: entry_ok_def)
  show ?thesis
    using assms unfolding rec_pre_def write_rest [OF e] write_lookup [OF e]
    by (auto simp: join_entry_def split: if_splits option.splits)
qed

lemma rec_pre_writes:
  assumes "rec_pre canon r" "rs_hasAlive r" "stamp \<le> rs_alive r"
    and "\<forall>(n, e) \<in> set es. fs_stamp e = stamp \<and> entry_ok canon e \<and> checkName n = None"
  shows "rec_pre canon (fold run_atom (map (\<lambda>(n, e). AWrite n e) es) r) \<and>
    rs_hasAlive (fold run_atom (map (\<lambda>(n, e). AWrite n e) es) r)"
  using assms
proof (induction es arbitrary: r)
  case (Cons p es)
  obtain n e where p: "p = (n, e)" by (cases p)
  have e: "normal_entry e" "fs_stamp e = stamp" "entry_ok canon e" "checkName n = None"
    using Cons.prems(4) by (auto simp: p entry_ok_def)
  show ?case
    using Cons.IH [of "run_atom (AWrite n e) r"] Cons.prems rec_pre_write [of canon r e n] e
    by (simp add: p write_rest [OF e(1)])
qed simp

definition canonical_op :: "(string \<Rightarrow> string option) \<Rightarrow> ChangeOp \<Rightarrow> bool" where
  "canonical_op canon op \<longleftrightarrow> (\<forall>(n, raw) \<in> set (op_Fields op). canon raw = Some raw)"

lemma and_then_None [simp]: "and_then a b = None \<longleftrightarrow> a = None \<and> b = None"
  by (cases a) (simp_all add: and_then_def)

lemma fields_check_None:
  "fields_check fs = None \<Longrightarrow> \<forall>(n, raw) \<in> set fs. checkName n = None \<and> raw \<noteq> [] \<and> json_valid raw"
  by (induction fs rule: fields_check.induct) (auto split: option.splits if_splits)

lemma removed_check_None: "removed_check fs seen ns = None \<Longrightarrow> \<forall>n \<in> set ns. checkName n = None"
  by (induction ns arbitrary: seen) (auto split: option.splits if_splits)

lemma op_record_ok:
  assumes "Op_validate op = None" "canonical_op canon op" "stamp_ok stamp" "rec_pre canon r"
  shows "rec_ok canon (op_Table op, op_RecordID op) (op_on_record op stamp r)"
proof (cases "op_Deleted op")
  case True
  then show ?thesis
    using assms by (simp add: op_on_record_def rec_ok_def rec_pre_delete delete_tomb Op_validate_def)
next
  case False
  have v: "fields_check (op_Fields op) = None" "removed_check (op_Fields op) [] (op_Removed op) = None"
    using assms(1) False by (simp_all add: Op_validate_def split: if_splits)
  let ?es = "map (\<lambda>(name, raw). (name, \<lparr>fs_value = raw, fs_stamp = stamp, fs_deleted = False\<rparr>)) (op_Fields op) @
    map (\<lambda>name. (name, \<lparr>fs_value = [], fs_stamp = stamp, fs_deleted = True\<rparr>)) (op_Removed op)"
  have atoms: "op_atoms op stamp = AAlive stamp # map (\<lambda>(n, e). AWrite n e) ?es"
    using False by (simp add: op_atoms_def comp_def split_def)
  have "\<forall>(n, e) \<in> set ?es. fs_stamp e = stamp \<and> entry_ok canon e \<and> checkName n = None"
    using fields_check_None [OF v(1)] removed_check_None [OF v(2)] assms(2,3)
    by (fastforce simp: entry_ok_def normal_entry_def canonical_op_def)
  moreover have "stamp \<le> rs_alive (mark_alive r stamp)" by (auto simp: alive_rest)
  ultimately show ?thesis
    using rec_pre_writes [of canon "mark_alive r stamp" stamp ?es] rec_pre_alive [OF assms(4,3)] assms(1) False
    by (simp add: op_on_record_atoms atoms run_atom.simps(2) alive_rest rec_ok_def Op_validate_def)
qed

lemma applyOp_ok:
  assumes "all_ok canon rs" "Op_validate op = None" "canonical_op canon op" "stamp_ok stamp"
  shows "all_ok canon (applyOp stamp rs op)"
proof -
  have "rec_pre canon (record_at rs key)" for key
    using assms(1) unfolding record_at_def all_ok_def rec_ok_def
    by (cases "fmlookup rs key") (auto simp only: option.case rec_pre_empty)
  then show ?thesis
    using assms(1) op_record_ok [OF assms(2-4)] by (auto simp: all_ok_def applyOp_def Let_def)
qed

definition canonical_batch :: "(string \<Rightarrow> string option) \<Rightarrow> Batch \<Rightarrow> bool" where
  "canonical_batch canon b \<longleftrightarrow> (\<forall>op \<in> set (Ops b). canonical_op canon op)"

lemma ops_check_None: "ops_check seen ops = None \<Longrightarrow> \<forall>op \<in> set ops. Op_validate op = None"
  by (induction ops arbitrary: seen) (auto split: option.splits if_splits)

lemma log_ok:
  assumes "\<forall>b \<in> set bs. accepts s b \<and> canonical_batch canon b" "all_ok canon rs"
  shows "all_ok canon (fold run_update (concat (map batch_updates bs)) rs)"
  using assms
proof (induction bs arbitrary: rs)
  case (Cons b bs)
  have v: "Batch_validate (st_supported s) b = None" and c: "canonical_batch canon b"
    using Cons.prems(1) by (auto simp: accepts_def)
  have ops: "\<forall>op \<in> set (Ops b). Op_validate op = None"
    using v by (auto simp: Batch_validate_def dest: ops_check_None)
  have st: "stamp_ok (Batch_Stamp b)"
    using v by (auto simp: Batch_validate_def stamp_ok_def Batch_Stamp_def split: if_splits)
  have "all_ok canon (foldl (applyOp (Batch_Stamp b)) rs ops)"
    if "all_ok canon rs" "\<forall>op \<in> set ops. Op_validate op = None \<and> canonical_op canon op" for ops rs
    using that by (induction ops arbitrary: rs) (auto simp: applyOp_ok [OF _ _ _ st])
  from this [OF Cons.prems(2), of "Ops b"] ops c
  have "all_ok canon (fold run_update (batch_updates b) rs)"
    by (simp add: apply_batch_updates canonical_batch_def)
  then show ?case using Cons by simp
qed simp

subsection \<open>Restoring a snapshot\<close>

lemma import_one_key:
  assumes "es \<noteq> []" "\<forall>e \<in> set es. (fc_Table e, fc_RecordID e) = key"
  shows "foldl importFieldClockLocked rs es = fmupd key (foldl (\<lambda>r e. import_entry e r) (record_at rs key) es) rs"
  using assms
proof (induction es arbitrary: rs rule: list_nonempty_induct)
  case (single e)
  then show ?case by (simp add: importFieldClockLocked_def Let_def)
next
  case (cons e es)
  then have "importFieldClockLocked rs e = fmupd key (import_entry e (record_at rs key)) rs"
    by (simp add: importFieldClockLocked_def Let_def)
  then show ?case using cons by (simp add: record_at_upd)
qed

lemma import_fields:
  assumes "rec_pre canon r" "distinct names" "set names \<subseteq> fset (fmdom (rs_fields r))"
    and "rs_tombstone t = rs_tombstone r" "rs_hasTomb t = rs_hasTomb r" "rs_alive t = rs_alive r" "rs_hasAlive t = rs_hasAlive r"
    and "\<forall>n \<in> set names. fmlookup (rs_fields t) n = None"
  shows "foldl (\<lambda>t e. import_entry e t) t (map (\<lambda>n. field_clock canon key n (the (fmlookup (rs_fields r) n))) names) =
    t\<lparr>rs_fields := fmadd (rs_fields t) (fmfilter (\<lambda>n. n \<in> set names) (rs_fields r))\<rparr>"
  using assms(2-)
proof (induction names arbitrary: t)
  case Nil
  then show ?case by (auto intro!: recordState.equality fmap_ext)
next
  case (Cons n names)
  obtain f where f: "fmlookup (rs_fields r) n = Some f" using Cons.prems(2) by (auto simp: fmlookup_dom_iff)
  then have fok: "entry_ok canon f" "\<not> covered r (fs_stamp f)" "rs_hasAlive r" "fs_stamp f \<le> rs_alive r"
    using assms(1) by (auto simp: rec_pre_def)
  have cov: "\<not> covered t (fs_stamp f)" using fok(2) Cons.prems(3,4) by (simp add: covered_def)
  have v: "(if fs_deleted f then [] else case canon (fs_value f) of Some v \<Rightarrow> v | None \<Rightarrow> fs_value f) = fs_value f"
    using fok(1) by (auto simp: entry_ok_def normal_entry_def)
  let ?t = "t\<lparr>rs_fields := fmupd n f (rs_fields t)\<rparr>"
  have "applyFieldWrite t n (fs_value f) (fs_stamp f) (fs_deleted f) = ?t"
  proof -
    have e: "\<lparr>fs_value = (if fs_deleted f then [] else fs_value f), fs_stamp = fs_stamp f, fs_deleted = fs_deleted f\<rparr> = f"
      using fok(1) by (auto simp: entry_ok_def normal_entry_def)
    have "fmlookup (rs_fields t) n = None" using Cons.prems(7) by simp
    then show ?thesis by (simp add: applyFieldWrite_def cov e)
  qed
  moreover have "mark_alive ?t (fs_stamp f) = ?t" using Cons.prems(5,6) fok(3,4) by (simp add: mark_alive_def not_less)
  ultimately have step: "import_entry (field_clock canon key n f) t = ?t"
    by (simp add: import_entry_def field_clock_def v)
  have "foldl (\<lambda>t e. import_entry e t) ?t (map (\<lambda>n. field_clock canon key n (the (fmlookup (rs_fields r) n))) names) =
      ?t\<lparr>rs_fields := fmadd (rs_fields ?t) (fmfilter (\<lambda>n. n \<in> set names) (rs_fields r))\<rparr>"
    by (rule Cons.IH) (use Cons.prems in auto)
  moreover have "fmadd (fmupd n f (rs_fields t)) (fmfilter (\<lambda>n. n \<in> set names) (rs_fields r)) =
      fmadd (rs_fields t) (fmfilter (\<lambda>m. m \<in> set (n # names)) (rs_fields r))"
    by (rule fmap_ext) (use f Cons.prems(1) in \<open>auto simp: fmlookup_dom_iff\<close>)
  ultimately show ?case by (simp add: f step)
qed

lemma sorted_keys_facts: "distinct (sorted_keys m)" "set (sorted_keys m) = fset (fmdom m)"
  by (simp_all add: sorted_keys_def sorted_list_of_fset.rep_eq)

lemma import_export_record:
  assumes "rec_ok canon key r"
  shows "foldl (\<lambda>t e. import_entry e t) empty_record (export_record canon key r) = r"
proof -
  have pre: "rec_pre canon r" using assms by (simp add: rec_ok_def)
  let ?t = "foldl (\<lambda>t e. import_entry e t) empty_record
    ((if rs_hasAlive r then [record_marker key (rs_alive r) False True] else []) @
     (if rs_hasTomb r then [record_marker key (rs_tombstone r) True False] else []))"
  have t: "?t = r\<lparr>rs_fields := fmempty\<rparr>"
  proof -
    have m: "import_entry (record_marker key s False True) empty_record =
        \<lparr>rs_fields = fmempty, rs_tombstone = zero_stamp, rs_hasTomb = False, rs_alive = s, rs_hasAlive = True\<rparr>" for s
      by (simp add: import_entry_def record_marker_def mark_alive_def empty_record_def)
    have d: "import_entry (record_marker key s True False) (\<lparr>rs_fields = fmempty, rs_tombstone = z, rs_hasTomb = False, rs_alive = q, rs_hasAlive = h\<rparr>) =
        \<lparr>rs_fields = fmempty, rs_tombstone = s, rs_hasTomb = True, rs_alive = q, rs_hasAlive = h\<rparr>" for s z q h
      by (simp add: import_entry_def record_marker_def applyDelete_def covered_def)
    have z: "\<not> rs_hasAlive r \<Longrightarrow> rs_alive r = zero_stamp" "\<not> rs_hasTomb r \<Longrightarrow> rs_tombstone r = zero_stamp"
      using pre by (simp_all add: rec_pre_def)
    show ?thesis
      by (cases r; cases "rs_hasAlive r"; cases "rs_hasTomb r") (use z in \<open>simp_all add: m [unfolded empty_record_def] d empty_record_def\<close>)
  qed
  let ?r = "r\<lparr>rs_fields := fmempty\<rparr>"
  have "foldl (\<lambda>t e. import_entry e t) ?r
      (map (\<lambda>n. field_clock canon key n (the (fmlookup (rs_fields r) n))) (sorted_keys (rs_fields r))) =
    ?r\<lparr>rs_fields := fmadd (rs_fields ?r) (fmfilter (\<lambda>n. n \<in> set (sorted_keys (rs_fields r))) (rs_fields r))\<rparr>"
    by (rule import_fields [OF pre]) (simp_all add: sorted_keys_facts)
  moreover have "fmfilter (\<lambda>n. n \<in> set (sorted_keys (rs_fields r))) (rs_fields r) = rs_fields r"
    by (rule fmap_ext) (auto simp: sorted_keys_facts fmlookup_dom_iff)
  ultimately have "foldl (\<lambda>t e. import_entry e t) ?t
      (map (\<lambda>n. field_clock canon key n (the (fmlookup (rs_fields r) n))) (sorted_keys (rs_fields r))) = r"
    unfolding t by simp
  then show ?thesis
    unfolding export_record_def append_assoc [symmetric] foldl_append [of _ _ "_ @ _"] .
qed

lemma import_keys:
  assumes "all_ok canon rs" "distinct keys" "set keys \<subseteq> fset (fmdom rs)" "\<forall>k \<in> set keys. fmlookup acc k = None"
  shows "fmlookup (foldl importFieldClockLocked acc (concat (map (\<lambda>key. export_record canon key (record_at rs key)) keys))) k =
    (if k \<in> set keys then fmlookup rs k else fmlookup acc k)"
  using assms(2-)
proof (induction keys arbitrary: acc)
  case (Cons key keys)
  obtain r where r: "fmlookup rs key = Some r" using Cons.prems(2) by (auto simp: fmlookup_dom_iff)
  then have ok: "rec_ok canon key r" and at: "record_at rs key = r"
    using assms(1) by (cases key; simp add: all_ok_def record_at_def)+
  have "export_record canon key r \<noteq> []" "\<forall>e \<in> set (export_record canon key r). (fc_Table e, fc_RecordID e) = key"
    using ok by (auto simp: export_record_def rec_ok_def record_marker_def field_clock_def)
  moreover have "record_at acc key = empty_record" using Cons.prems(3) by (simp add: record_at_def)
  ultimately have "foldl importFieldClockLocked acc (export_record canon key r) = fmupd key r acc"
    using import_one_key [of "export_record canon key r" key acc] import_export_record [OF ok] by simp
  note step = this
  have "\<forall>k \<in> set keys. fmlookup (fmupd key r acc) k = None" using Cons.prems by auto
  then have "fmlookup (foldl importFieldClockLocked (fmupd key r acc)
        (concat (map (\<lambda>key. export_record canon key (record_at rs key)) keys))) k =
      (if k \<in> set keys then fmlookup rs k else fmlookup (fmupd key r acc) k)"
    using Cons.IH [of "fmupd key r acc"] Cons.prems(1,2) by simp
  then show ?case using r step Cons.prems(1) by (simp add: at)
qed simp

lemma import_export:
  assumes "all_ok canon (st_records s)"
  shows "foldl importFieldClockLocked fmempty (ExportFieldClocks canon s) = st_records s"
proof (rule fmap_ext)
  fix k
  have "fmlookup (foldl importFieldClockLocked fmempty (ExportFieldClocks canon s)) k =
      (if k \<in> set (sorted_list_of_fset (fmdom (st_records s))) then fmlookup (st_records s) k else fmlookup fmempty k)"
    unfolding ExportFieldClocks_def by (rule import_keys [OF assms]) (simp_all add: sorted_list_of_fset.rep_eq)
  then show "fmlookup (foldl importFieldClockLocked fmempty (ExportFieldClocks canon s)) k = fmlookup (st_records s) k"
    by (cases "fmlookup (st_records s) k") (auto simp: fmlookup_dom_iff sorted_list_of_fset.rep_eq split: if_splits)
qed

lemma clocks_check_append: "clocks_check (xs @ ys) = None \<longleftrightarrow> clocks_check xs = None \<and> clocks_check ys = None"
  by (induction xs) auto

lemma clocks_check_all: "clocks_check es = None \<longleftrightarrow> (\<forall>e \<in> set es. FieldClock_validate e = None)"
  by (induction es) auto

lemma export_valid:
  assumes "all_ok canon (st_records s)"
  shows "clocks_check (ExportFieldClocks canon s) = None"
proof -
  have "FieldClock_validate e = None"
    if e: "e \<in> set (export_record canon key (record_at (st_records s) key))" and k: "key |\<in>| fmdom (st_records s)" for e key
  proof -
    obtain r where r: "fmlookup (st_records s) key = Some r" using k by (auto simp: fmlookup_dom_iff)
    then have ok: "rec_ok canon key r" and at: "record_at (st_records s) key = r"
      using assms by (cases key; simp add: all_ok_def record_at_def)+
    have stamps: "rs_hasAlive r \<Longrightarrow> stamp_ok (rs_alive r)" "rs_hasTomb r \<Longrightarrow> stamp_ok (rs_tombstone r)"
      using ok by (simp_all add: rec_ok_def rec_pre_def)
    have fields: "FieldClock_validate (field_clock canon key n (the (fmlookup (rs_fields r) n))) = None"
      if "n \<in> set (sorted_keys (rs_fields r))" for n
    proof -
      from that have "n |\<in>| fmdom (rs_fields r)" by (simp add: sorted_keys_facts)
      then obtain f where f: "fmlookup (rs_fields r) n = Some f" by (auto simp: fmlookup_dom_iff)
      then have "entry_ok canon f" "checkName n = None" using ok by (auto simp: rec_ok_def rec_pre_def)
      then show ?thesis
        using ok by (auto simp: f FieldClock_validate_def field_clock_def rec_ok_def entry_ok_def normal_entry_def stamp_ok_def
            checkName_def split: if_splits)
    qed
    have "FieldClock_validate (record_marker key (rs_alive r) False True) = None" if "rs_hasAlive r"
      using stamps(1) [OF that] ok by (simp add: FieldClock_validate_def record_marker_def stamp_ok_def rec_ok_def)
    moreover have "FieldClock_validate (record_marker key (rs_tombstone r) True False) = None" if "rs_hasTomb r"
      using stamps(2) [OF that] ok by (simp add: FieldClock_validate_def record_marker_def stamp_ok_def rec_ok_def)
    ultimately show ?thesis
      using e fields by (auto simp: at export_record_def split: if_splits)
  qed
  then show ?thesis by (auto simp: clocks_check_all ExportFieldClocks_def)
qed

lemma adopt_facts:
  assumes "seen_inv s" "fset (st_seen s) \<union> set ids \<subseteq> S"
  shows "seen_inv (foldl adopt_seen s ids) \<and> fset (st_seen (foldl adopt_seen s ids)) \<subseteq> S \<and>
    st_records (foldl adopt_seen s ids) = st_records s \<and> same_config s (foldl adopt_seen s ids)"
  using assms
proof (induction ids arbitrary: s)
  case (Cons x ids)
  have "seen_inv (adopt_seen s x) \<and> fset (st_seen (adopt_seen s x)) \<union> set ids \<subseteq> S \<and>
    st_records (adopt_seen s x) = st_records s \<and> same_config s (adopt_seen s x)"
    using remember_facts [OF Cons.prems(1), of x] Cons.prems by (auto simp: adopt_seen_def same_config_def less_eq_fset.rep_eq)
  then show ?case using Cons.IH [of "adopt_seen s x"] by (simp add: same_config_def)
qed (simp add: same_config_def)

text \<open>C17: a snapshot of the state that any accepted log of batches (with canonically encoded
  values) leads to is valid, restores exactly the records of that state when imported into a new
  replica, and replaying the rest of the log there gives the records of the whole log, whatever
  bounds the two replicas have.\<close>

theorem snapshot_and_suffix_converge:
  assumes "\<forall>b \<in> set (log @ rest). accepts (NewStateWithConfig cfg) b \<and> canonical_batch canon b"
    and "\<forall>b \<in> set rest. accepts (NewStateWithConfig cfg') b"
    and "\<forall>b \<in> set (log @ rest). \<forall>b' \<in> set (log @ rest). ChangeID b = ChangeID b' \<longrightarrow> set (batch_updates b) = set (batch_updates b')"
    and "cfg_Scope cfg' = cfg_Scope cfg" "cfg_WorkspaceID cfg' = cfg_WorkspaceID cfg" "0 \<le> cfg_SupportedSchemaVersion cfg'"
  shows "\<exists>s s'. ApplyAll (NewStateWithConfig cfg) log = (s, length log, None) \<and>
    ImportSnapshot (NewStateWithConfig cfg') (ExportSnapshot canon s) = (s', None) \<and> st_records s' = st_records s \<and>
    st_records (fst (ApplyAll s' rest)) = st_records (fst (ApplyAll (NewStateWithConfig cfg) (log @ rest)))"
proof -
  let ?n = "NewStateWithConfig cfg" and ?n' = "NewStateWithConfig cfg'" and ?us = "concat (map batch_updates log)"
  have ids: "identified (set (log @ rest))" using assms(3) unfolding identified_def .
  then have "identified (set ([] @ log))" by (simp add: identified_def)
  then obtain s where s: "ApplyAll ?n log = (s, length log, None)" "seen_inv s" "st_records s = fold run_update ?us fmempty"
      "fset (st_seen s) \<subseteq> ChangeID ` set log"
    using ApplyAll_accepted [OF NewState_inv, of log cfg "[]"] assms(1) by (auto simp: NewStateWithConfig_def)
  have conf: "same_config ?n s" using ApplyAll_seen_inv [OF NewState_inv, of cfg log] s(1) by simp
  have ok: "all_ok canon (st_records s)"
    unfolding s(3) by (rule log_ok [of log ?n]) (use assms(1) in \<open>simp_all add: all_ok_def\<close>)
  let ?snap = "ExportSnapshot canon s"
  have seen: "set (sn_SeenChangeIDs ?snap) \<subseteq> ChangeID ` set log"
    using s(2,4) by (simp add: ExportSnapshot_def seen_inv_def seen_window_def)
  moreover have "IsUUIDv4 (ChangeID b)" if "b \<in> set log" for b
    using assms(1) that by (auto simp: accepts_def Batch_validate_def split: if_splits)
  ultimately have uuids: "list_all IsUUIDv4 (sn_SeenChangeIDs ?snap)" by (auto simp: list_all_iff)
  have valid: "Snapshot_validate (st_supported ?n') ?snap = None"
    using uuids export_valid [OF ok] assms(6)
    by (simp add: Snapshot_validate_def ExportSnapshot_def NewStateWithConfig_def MinSchemaVersion_def MaxSupportedSchemaVersion_def)
  have new: "st_records ?n' = fmempty" "st_seen ?n' = {||}" "st_scope ?n' = sn_Scope ?snap" "st_workspace ?n' = sn_WorkspaceID ?snap"
    using conf assms(4,5) by (simp_all add: NewStateWithConfig_def ExportSnapshot_def same_config_def)
  have imp: "ImportFieldClocks ?n' (sn_FieldClocks ?snap) = (?n'\<lparr>st_records := st_records s\<rparr>, None)"
    using export_valid [OF ok] import_export [OF ok] by (simp add: ImportFieldClocks_def ExportSnapshot_def new(1))
  let ?b = "?n'\<lparr>st_records := st_records s\<rparr>"
  let ?s' = "foldl adopt_seen ?b (sn_SeenChangeIDs ?snap)"
  have imported: "ImportSnapshot ?n' ?snap = (?s', None)"
    using valid imp by (simp add: ImportSnapshot_def new)
  have "seen_inv ?b" using NewState_inv [of cfg'] by (simp add: seen_inv_def)
  then have b: "seen_inv ?s'" "fset (st_seen ?s') \<subseteq> ChangeID ` set log" "st_records ?s' = st_records s" "same_config ?b ?s'"
    using adopt_facts [of ?b "sn_SeenChangeIDs ?snap" "ChangeID ` set log"] seen new(2) by auto
  have "same_config ?n' ?s'" using b(4) by (simp add: same_config_def)
  then have "\<forall>b \<in> set rest. accepts ?s' b" using assms(2) accepts_same by blast
  then obtain t' where t': "ApplyAll ?s' rest = (t', length rest, None)"
      "st_records t' = fold run_update (concat (map batch_updates (log @ rest))) fmempty"
    using ApplyAll_accepted [OF b(1) _ ids b(2)] b(3) s(3) by auto
  obtain t where t: "ApplyAll ?n (log @ rest) = (t, length (log @ rest), None)"
      "st_records t = fold run_update (concat (map batch_updates (log @ rest))) fmempty"
    using replica_records [of "log @ rest" cfg] assms(1) ids by auto
  show ?thesis
    by (rule exI [of _ s], rule exI [of _ ?s']) (simp add: s(1) imported b(3) t' t del: map_append concat_append)
qed

lemma snapshot_and_suffix_converge_witness:
  "\<exists>s s'. ApplyAll NewState [sample_batch] = (s, 1, None) \<and> ImportSnapshot NewState (ExportSnapshot Some s) = (s', None) \<and>
    st_records s' = st_records s"
proof -
  let ?c = "\<lparr>cfg_Scope = \<lparr>ServerID = [], AccountID = []\<rparr>, cfg_WorkspaceID = [], cfg_SupportedSchemaVersion = 0, cfg_SeenBound = 0\<rparr>"
  have N: "NewState = NewStateWithConfig ?c" by (simp add: NewState_def NewScopedState_def)
  have "\<exists>s s'. ApplyAll NewState [sample_batch] = (s, length [sample_batch], None) \<and>
    ImportSnapshot NewState (ExportSnapshot Some s) = (s', None) \<and> st_records s' = st_records s \<and>
    st_records (fst (ApplyAll s' [])) = st_records (fst (ApplyAll NewState ([sample_batch] @ [])))"
    unfolding N by (rule snapshot_and_suffix_converge)
      (use sample_accepted in \<open>simp_all add: N canonical_batch_def canonical_op_def split_def\<close>)
  moreover have "length [sample_batch] = 1" by simp
  ultimately show ?thesis by (simp only:) blast
qed

subsection \<open>Differences of documents\<close>

text \<open>
  \<open>decode\<close> stands for \<open>json.Unmarshal\<close> of an object into its top-level raw fields, \<open>canon\<close> for
  \<open>canonicalJSONValue\<close>.
\<close>

definition parseObject ::
  "(string \<Rightarrow> (string, string) fmap option) \<Rightarrow> (string \<Rightarrow> string option) \<Rightarrow> string \<Rightarrow> change_error + (string, string) fmap" where
  "parseObject decode canon data =
     (let trimmed = trim_space data in
      if trimmed = [] \<or> hd trimmed \<noteq> CHR ''{'' then Inl ErrInvalidDocument
      else
        case decode data of
          None \<Rightarrow> Inl ErrInvalidDocument
        | Some raw \<Rightarrow>
            if list_all (\<lambda>n. canon (the (fmlookup raw n)) \<noteq> None) (sorted_keys raw)
            then Inr (fmmap (\<lambda>v. the (canon v)) raw) else Inl ErrInvalidDocument)"

definition field_list :: "(string, string) fmap \<Rightarrow> string list \<Rightarrow> (string, string) go_map" where
  "field_list m names = map (\<lambda>n. (n, the (fmlookup m n))) names"

definition DiffDocumentsErr ::
  "(string \<Rightarrow> (string, string) fmap option) \<Rightarrow> (string \<Rightarrow> string option) \<Rightarrow> string \<Rightarrow> string \<Rightarrow> string \<Rightarrow> string \<Rightarrow>
   change_error + ChangeOp option" where
  "DiffDocumentsErr decode canon table rid before after =
     (case and_then (checkName table) (checkName rid) of
        Some e \<Rightarrow> Inl e
      | None \<Rightarrow>
          let op = \<lparr>op_Table = table, op_RecordID = rid, op_Fields = [], op_Removed = [], op_Deleted = False\<rparr>;
              beforeAbsent = (trim_space before = []); afterAbsent = (trim_space after = []) in
          if beforeAbsent \<and> afterAbsent then Inr None
          else if afterAbsent then Inr (Some (op\<lparr>op_Deleted := True\<rparr>))
          else if beforeAbsent then
            bindE (parseObject decode canon after) (\<lambda>m. Inr (Some (op\<lparr>op_Fields := field_list m (sorted_keys m)\<rparr>)))
          else
            bindE (parseObject decode canon before) (\<lambda>b.
            bindE (parseObject decode canon after) (\<lambda>a.
              let writes = filter (\<lambda>n. fmlookup b n \<noteq> fmlookup a n) (sorted_keys a);
                  removed = sort (filter (\<lambda>n. fmlookup a n = None) (sorted_keys b)) in
              if writes = [] \<and> removed = [] then Inr None
              else Inr (Some (op\<lparr>op_Fields := field_list a writes, op_Removed := removed\<rparr>)))))"

definition newer_than :: "Stamp \<Rightarrow> recordState \<Rightarrow> bool" where
  "newer_than stamp r \<longleftrightarrow> (rs_hasTomb r \<longrightarrow> rs_tombstone r < stamp) \<and> (rs_hasAlive r \<longrightarrow> rs_alive r < stamp) \<and>
     (\<forall>n f. fmlookup (rs_fields r) n = Some f \<longrightarrow> fs_stamp f < stamp)"

lemma fresh_writes:
  assumes "distinct (map fst es)" "\<not> covered r stamp" "\<forall>(n, e) \<in> set es. normal_entry e \<and> fs_stamp e = stamp"
    and "\<forall>n \<in> fst ` set es. \<forall>f. fmlookup (rs_fields r) n = Some f \<longrightarrow> fs_stamp f < stamp"
  shows "\<exists>fs. fold run_atom (map (\<lambda>(n, e). AWrite n e) es) r = r\<lparr>rs_fields := fs\<rparr> \<and>
    (\<forall>n. fmlookup fs n = (case map_of es n of Some e \<Rightarrow> Some e | None \<Rightarrow> fmlookup (rs_fields r) n))"
  using assms
proof (induction es arbitrary: r)
  case Nil
  then show ?case by (intro exI [of _ "rs_fields r"]) simp
next
  case (Cons p es)
  obtain n e where p: "p = (n, e)" by (cases p)
  have e: "normal_entry e" "fs_stamp e = stamp" using Cons.prems(3) by (simp_all add: p)
  have "join_entry (fmlookup (rs_fields r) n) e = e"
    using Cons.prems(4) e(2) by (auto simp: join_entry_def entry_key_def p split: option.splits)
  then have w: "run_atom (AWrite n e) r = r\<lparr>rs_fields := fmupd n e (rs_fields r)\<rparr>"
    using Cons.prems(2) by (simp add: run_write [OF e(1)] e(2))
  let ?r = "r\<lparr>rs_fields := fmupd n e (rs_fields r)\<rparr>"
  have "n \<notin> fst ` set es" using Cons.prems(1) by (simp add: p)
  then obtain fs where fs: "fold run_atom (map (\<lambda>(n, e). AWrite n e) es) ?r = ?r\<lparr>rs_fields := fs\<rparr>"
    "\<And>m. fmlookup fs m = (case map_of es m of Some e \<Rightarrow> Some e | None \<Rightarrow> fmlookup (rs_fields ?r) m)"
  proof -
    have "\<forall>m \<in> fst ` set es. \<forall>f. fmlookup (rs_fields ?r) m = Some f \<longrightarrow> fs_stamp f < stamp"
      using Cons.prems(4) \<open>n \<notin> fst ` set es\<close> by (auto simp: p split: if_splits)
    moreover have "distinct (map fst es)" "\<not> covered ?r stamp" "\<forall>(n, e) \<in> set es. normal_entry e \<and> fs_stamp e = stamp"
      using Cons.prems(1-3) by (simp_all add: p)
    ultimately show thesis using Cons.IH [of ?r] that by blast
  qed
  have "map_of es n = None" using \<open>n \<notin> fst ` set es\<close> by (simp add: map_of_eq_None_iff)
  then show ?case using fs by (intro exI [of _ fs]) (auto simp: p w split: option.split)
qed

lemma visible_lookup: "fmlookup (visible_fields r) n =
    (case fmlookup (rs_fields r) n of None \<Rightarrow> None
     | Some f \<Rightarrow> if fs_deleted f \<or> covered r (fs_stamp f) then None else Some (fs_value f))"
  by (auto simp: visible_fields_def covered_def split: option.splits)

lemma map_of_const: "map_of (map (\<lambda>n. (n, c)) ns) n = (if n \<in> set ns then Some c else None)"
  by (induction ns) auto

lemma op_visible:
  assumes "\<not> op_Deleted op" "newer_than stamp r" "distinct (map fst (op_Fields op))" "distinct (op_Removed op)"
    and "fst ` set (op_Fields op) \<inter> set (op_Removed op) = {}"
  shows "fmlookup (visible_fields (op_on_record op stamp r)) n =
      (if n \<in> set (op_Removed op) then None
       else case map_of (op_Fields op) n of Some v \<Rightarrow> Some v | None \<Rightarrow> fmlookup (visible_fields r) n)"
    and "record_alive (op_on_record op stamp r)"
proof -
  let ?w = "map (\<lambda>(name, raw). (name, \<lparr>fs_value = raw, fs_stamp = stamp, fs_deleted = False\<rparr>)) (op_Fields op)"
  let ?d = "map (\<lambda>name. (name, \<lparr>fs_value = [], fs_stamp = stamp, fs_deleted = True\<rparr>)) (op_Removed op)"
  let ?r = "mark_alive r stamp"
  have atoms: "op_atoms op stamp = AAlive stamp # map (\<lambda>(n, e). AWrite n e) (?w @ ?d)"
    using assms(1) by (simp add: op_atoms_def comp_def split_def)
  have alive: "rs_alive ?r = stamp" "rs_hasAlive ?r" using assms(2) by (auto simp: alive_rest newer_than_def)
  have cov: "\<not> covered ?r stamp" using assms(2) by (auto simp: alive_rest newer_than_def covered_def)
  have "\<exists>fs. fold run_atom (map (\<lambda>(n, e). AWrite n e) (?w @ ?d)) ?r = ?r\<lparr>rs_fields := fs\<rparr> \<and>
    (\<forall>n. fmlookup fs n = (case map_of (?w @ ?d) n of Some e \<Rightarrow> Some e | None \<Rightarrow> fmlookup (rs_fields ?r) n))"
  proof (rule fresh_writes)
    show "distinct (map fst (?w @ ?d))" using assms(3-5) by (auto simp: comp_def split_def)
    show "\<forall>(n, e) \<in> set (?w @ ?d). normal_entry e \<and> fs_stamp e = stamp" by (auto simp: normal_entry_def)
    show "\<forall>n \<in> fst ` set (?w @ ?d). \<forall>f. fmlookup (rs_fields ?r) n = Some f \<longrightarrow> fs_stamp f < stamp"
      using assms(2) by (auto simp: alive_rest newer_than_def)
  qed (rule cov)
  then obtain fs where fs0: "fold run_atom (map (\<lambda>(n, e). AWrite n e) (?w @ ?d)) ?r = ?r\<lparr>rs_fields := fs\<rparr>"
    and fs1: "\<forall>n. fmlookup fs n = (case map_of (?w @ ?d) n of Some e \<Rightarrow> Some e | None \<Rightarrow> fmlookup (rs_fields ?r) n)"
    by blast
  have fs: "op_on_record op stamp r = ?r\<lparr>rs_fields := fs\<rparr>"
    "\<And>n. fmlookup fs n = (case map_of (?w @ ?d) n of Some e \<Rightarrow> Some e | None \<Rightarrow> fmlookup (rs_fields r) n)"
    using fs0 fs1 by (simp_all only: op_on_record_atoms atoms fold_simps run_atom.simps(2) alive_rest(1))
  have "map_of ?w n = map_option (\<lambda>raw. \<lparr>fs_value = raw, fs_stamp = stamp, fs_deleted = False\<rparr>) (map_of (op_Fields op) n)"
    by (simp add: map_of_map)
  moreover have "map_of ?d n = (if n \<in> set (op_Removed op) then Some \<lparr>fs_value = [], fs_stamp = stamp, fs_deleted = True\<rparr> else None)"
    by (rule map_of_const)
  moreover have "map_of (op_Fields op) n = None" if "n \<in> set (op_Removed op)"
    using assms(5) that by (auto simp: map_of_eq_None_iff)
  ultimately show "fmlookup (visible_fields (op_on_record op stamp r)) n =
      (if n \<in> set (op_Removed op) then None
       else case map_of (op_Fields op) n of Some v \<Rightarrow> Some v | None \<Rightarrow> fmlookup (visible_fields r) n)"
    using cov unfolding visible_lookup fs(1) by (auto simp: fs(2) map_add_def alive_rest split: option.splits)
  show "record_alive (op_on_record op stamp r)"
    using alive assms(2) unfolding fs(1) by (auto simp: record_alive_def newer_than_def alive_rest)
qed

lemma map_of_field_list: "map_of (field_list m names) n = (if n \<in> set names then Some (the (fmlookup m n)) else None)"
  by (induction names) (auto simp: field_list_def)

lemma field_list_keys: "map fst (field_list m names) = names"
  by (simp add: field_list_def comp_def)

lemma fmdom_sorted: "n \<in> set (sorted_keys m) \<longleftrightarrow> (\<exists>v. fmlookup m n = Some v)"
  by (auto simp: sorted_keys_facts fmlookup_dom_iff)

lemma delete_visible:
  assumes "newer_than stamp r"
  shows "visible_fields (applyDelete r stamp) = fmempty" "\<not> record_alive (applyDelete r stamp)"
proof -
  have cov: "\<not> covered r stamp" using assms by (auto simp: newer_than_def covered_def)
  show "visible_fields (applyDelete r stamp) = fmempty"
    by (rule fmap_ext)
      (use assms cov in \<open>auto simp: visible_lookup delete_lookup survives_def newer_than_def split: option.split dest: less_asym\<close>)
  show "\<not> record_alive (applyDelete r stamp)"
    using assms cov by (auto simp: record_alive_def delete_tomb newer_than_def)
qed

lemma diff_applied:
  assumes "newer_than stamp r" "op = \<lparr>op_Table = t, op_RecordID = i, op_Fields = field_list a ws, op_Removed = ds, op_Deleted = False\<rparr>"
    and "distinct ws" "distinct ds" "\<forall>n \<in> set ws. fmlookup a n \<noteq> None" "\<forall>n \<in> set ds. fmlookup a n = None"
    and "\<forall>n. n \<notin> set ws \<longrightarrow> n \<notin> set ds \<longrightarrow> fmlookup (visible_fields r) n = fmlookup a n"
  shows "visible_fields (op_on_record op stamp r) = a \<and> record_alive (op_on_record op stamp r)"
proof
  have op: "\<not> op_Deleted op" "distinct (map fst (op_Fields op))" "distinct (op_Removed op)"
    "fst ` set (op_Fields op) \<inter> set (op_Removed op) = {}"
    using assms(3-6) by (auto simp: assms(2) field_list_keys) (auto simp: field_list_def)
  note v = op_visible [OF op(1) assms(1) op(2-4)]
  show "visible_fields (op_on_record op stamp r) = a"
    by (rule fmap_ext, subst v(1)) (use assms(5-7) in \<open>auto simp: assms(2) map_of_field_list\<close>)
  show "record_alive (op_on_record op stamp r)" by (rule v(2))
qed

text \<open>C35: the difference of two documents, merged at a stamp newer than everything in the record
  that shows the first document, makes the record show exactly the second one; an absent second
  document deletes the record.\<close>

theorem DiffDocuments_applies:
  assumes "DiffDocumentsErr decode canon table rid before after = Inr (Some op)" "newer_than stamp r"
    and "trim_space before = [] \<longrightarrow> visible_fields r = fmempty"
    and "\<forall>b. parseObject decode canon before = Inr b \<longrightarrow> visible_fields r = b"
  shows "if trim_space after = []
    then visible_fields (op_on_record op stamp r) = fmempty \<and> \<not> record_alive (op_on_record op stamp r)
    else parseObject decode canon after = Inr (visible_fields (op_on_record op stamp r)) \<and> record_alive (op_on_record op stamp r)"
proof (cases "trim_space after = []")
  case True
  then have "op_on_record op stamp r = applyDelete r stamp"
    using assms(1) by (auto simp: DiffDocumentsErr_def Let_def op_on_record_def split: option.splits if_splits)
  then show ?thesis using delete_visible [OF assms(2)] True by simp
next
  case False
  show ?thesis
  proof (cases "trim_space before = []")
    case True
    obtain a where a: "parseObject decode canon after = Inr a"
        "op = \<lparr>op_Table = table, op_RecordID = rid, op_Fields = field_list a (sorted_keys a), op_Removed = [], op_Deleted = False\<rparr>"
      using assms(1) True False by (auto simp: DiffDocumentsErr_def Let_def bindE_Inr_iff split: option.splits)
    have "fmlookup (visible_fields r) n = fmlookup a n" if "n \<notin> set (sorted_keys a)" for n
      using assms(3) True that by (auto simp: fmdom_sorted)
    then show ?thesis
      using diff_applied [OF assms(2) a(2)] a(1) False by (auto simp: sorted_keys_facts(1) fmdom_sorted)
  next
    case present: False
    obtain b a where ab: "parseObject decode canon before = Inr b" "parseObject decode canon after = Inr a"
        "op = \<lparr>op_Table = table, op_RecordID = rid,
          op_Fields = field_list a (filter (\<lambda>n. fmlookup b n \<noteq> fmlookup a n) (sorted_keys a)),
          op_Removed = sort (filter (\<lambda>n. fmlookup a n = None) (sorted_keys b)), op_Deleted = False\<rparr>"
      using assms(1) present False
      by (auto simp: DiffDocumentsErr_def Let_def bindE_Inr_iff split: option.splits if_splits)
    have b: "visible_fields r = b" using assms(4) ab(1) by blast
    have same: "fmlookup b n = fmlookup a n"
      if "\<not> (fmlookup b n \<noteq> fmlookup a n \<and> n \<in> set (sorted_keys a))" "\<not> (fmlookup a n = None \<and> n \<in> set (sorted_keys b))" for n
      using that unfolding fmdom_sorted by (cases "fmlookup a n"; cases "fmlookup b n") simp_all
    have "visible_fields (op_on_record op stamp r) = a \<and> record_alive (op_on_record op stamp r)"
    proof (rule diff_applied [OF assms(2) ab(3)])
      show "\<forall>n \<in> set (filter (\<lambda>n. fmlookup b n \<noteq> fmlookup a n) (sorted_keys a)). fmlookup a n \<noteq> None"
        by (auto simp: fmdom_sorted)
      show "\<forall>n. n \<notin> set (filter (\<lambda>n. fmlookup b n \<noteq> fmlookup a n) (sorted_keys a)) \<longrightarrow>
          n \<notin> set (sort (filter (\<lambda>n. fmlookup a n = None) (sorted_keys b))) \<longrightarrow> fmlookup (visible_fields r) n = fmlookup a n"
        unfolding b set_sort set_filter by (intro allI impI same) blast+
    qed (simp_all add: sorted_keys_facts(1))
    then show ?thesis using ab(2) False by simp
  qed
qed

text \<open>A decoder for the two documents of the witness.\<close>

definition sample_decode :: "string \<Rightarrow> (string, string) fmap option" where
  "sample_decode d = (if d = ''{1}'' then Some (fmap_of_list [(''a'', ''1'')]) else if d = ''{2}'' then Some (fmap_of_list [(''a'', ''2'')]) else None)"

lemma sample_documents: "parseObject sample_decode Some ''{1}'' = Inr (fmap_of_list [(''a'', ''1'')])"
  "parseObject sample_decode Some ''{2}'' = Inr (fmap_of_list [(''a'', ''2'')])"
  by (simp_all add: parseObject_def sample_decode_def trim_space_id is_graph_def list_all_iff) (auto intro: fmap_ext)

lemma DiffDocuments_applies_witness:
  "\<exists>op. DiffDocumentsErr sample_decode Some ''t'' ''i'' [] ''{2}'' = Inr (Some op) \<and>
    visible_fields (op_on_record op (Stamp (HLC 1 0) ''d'') empty_record) = fmap_of_list [(''a'', ''2'')]"
proof -
  let ?op = "\<lparr>op_Table = ''t'', op_RecordID = ''i'', op_Fields = field_list (fmap_of_list [(''a'', ''2'')]) (sorted_keys (fmap_of_list [(''a'', ''2'')])),
    op_Removed = [], op_Deleted = False\<rparr>"
  have d: "DiffDocumentsErr sample_decode Some ''t'' ''i'' [] ''{2}'' = Inr (Some ?op)"
    by (simp add: DiffDocumentsErr_def Let_def and_then_def checkName_def MaxNameBytes_def trim_space_id is_graph_def sample_documents)
  have "newer_than (Stamp (HLC 1 0) ''d'') empty_record" by (simp add: newer_than_def empty_record_def)
  moreover have "visible_fields empty_record = fmempty" by (rule fmap_ext) (simp add: visible_lookup empty_record_def)
  moreover have "parseObject sample_decode Some [] = Inl ErrInvalidDocument" by (simp add: parseObject_def trim_space_id)
  ultimately show ?thesis
    using DiffDocuments_applies [OF d] d by (auto simp: sample_documents trim_space_id is_graph_def)
qed

end
