(* ===== verification/History.thy ===== *)
theory History
  imports Go_Prelude "HOL-Library.Finite_Map"
begin

text \<open>
  Package \<open>internal/history\<close>: differences of snapshots, their inversion and application, and the
  bounded undo/redo stack. Shows that a difference leads from the one snapshot to the other and
  its inverse back, that the stack with its dataset implements the editor that keeps the past and
  future versions themselves, and that it stays within its byte bound. A raw row is its bytes, with
  \<open>nil\<close> as the empty one.
\<close>

subsection \<open>Snapshots and changes\<close>

datatype Op = OpAdd | OpUpdate | OpDelete

type_synonym Snapshot = "(string, (string, string) fmap) fmap"

record Change =
  Collection :: string
  ch_ID :: string
  ch_Op :: Op
  ch_Before :: string
  ch_After :: string

record ChangeSet =
  cs_Label :: string
  cs_UndoID :: string
  Changes :: "Change list"

definition IsEmpty :: "ChangeSet \<Rightarrow> bool" where "IsEmpty cs \<longleftrightarrow> Changes cs = []"

definition Change_Bytes :: "Change \<Rightarrow> int" where
  "Change_Bytes c = int (length (ch_Before c)) + int (length (ch_After c))"

definition ChangeSet_Bytes :: "ChangeSet \<Rightarrow> int" where
  "ChangeSet_Bytes cs = foldl (\<lambda>n c. n + Change_Bytes c) 0 (Changes cs)"

definition rows_of :: "Snapshot \<Rightarrow> string \<Rightarrow> (string, string) fmap" where
  "rows_of s coll = (case fmlookup s coll of None \<Rightarrow> fmempty | Some rows \<Rightarrow> rows)"

definition unionKeys :: "(string, 'v) fmap \<Rightarrow> (string, 'w) fmap \<Rightarrow> string list" where
  "unionKeys a b = sorted_list_of_fset (fmdom a |\<union>| fmdom b)"

definition diff_row :: "string \<Rightarrow> (string, string) fmap \<Rightarrow> (string, string) fmap \<Rightarrow> string \<Rightarrow> Change list" where
  "diff_row coll b a rid =
     (case (fmlookup b rid, fmlookup a rid) of
        (None, Some av) \<Rightarrow> [\<lparr>Collection = coll, ch_ID = rid, ch_Op = OpAdd, ch_Before = [], ch_After = av\<rparr>]
      | (Some bv, None) \<Rightarrow> [\<lparr>Collection = coll, ch_ID = rid, ch_Op = OpDelete, ch_Before = bv, ch_After = []\<rparr>]
      | (Some bv, Some av) \<Rightarrow>
          if bv \<noteq> av then [\<lparr>Collection = coll, ch_ID = rid, ch_Op = OpUpdate, ch_Before = bv, ch_After = av\<rparr>] else []
      | (None, None) \<Rightarrow> [])"

definition Diff :: "Snapshot \<Rightarrow> Snapshot \<Rightarrow> ChangeSet" where
  "Diff before after =
     \<lparr>cs_Label = [], cs_UndoID = [],
      Changes = concat (map (\<lambda>coll.
        concat (map (diff_row coll (rows_of before coll) (rows_of after coll))
          (unionKeys (rows_of before coll) (rows_of after coll)))) (unionKeys before after))\<rparr>"

definition Change_Invert :: "Change \<Rightarrow> Change" where
  "Change_Invert c =
     \<lparr>Collection = Collection c, ch_ID = ch_ID c,
      ch_Op = (case ch_Op c of OpAdd \<Rightarrow> OpDelete | OpDelete \<Rightarrow> OpAdd | OpUpdate \<Rightarrow> OpUpdate),
      ch_Before = ch_After c, ch_After = ch_Before c\<rparr>"

definition Invert :: "ChangeSet \<Rightarrow> ChangeSet" where
  "Invert cs = cs\<lparr>Changes := map Change_Invert (Changes cs)\<rparr>"

definition apply_change :: "Snapshot \<Rightarrow> Change \<Rightarrow> Snapshot" where
  "apply_change out c =
     (case ch_Op c of
        OpDelete \<Rightarrow>
          (case fmlookup out (Collection c) of
             None \<Rightarrow> out
           | Some rows \<Rightarrow> fmupd (Collection c) (fmdrop (ch_ID c) rows) out)
      | _ \<Rightarrow> fmupd (Collection c) (fmupd (ch_ID c) (ch_After c) (rows_of out (Collection c))) out)"

definition Apply_ChangeSet :: "ChangeSet \<Rightarrow> Snapshot \<Rightarrow> Snapshot" where
  "Apply_ChangeSet cs s = foldl apply_change s (Changes cs)"

subsection \<open>The rows of a snapshot\<close>

text \<open>What a snapshot holds, empty collections aside.\<close>

type_synonym view = "string \<times> string \<Rightarrow> string option"

definition view_of :: "Snapshot \<Rightarrow> view" where
  "view_of s = (\<lambda>(coll, rid). fmlookup (rows_of s coll) rid)"

definition change_key :: "Change \<Rightarrow> string \<times> string" where
  "change_key c = (Collection c, ch_ID c)"

definition view_change :: "Change \<Rightarrow> view \<Rightarrow> view" where
  "view_change c v = v(change_key c := (if ch_Op c = OpDelete then None else Some (ch_After c)))"

definition view_apply :: "Change list \<Rightarrow> view \<Rightarrow> view" where
  "view_apply cs v = fold view_change cs v"

lemma view_of_apply_change: "view_of (apply_change s c) = view_change c (view_of s)"
  by (cases "ch_Op c") (auto simp: fun_eq_iff view_of_def view_change_def apply_change_def rows_of_def change_key_def
    split: option.split)

lemma view_of_Apply: "view_of (Apply_ChangeSet cs s) = view_apply (Changes cs) (view_of s)"
proof -
  have "view_of (foldl apply_change s cs) = fold view_change cs (view_of s)" for cs
    by (induction cs arbitrary: s) (simp_all add: view_of_apply_change)
  then show ?thesis by (simp add: Apply_ChangeSet_def view_apply_def)
qed

text \<open>A change fits a view when its before-image is what the view holds.\<close>

definition fits :: "view \<Rightarrow> Change \<Rightarrow> bool" where
  "fits v c \<longleftrightarrow> (if ch_Op c = OpAdd then v (change_key c) = None else v (change_key c) = Some (ch_Before c))"

lemma view_apply_lookup:
  assumes "distinct (map change_key cs)"
  shows "view_apply cs v k = (case map_of (map (\<lambda>c. (change_key c, c)) cs) k of
      None \<Rightarrow> v k | Some c \<Rightarrow> if ch_Op c = OpDelete then None else Some (ch_After c))"
  using assms
proof (induction cs arbitrary: v)
  case (Cons c cs)
  have "change_key c \<notin> fst ` set (map (\<lambda>c. (change_key c, c)) cs)" using Cons.prems by (auto simp: image_comp)
  then have "map_of (map (\<lambda>c. (change_key c, c)) cs) (change_key c) = None" by (simp only: map_of_eq_None_iff not_False_eq_True)
  moreover have "view_apply (c # cs) v k = view_apply cs (view_change c v) k" by (simp add: view_apply_def)
  moreover have "view_change c v k = (if k = change_key c then if ch_Op c = OpDelete then None else Some (ch_After c) else v k)"
    by (simp add: view_change_def)
  moreover have "view_apply cs (view_change c v) k = (case map_of (map (\<lambda>c. (change_key c, c)) cs) k of
      None \<Rightarrow> view_change c v k | Some c \<Rightarrow> if ch_Op c = OpDelete then None else Some (ch_After c))"
    using Cons by simp
  ultimately show ?case by (cases "k = change_key c") (simp_all split: option.split)
qed (simp add: view_apply_def)

lemma invert_key [simp]: "change_key (Change_Invert c) = change_key c"
  by (simp add: change_key_def Change_Invert_def)

lemma view_invert:
  assumes "distinct (map change_key cs)" "\<forall>c \<in> set cs. fits v c"
  shows "view_apply (map Change_Invert cs) (view_apply cs v) = v"
proof
  fix k
  have d: "distinct (map change_key (map Change_Invert cs))" using assms(1) by (simp add: comp_def)
  let ?m = "map_of (map (\<lambda>c. (change_key c, c)) cs) k"
  have inv: "map_of (map (\<lambda>c. (change_key c, c)) (map Change_Invert cs)) k = map_option Change_Invert ?m"
    by (induction cs) auto
  show "view_apply (map Change_Invert cs) (view_apply cs v) k = v k"
  proof (cases ?m)
    case None
    then show ?thesis unfolding view_apply_lookup [OF d] view_apply_lookup [OF assms(1)] inv by simp
  next
    case (Some c)
    then have "c \<in> set cs" "change_key c = k" by (auto dest: map_of_SomeD)
    then have "fits v c" "change_key c = k" using assms(2) by auto
    then show ?thesis
      unfolding view_apply_lookup [OF d] inv Some by (cases "ch_Op c") (simp_all add: Change_Invert_def fits_def)
  qed
qed

subsection \<open>Differences\<close>

lemma Diff_key: "c \<in> set (diff_row coll b a rid) \<Longrightarrow> change_key c = (coll, rid)"
  by (auto simp: diff_row_def change_key_def split: option.splits if_splits)

lemma Diff_changes_iff:
  "c \<in> set (Changes (Diff b a)) \<longleftrightarrow>
   c \<in> set (diff_row (Collection c) (rows_of b (Collection c)) (rows_of a (Collection c)) (ch_ID c))"
proof
  assume "c \<in> set (Changes (Diff b a))"
  then obtain coll rid where "c \<in> set (diff_row coll (rows_of b coll) (rows_of a coll) rid)"
    by (auto simp: Diff_def)
  then show "c \<in> set (diff_row (Collection c) (rows_of b (Collection c)) (rows_of a (Collection c)) (ch_ID c))"
    using Diff_key by (force simp: change_key_def)
next
  let ?b = "rows_of b (Collection c)" and ?a = "rows_of a (Collection c)"
  assume c: "c \<in> set (diff_row (Collection c) ?b ?a (ch_ID c))"
  then have rid: "ch_ID c |\<in>| fmdom ?b |\<union>| fmdom ?a"
    by (cases "fmlookup ?b (ch_ID c)"; cases "fmlookup ?a (ch_ID c)") (auto simp: diff_row_def intro: fmdomI)
  then have "Collection c |\<in>| fmdom b |\<union>| fmdom a"
    by (auto simp: rows_of_def fmlookup_dom_iff split: option.splits)
  then show "c \<in> set (Changes (Diff b a))" using c rid by (auto simp: Diff_def unionKeys_def)
qed

lemma distinct_keyed_concat:
  assumes "\<And>x y. y \<in> set (f x) \<Longrightarrow> G (h y) = x" "\<And>x. distinct (map h (f x))" "distinct xs"
  shows "distinct (map h (concat (map f xs)))"
  using assms(3)
proof (induction xs)
  case (Cons x xs)
  have "h ` set (f x) \<inter> h ` set (concat (map f xs)) = {}"
  proof (rule ccontr)
    assume "h ` set (f x) \<inter> h ` set (concat (map f xs)) \<noteq> {}"
    then obtain y x' y' where "y \<in> set (f x)" "x' \<in> set xs" "y' \<in> set (f x')" "h y = h y'" by auto
    then show False using assms(1) [of y x] assms(1) [of y' x'] Cons.prems by auto
  qed
  then show ?case using Cons assms(2) [of x] by simp
qed simp

lemma Diff_distinct: "distinct (map change_key (Changes (Diff b a)))"
proof -
  have d: "distinct (unionKeys x y)" for x :: "(string, 'v) fmap" and y :: "(string, 'w) fmap"
    by (simp add: unionKeys_def sorted_list_of_fset.rep_eq)
  have one: "distinct (map change_key (diff_row coll x y rid))" for coll x y rid
    by (auto simp: diff_row_def split: option.splits)
  have row: "distinct (map change_key (concat (map (diff_row coll x y) ks)))" if "distinct ks" for coll x y ks
    by (rule distinct_keyed_concat [where G = snd, OF _ one that]) (simp add: Diff_key)
  have "distinct (map change_key (concat (map (\<lambda>coll. concat (map (diff_row coll (rows_of b coll) (rows_of a coll))
      (unionKeys (rows_of b coll) (rows_of a coll)))) (unionKeys b a))))"
    by (rule distinct_keyed_concat [where G = fst, OF _ row [OF d] d]) (auto dest: Diff_key)
  then show ?thesis by (simp add: Diff_def)
qed

lemma Diff_fits: "c \<in> set (Changes (Diff b a)) \<Longrightarrow> fits (view_of b) c"
  unfolding Diff_changes_iff
  by (cases c) (auto simp: diff_row_def fits_def view_of_def change_key_def split: option.splits if_splits)

lemma diff_row_after: "c \<in> set (diff_row coll b a rid) \<Longrightarrow>
    (if ch_Op c = OpDelete then None else Some (ch_After c)) = fmlookup a rid"
  by (auto simp: diff_row_def split: option.splits if_splits)

lemma Diff_view: "view_apply (Changes (Diff b a)) (view_of b) = view_of a"
proof
  fix k :: "string \<times> string"
  obtain coll rid where k: "k = (coll, rid)" by (cases k)
  let ?m = "map_of (map (\<lambda>c. (change_key c, c)) (Changes (Diff b a))) k"
  have all: "set (diff_row coll (rows_of b coll) (rows_of a coll) rid) \<subseteq> set (Changes (Diff b a))"
    using Diff_key by (fastforce simp: Diff_changes_iff change_key_def)
  show "view_apply (Changes (Diff b a)) (view_of b) k = view_of a k"
  proof (cases ?m)
    case None
    then have "k \<notin> change_key ` set (Changes (Diff b a))" by (auto simp: map_of_eq_None_iff image_iff)
    then have "diff_row coll (rows_of b coll) (rows_of a coll) rid = []"
      using all Diff_key k by (metis image_eqI list.set_intros(1) neq_Nil_conv subset_iff)
    then show ?thesis
      unfolding view_apply_lookup [OF Diff_distinct] None
      by (auto simp: diff_row_def view_of_def k split: option.splits if_splits)
  next
    case (Some c)
    then have c: "c \<in> set (Changes (Diff b a))" "change_key c = k" by (auto dest: map_of_SomeD)
    from c(1) have "(if ch_Op c = OpDelete then None else Some (ch_After c)) = fmlookup (rows_of a (Collection c)) (ch_ID c)"
      unfolding Diff_changes_iff by (rule diff_row_after)
    then show ?thesis
      unfolding view_apply_lookup [OF Diff_distinct] Some using c(2) by (auto simp: view_of_def change_key_def)
  qed
qed

text \<open>applying the difference of two snapshots to the first gives the rows of the second, and
  applying its inverse to the second gives back the rows of the first.\<close>

theorem Diff_Apply_Invert_roundtrip:
  "view_of (Apply_ChangeSet (Diff before after) before) = view_of after \<and>
   view_of (Apply_ChangeSet (Invert (Diff before after)) after) = view_of before"
proof -
  have "view_apply (map Change_Invert (Changes (Diff before after))) (view_of after) = view_of before"
    using view_invert [OF Diff_distinct, of before after "view_of before"] Diff_fits by (simp add: Diff_view)
  then show ?thesis by (simp add: view_of_Apply Diff_view Invert_def)
qed

subsection \<open>The undo/redo stack\<close>

record Stack =
  entries :: "ChangeSet list"
  cursor :: nat
  byteCap :: int
  stack_bytes :: int

definition NewStack :: "int \<Rightarrow> Stack" where
  "NewStack cap = \<lparr>entries = [], cursor = 0, byteCap = cap, stack_bytes = 0\<rparr>"

definition dropRedoTail :: "Stack \<Rightarrow> Stack" where
  "dropRedoTail s =
     s\<lparr>stack_bytes := foldl (\<lambda>n cs. n - ChangeSet_Bytes cs) (stack_bytes s) (drop (cursor s) (entries s)),
       entries := take (cursor s) (entries s)\<rparr>"

fun evict_oldest :: "int \<Rightarrow> int \<Rightarrow> ChangeSet list \<Rightarrow> nat \<Rightarrow> int \<times> ChangeSet list \<times> nat" where
  "evict_oldest cap n (e # e' # es) c =
     (if n > cap then evict_oldest cap (n - ChangeSet_Bytes e) (e' # es) (if c > 0 then c - 1 else c)
      else (n, e # e' # es, c))"
| "evict_oldest cap n es c = (n, es, c)"

definition enforceCap :: "Stack \<Rightarrow> Stack" where
  "enforceCap s =
     (if byteCap s \<le> 0 then s
      else case evict_oldest (byteCap s) (stack_bytes s) (entries s) (cursor s) of
        (n, es, c) \<Rightarrow> s\<lparr>stack_bytes := n, entries := es, cursor := c\<rparr>)"

definition Push :: "Stack \<Rightarrow> ChangeSet \<Rightarrow> Stack" where
  "Push s cs =
     (if IsEmpty cs then s
      else
        let s = dropRedoTail s;
            s = s\<lparr>entries := entries s @ [cs], cursor := cursor s + 1, stack_bytes := stack_bytes s + ChangeSet_Bytes cs\<rparr>
        in enforceCap s)"

definition singleSameRow :: "ChangeSet \<Rightarrow> ChangeSet \<Rightarrow> (Change \<times> Change) option" where
  "singleSameRow a b =
     (if length (Changes a) \<noteq> 1 \<or> length (Changes b) \<noteq> 1 then None
      else
        let ca = Changes a ! 0; cb = Changes b ! 0 in
        if Collection ca \<noteq> Collection cb \<or> ch_ID ca \<noteq> ch_ID cb then None else Some (ca, cb))"

definition coalesce :: "Change \<Rightarrow> Change \<Rightarrow> Change" where
  "coalesce prev next =
     \<lparr>Collection = Collection prev, ch_ID = ch_ID prev,
      ch_Op = (if ch_Op prev = OpAdd \<and> ch_Op next = OpDelete then OpDelete
               else if ch_Op prev = OpAdd then OpAdd
               else if ch_Op next = OpDelete then OpDelete
               else OpUpdate),
      ch_Before = ch_Before prev, ch_After = ch_After next\<rparr>"

definition PushCoalescing :: "Stack \<Rightarrow> ChangeSet \<Rightarrow> Stack" where
  "PushCoalescing s cs =
     (if IsEmpty cs then s
      else
        case (if cursor s = length (entries s) \<and> cursor s > 0 then singleSameRow (entries s ! (cursor s - 1)) cs else None) of
          Some (a, b) \<Rightarrow>
            let top = entries s ! (cursor s - 1);
                merged = \<lparr>cs_Label = cs_Label cs, cs_UndoID = cs_UndoID cs, Changes = [coalesce a b]\<rparr>
            in enforceCap (s\<lparr>stack_bytes := stack_bytes s + (ChangeSet_Bytes merged - ChangeSet_Bytes top),
                 entries := (entries s)[cursor s - 1 := merged]\<rparr>)
        | None \<Rightarrow> Push s cs)"

definition CanUndo :: "Stack \<Rightarrow> bool" where "CanUndo s \<longleftrightarrow> cursor s > 0"
definition CanRedo :: "Stack \<Rightarrow> bool" where "CanRedo s \<longleftrightarrow> cursor s < length (entries s)"
definition UndoID :: "Stack \<Rightarrow> string" where
  "UndoID s = (if \<not> CanUndo s then [] else cs_UndoID (entries s ! (cursor s - 1)))"

definition Undo :: "Stack \<Rightarrow> (Stack \<times> ChangeSet) option" where
  "Undo s =
     (if \<not> CanUndo s then None
      else let s = s\<lparr>cursor := cursor s - 1\<rparr> in Some (s, Invert (entries s ! cursor s)))"

definition Redo :: "Stack \<Rightarrow> (Stack \<times> ChangeSet) option" where
  "Redo s =
     (if \<not> CanRedo s then None
      else Some (s\<lparr>cursor := cursor s + 1\<rparr>, entries s ! cursor s))"

subsection \<open>The byte bound\<close>

definition total_bytes :: "ChangeSet list \<Rightarrow> int" where
  "total_bytes es = (\<Sum>e\<leftarrow>es. ChangeSet_Bytes e)"

definition stack_inv :: "Stack \<Rightarrow> bool" where
  "stack_inv s \<longleftrightarrow> cursor s \<le> length (entries s) \<and> stack_bytes s = total_bytes (entries s) \<and>
     (byteCap s \<le> 0 \<or> stack_bytes s \<le> byteCap s \<or> length (entries s) \<le> 1)"

lemma evict_oldest_drop:
  assumes "n = total_bytes es" "c \<le> length es"
  shows "\<exists>k. evict_oldest cap n es c = (total_bytes (drop k es), drop k es, c - k) \<and> k \<le> length es \<and>
    (total_bytes (drop k es) \<le> cap \<or> length (drop k es) \<le> 1) \<and> (k < length es \<or> k = 0)"
  using assms
proof (induction cap n es c rule: evict_oldest.induct)
  case (1 cap n e e' es c)
  show ?case
  proof (cases "n > cap")
    case True
    have "n - ChangeSet_Bytes e = total_bytes (e' # es)" "(if c > 0 then c - 1 else c) \<le> length (e' # es)"
      using 1(2,3) by (auto simp: total_bytes_def)
    from 1(1) [OF True this] obtain k where "evict_oldest cap (n - ChangeSet_Bytes e) (e' # es) (if c > 0 then c - 1 else c) =
        (total_bytes (drop k (e' # es)), drop k (e' # es), (if c > 0 then c - 1 else c) - k)" "k \<le> length (e' # es)"
      "total_bytes (drop k (e' # es)) \<le> cap \<or> length (drop k (e' # es)) \<le> 1" "k < length (e' # es) \<or> k = 0" by blast
    then show ?thesis using True by (intro exI [of _ "Suc k"]) auto
  qed (use 1 in \<open>auto intro!: exI [of _ 0]\<close>)
qed (auto simp: total_bytes_def intro!: exI [of _ 0])

lemma enforceCap_drop:
  assumes "stack_bytes s = total_bytes (entries s)" "cursor s \<le> length (entries s)"
  shows "\<exists>k. enforceCap s = s\<lparr>stack_bytes := total_bytes (drop k (entries s)), entries := drop k (entries s), cursor := cursor s - k\<rparr> \<and>
    stack_inv (enforceCap s) \<and> (k < length (entries s) \<or> k = 0)"
proof (cases "byteCap s \<le> 0")
  case True
  then show ?thesis using assms by (intro exI [of _ 0]) (simp add: enforceCap_def stack_inv_def)
next
  case False
  from evict_oldest_drop [OF assms, of "byteCap s"] obtain k where
    k: "evict_oldest (byteCap s) (stack_bytes s) (entries s) (cursor s) = (total_bytes (drop k (entries s)), drop k (entries s), cursor s - k)"
      "total_bytes (drop k (entries s)) \<le> byteCap s \<or> length (drop k (entries s)) \<le> 1" "k < length (entries s) \<or> k = 0" by blast
  then show ?thesis using False assms(2) by (intro exI [of _ k]) (auto simp: enforceCap_def stack_inv_def)
qed

lemma foldl_minus_bytes: "foldl (\<lambda>n cs. n - ChangeSet_Bytes cs) n es = n - total_bytes es"
  by (induction es arbitrary: n) (auto simp: total_bytes_def)

lemma dropRedoTail_inv:
  assumes "stack_inv s"
  shows "stack_bytes (dropRedoTail s) = total_bytes (entries (dropRedoTail s))"
    "cursor (dropRedoTail s) = length (entries (dropRedoTail s))"
proof -
  have "total_bytes (entries s) = total_bytes (take (cursor s) (entries s)) + total_bytes (drop (cursor s) (entries s))"
    unfolding total_bytes_def sum_list_append [symmetric] map_append [symmetric] append_take_drop_id ..
  then show "stack_bytes (dropRedoTail s) = total_bytes (entries (dropRedoTail s))"
    using assms by (simp add: dropRedoTail_def foldl_minus_bytes stack_inv_def)
  show "cursor (dropRedoTail s) = length (entries (dropRedoTail s))"
    using assms by (simp add: dropRedoTail_def stack_inv_def)
qed

lemma Push_drop:
  assumes "stack_inv s" "\<not> IsEmpty cs"
  shows "\<exists>k. entries (Push s cs) = drop k (take (cursor s) (entries s) @ [cs]) \<and> cursor (Push s cs) = length (entries (Push s cs)) \<and>
    k \<le> cursor s \<and> stack_inv (Push s cs) \<and> byteCap (Push s cs) = byteCap s"
proof -
  let ?d = "dropRedoTail s"
  let ?s = "?d\<lparr>entries := entries ?d @ [cs], cursor := cursor ?d + 1, stack_bytes := stack_bytes ?d + ChangeSet_Bytes cs\<rparr>"
  have d: "entries ?d = take (cursor s) (entries s)" "cursor ?d = cursor s" "byteCap ?d = byteCap s"
    by (simp_all add: dropRedoTail_def)
  have s: "stack_bytes ?s = total_bytes (entries ?s)" "cursor ?s = length (entries ?s)"
    using dropRedoTail_inv [OF assms(1)] by (simp_all add: total_bytes_def)
  obtain k where k: "enforceCap ?s = ?s\<lparr>stack_bytes := total_bytes (drop k (entries ?s)), entries := drop k (entries ?s), cursor := cursor ?s - k\<rparr>"
    "stack_inv (enforceCap ?s)" "k < length (entries ?s) \<or> k = 0"
    using enforceCap_drop [OF s(1) eq_imp_le [OF s(2)]] by blast
  have "Push s cs = enforceCap ?s" using assms(2) by (simp add: Push_def Let_def)
  then show ?thesis
    using k s(2) assms(1) by (intro exI [of _ k]) (auto simp: d stack_inv_def)
qed

subsection \<open>The editor the stack implements\<close>

text \<open>
  The application keeps a stack beside its dataset: an edit pushes the difference, undo and redo
  apply the change set they are given. The abstract editor keeps the versions themselves, oldest
  first, the present one and the undone ones; an edit may forget some of the oldest versions.
\<close>

inductive stack_step :: "Stack \<times> Snapshot \<Rightarrow> Stack \<times> Snapshot \<Rightarrow> bool" where
  edit: "stack_step (s, d) (Push s ((Diff d d')\<lparr>cs_Label := label, cs_UndoID := uid\<rparr>), d')"
| undo: "Undo s = Some (s', cs) \<Longrightarrow> stack_step (s, d) (s', Apply_ChangeSet cs d)"
| redo: "Redo s = Some (s', cs) \<Longrightarrow> stack_step (s, d) (s', Apply_ChangeSet cs d)"

type_synonym editor = "view list \<times> view \<times> view list"

inductive editor_step :: "editor \<Rightarrow> editor \<Rightarrow> bool" where
  e_edit: "k \<le> length past \<Longrightarrow> editor_step (past, v, future) (drop k (past @ [v]), v', [])"
| e_same: "editor_step (past, v, future) (past, v, future)"
| e_undo: "editor_step (past @ [u], v, future) (past, u, v # future)"
| e_redo: "editor_step (past, v, w # future) (past @ [v], w, future)"

fun chain :: "ChangeSet list \<Rightarrow> view list \<Rightarrow> bool" where
  "chain [] vs \<longleftrightarrow> length vs = 1"
| "chain (c # cs) (v # w # vs) \<longleftrightarrow>
     view_apply (Changes c) v = w \<and> view_apply (Changes (Invert c)) w = v \<and> chain cs (w # vs)"
| "chain (c # cs) vs \<longleftrightarrow> False"

definition implements :: "Stack \<times> Snapshot \<Rightarrow> editor \<Rightarrow> bool" where
  "implements c e \<longleftrightarrow> (case (c, e) of ((s, d), (past, v, future)) \<Rightarrow>
     stack_inv s \<and> v = view_of d \<and> length past = cursor s \<and> chain (entries s) (past @ v # future))"

lemma chain_length: "chain cs vs \<Longrightarrow> length vs = length cs + 1"
  by (induction cs vs rule: chain.induct) auto

lemma chain_nth:
  "chain cs vs \<Longrightarrow> i < length cs \<Longrightarrow>
   view_apply (Changes (cs ! i)) (vs ! i) = vs ! (i + 1) \<and> view_apply (Changes (Invert (cs ! i))) (vs ! (i + 1)) = vs ! i"
  by (induction cs vs arbitrary: i rule: chain.induct) (auto simp: nth_Cons split: nat.splits)

lemma chain_drop: "chain cs vs \<Longrightarrow> k \<le> length cs \<Longrightarrow> chain (drop k cs) (drop k vs)"
proof (induction cs vs arbitrary: k rule: chain.induct)
  case (2 c cs v w vs)
  then show ?case by (cases k) auto
qed auto

lemma chain_take: "chain cs vs \<Longrightarrow> k \<le> length cs \<Longrightarrow> chain (take k cs) (take (Suc k) vs)"
proof (induction cs vs arbitrary: k rule: chain.induct)
  case (2 c cs v w vs)
  then show ?case by (cases k) auto
qed auto

lemma chain_snoc:
  "chain cs (vs @ [v]) \<Longrightarrow> view_apply (Changes c) v = w \<Longrightarrow> view_apply (Changes (Invert c)) w = v \<Longrightarrow>
   chain (cs @ [c]) (vs @ [v, w])"
proof (induction cs arbitrary: vs)
  case (Cons c' cs)
  from Cons.prems(1) obtain u us where vs: "vs = u # us" by (cases vs) auto
  show ?case
  proof (cases us)
    case (Cons x xs)
    with Cons.prems Cons.IH [of us] vs show ?thesis by simp
  next
    case Nil
    then have "cs = []" using Cons.prems(1) vs chain_length [of cs "[v]"] by simp
    then show ?thesis using Cons.prems vs Nil by simp
  qed
qed simp

lemma edit_implements:
  assumes "implements (s, d) (past, v, future)"
  shows "\<exists>e. editor_step (past, v, future) e \<and> implements (Push s ((Diff d d')\<lparr>cs_Label := label, cs_UndoID := uid\<rparr>), d') e"
proof -
  let ?cs = "(Diff d d')\<lparr>cs_Label := label, cs_UndoID := uid\<rparr>"
  have i: "stack_inv s" "v = view_of d" "length past = cursor s" "chain (entries s) (past @ v # future)"
    using assms unfolding implements_def prod.case by blast+
  have fwd: "view_apply (Changes ?cs) v = view_of d'" by (simp add: i(2) Diff_view)
  have bwd: "view_apply (Changes (Invert ?cs)) (view_of d') = v"
    using view_invert [OF Diff_distinct, of d d' "view_of d"] Diff_fits by (simp add: Invert_def Diff_view i(2))
  show ?thesis
  proof (cases "IsEmpty ?cs")
    case True
    then have "view_of d' = v" using fwd by (simp add: IsEmpty_def view_apply_def)
    then have "implements (Push s ?cs, d') (past, v, future)"
      using i True by (simp add: implements_def Push_def)
    then show ?thesis using editor_step.e_same by blast
  next
    case False
    obtain k where k: "entries (Push s ?cs) = drop k (take (cursor s) (entries s) @ [?cs])"
      "cursor (Push s ?cs) = length (entries (Push s ?cs))" "k \<le> cursor s" "stack_inv (Push s ?cs)"
      using Push_drop [OF i(1) False] by blast
    have "chain (take (cursor s) (entries s)) (take (Suc (cursor s)) (past @ v # future))"
      by (rule chain_take [OF i(4)]) (use i(1) in \<open>simp add: stack_inv_def\<close>)
    moreover have "take (Suc (cursor s)) (past @ v # future) = past @ [v]" by (simp add: i(3) [symmetric])
    ultimately have c: "chain (take (cursor s) (entries s) @ [?cs]) (past @ [v, view_of d'])"
      using chain_snoc [OF _ fwd bwd] by simp
    have len: "length (take (cursor s) (entries s)) = cursor s" using i(1) by (simp add: stack_inv_def)
    have "chain (entries (Push s ?cs)) (drop k (past @ [v, view_of d']))"
      unfolding k(1) by (rule chain_drop [OF c]) (use k(3) len in simp)
    moreover have "drop k (past @ [v, view_of d']) = drop k (past @ [v]) @ view_of d' # []"
      using k(3) i(3) by simp
    moreover have "length (drop k (past @ [v])) = cursor (Push s ?cs)"
      using k(1-3) len i(3) by simp
    ultimately have "implements (Push s ?cs, d') (drop k (past @ [v]), view_of d', [])"
      using k(4) by (simp add: implements_def)
    moreover have "editor_step (past, v, future) (drop k (past @ [v]), view_of d', [])"
      by (rule editor_step.e_edit) (use k(3) i(3) in simp)
    ultimately show ?thesis by blast
  qed
qed

lemma undo_implements:
  assumes "implements (s, d) (past, v, future)" "Undo s = Some (s', cs)"
  shows "\<exists>e. editor_step (past, v, future) e \<and> implements (s', Apply_ChangeSet cs d) e"
proof -
  have i: "stack_inv s" "v = view_of d" "length past = cursor s" "chain (entries s) (past @ v # future)"
    using assms(1) unfolding implements_def prod.case by blast+
  have c: "cursor s > 0" "s' = s\<lparr>cursor := cursor s - 1\<rparr>" "cs = Invert (entries s ! (cursor s - 1))"
    using assms(2) by (auto simp: Undo_def CanUndo_def Let_def split: if_splits)
  obtain us u where past: "past = us @ [u]" using c(1) i(3) by (cases past rule: rev_cases) auto
  have "cursor s - 1 < length (entries s)" using c(1) i(1) by (auto simp: stack_inv_def)
  from chain_nth [OF i(4) this] have "view_apply (Changes cs) v = u"
    using i(3) [symmetric] by (simp add: past c(3) nth_append)
  then have "implements (s', Apply_ChangeSet cs d) (us, u, v # future)"
  proof -
    assume u: "view_apply (Changes cs) v = u"
    have "stack_inv s'" using i(1) by (auto simp: c(2) stack_inv_def)
    moreover have "length us = cursor s'" using i(3) by (simp add: c(2) past)
    moreover have "chain (entries s') (us @ u # v # future)" using i(4) by (simp add: c(2) past)
    ultimately show ?thesis using u i(2) by (simp add: implements_def view_of_Apply)
  qed
  then show ?thesis unfolding past using editor_step.e_undo by blast
qed

lemma redo_implements:
  assumes "implements (s, d) (past, v, future)" "Redo s = Some (s', cs)"
  shows "\<exists>e. editor_step (past, v, future) e \<and> implements (s', Apply_ChangeSet cs d) e"
proof -
  have i: "stack_inv s" "v = view_of d" "length past = cursor s" "chain (entries s) (past @ v # future)"
    using assms(1) unfolding implements_def prod.case by blast+
  have c: "cursor s < length (entries s)" "s' = s\<lparr>cursor := cursor s + 1\<rparr>" "cs = entries s ! cursor s"
    using assms(2) by (auto simp: Redo_def CanRedo_def split: if_splits)
  obtain w ws where future: "future = w # ws" using c(1) i(3) chain_length [OF i(4)] by (cases future) auto
  from chain_nth [OF i(4) c(1)] have "view_apply (Changes cs) v = w"
    using i(3) by (simp add: future c(3) nth_append)
  then have "implements (s', Apply_ChangeSet cs d) (past @ [v], w, ws)"
    using i c(1) by (auto simp: implements_def c(2) future view_of_Apply stack_inv_def)
  then show ?thesis unfolding future using editor_step.e_redo by blast
qed



subsection \<open>Coalescing\<close>

text \<open>coalescing two consecutive changes of one row gives one change that leads from before the
  first to after the second, and whose inverse leads back, except when an added row is deleted.\<close>

theorem coalesce_spans_both:
  assumes "fits v a" "fits (view_change a v) b" "change_key b = change_key a" "\<not> (ch_Op a = OpAdd \<and> ch_Op b = OpDelete)"
  shows "view_change (coalesce a b) v = view_change b (view_change a v) \<and>
    view_change (Change_Invert (coalesce a b)) (view_change b (view_change a v)) = v"
proof -
  have k: "change_key (coalesce a b) = change_key a" by (simp add: coalesce_def change_key_def)
  show ?thesis
    using assms by (cases "ch_Op a"; cases "ch_Op b")
      (auto simp: fun_eq_iff fits_def view_change_def k coalesce_def Change_Invert_def change_key_def)
qed

definition row_change :: "Op \<Rightarrow> string \<Rightarrow> string \<Rightarrow> Change" where
  "row_change op before after = \<lparr>Collection = ''txn'', ch_ID = ''t'', ch_Op = op, ch_Before = before, ch_After = after\<rparr>"

lemma coalesce_spans_both_witness:
  "view_change (coalesce (row_change OpAdd [] ''1'') (row_change OpUpdate ''1'' ''2'')) (\<lambda>_. None) =
    view_change (row_change OpUpdate ''1'' ''2'') (view_change (row_change OpAdd [] ''1'') (\<lambda>_. None))"
  by (rule coalesce_spans_both [THEN conjunct1])
    (simp_all add: fits_def view_change_def row_change_def change_key_def)

text \<open>The exception is real: undoing the coalesced change leaves a row with a nil value behind.\<close>

lemma coalesce_add_delete_undo:
  "view_change (Change_Invert (coalesce (row_change OpAdd [] ''1'') (row_change OpDelete ''1'' []))) (\<lambda>_. None) (''txn'', ''t'') = Some []"
  by (simp add: view_change_def coalesce_def Change_Invert_def row_change_def change_key_def)

end
