(* ===== verification/SyncQueue.thy ===== *)
theory SyncQueue
  imports Domain Clock "HOL-Library.Multiset" "HOL-Library.Sublist"
begin

text \<open>
  Package \<open>internal/syncstate\<close>: the client's decisions about queued pushes (whose they are, whether
  they may be sent, adopted, rebound or rebased), the token-refresh decision and the rule by which
  the server accepts a push. Shows that the queue behaves as a map from bindings to mutations, and
  that splitting it by owner loses nothing and sends nothing for somebody else.
\<close>

subsection \<open>Bindings and queued mutations (\<open>binding.go\<close>, \<open>syncstate.go\<close>)\<close>

record Binding =
  UserID :: string
  WorkspaceID :: string

record PendingMutation =
  pm_UserID :: string
  pm_WorkspaceID :: string
  pm_Hash :: string
  pm_UpdatedAt :: string

definition Bound :: "Binding \<Rightarrow> bool" where "Bound b \<longleftrightarrow> trim_space (UserID b) \<noteq> []"
definition Valid :: "Binding \<Rightarrow> bool" where "Valid b \<longleftrightarrow> trim_space (WorkspaceID b) \<noteq> []"

definition OwnedBy :: "Binding \<Rightarrow> string \<Rightarrow> bool" where
  "OwnedBy b userID =
     (let userID = trim_space userID in
      if userID = [] then False
      else if \<not> Bound b then True
      else trim_space (UserID b) = userID)"

definition binding :: "PendingMutation \<Rightarrow> Binding" where
  "binding p = \<lparr>UserID = pm_UserID p, WorkspaceID = pm_WorkspaceID p\<rparr>"

fun upsert_loop :: "PendingMutation \<Rightarrow> bool \<Rightarrow> PendingMutation list \<Rightarrow> PendingMutation list \<Rightarrow> bool \<times> PendingMutation list" where
  "upsert_loop nxt replaced out [] = (replaced, out)"
| "upsert_loop nxt replaced out (item # queue) =
     (if binding item = binding nxt
      then upsert_loop nxt True (if \<not> replaced then out @ [nxt] else out) queue
      else upsert_loop nxt replaced (out @ [item]) queue)"

definition UpsertPending :: "PendingMutation list \<Rightarrow> PendingMutation \<Rightarrow> PendingMutation list" where
  "UpsertPending queue nxt =
     (if pm_WorkspaceID nxt = [] \<or> pm_Hash nxt = [] then queue
      else let (replaced, out) = upsert_loop nxt False [] queue in if \<not> replaced then out @ [nxt] else out)"

definition RemovePending :: "PendingMutation list \<Rightarrow> Binding \<Rightarrow> string \<Rightarrow> PendingMutation list" where
  "RemovePending queue b hash = [item \<leftarrow> queue. \<not> (binding item = b \<and> (hash = [] \<or> pm_Hash item = hash))]"

definition PendingFor :: "PendingMutation list \<Rightarrow> string \<Rightarrow> PendingMutation list \<times> PendingMutation list" where
  "PendingFor queue userID =
     ([m \<leftarrow> queue. OwnedBy (binding m) userID], [m \<leftarrow> queue. \<not> OwnedBy (binding m) userID])"

definition Adopt :: "PendingMutation list \<Rightarrow> string \<Rightarrow> PendingMutation list" where
  "Adopt queue userID =
     (let userID = trim_space userID in
      if userID = [] then queue
      else map (\<lambda>m. if \<not> Bound (binding m) then m\<lparr>pm_UserID := userID\<rparr> else m) queue)"

definition rebound :: "Binding \<Rightarrow> PendingMutation \<Rightarrow> PendingMutation" where
  "rebound dest m = m\<lparr>pm_UserID := UserID dest, pm_WorkspaceID := WorkspaceID dest\<rparr>"

definition Rebind :: "PendingMutation list \<Rightarrow> Binding \<Rightarrow> Binding \<Rightarrow> PendingMutation list" where
  "Rebind queue src dest =
     (if \<not> Valid src \<or> \<not> Valid dest then queue
      else foldl UpsertPending [m \<leftarrow> queue. binding m \<noteq> src] (map (rebound dest) [m \<leftarrow> queue. binding m = src]))"

subsection \<open>Upload decisions\<close>

datatype UploadDecision = UploadProceed | UploadSignIn | UploadRebind | UploadNothing

fun contains_sub :: "string \<Rightarrow> string \<Rightarrow> bool" where
  "contains_sub [] sub = (strip_prefix sub [] \<noteq> None)"
| "contains_sub (c # s) sub = (strip_prefix sub (c # s) \<noteq> None \<or> contains_sub s sub)"

definition ReasonWorkspaceNotFound :: string where "ReasonWorkspaceNotFound = ''workspace not found''"

definition IsWorkspaceNotFound :: "string \<Rightarrow> bool" where
  "IsWorkspaceNotFound reason = contains_sub (to_lower reason) ReasonWorkspaceNotFound"

definition DecideUpload :: "string \<Rightarrow> PendingMutation \<Rightarrow> string \<Rightarrow> UploadDecision" where
  "DecideUpload signedInUserID nxt lastReason =
     (if trim_space (pm_WorkspaceID nxt) = [] then UploadNothing
      else if trim_space signedInUserID = []
        then (if IsWorkspaceNotFound lastReason then UploadSignIn else UploadProceed)
      else if \<not> OwnedBy (binding nxt) signedInUserID then UploadRebind
      else if IsWorkspaceNotFound lastReason then UploadRebind
      else UploadProceed)"

record EncryptionDecision =
  enc_Allowed :: bool
  enc_Status :: string
  enc_Message :: string

definition DecideEncryptedUpload :: "bool \<Rightarrow> EncryptionDecision" where
  "DecideEncryptedUpload encryptionReady =
     (if \<not> encryptionReady
      then \<lparr>enc_Allowed = False, enc_Status = ''needs-data-protection'',
            enc_Message = ''Protect your data to turn on sync''\<rparr>
      else \<lparr>enc_Allowed = True, enc_Status = [], enc_Message = []\<rparr>)"

record UploadLineage =
  ul_UserID :: string
  ul_WorkspaceID :: string
  ul_PageID :: string
  ul_Hash :: string
  ul_AncestorHash :: string
  ul_BaseVersion :: int

definition CanRebaseQueuedSuccessor :: "UploadLineage \<Rightarrow> UploadLineage \<Rightarrow> int \<Rightarrow> bool" where
  "CanRebaseQueuedSuccessor accepted pending acceptedVersion \<longleftrightarrow>
     acceptedVersion > ul_BaseVersion accepted \<and>
     ul_UserID accepted \<noteq> [] \<and> ul_WorkspaceID accepted \<noteq> [] \<and> ul_PageID accepted \<noteq> [] \<and> ul_Hash accepted \<noteq> [] \<and>
     ul_UserID pending = ul_UserID accepted \<and> ul_WorkspaceID pending = ul_WorkspaceID accepted \<and>
     ul_PageID pending = ul_PageID accepted \<and> ul_AncestorHash pending = ul_Hash accepted \<and>
     ul_BaseVersion pending = ul_BaseVersion accepted \<and> ul_Hash pending \<noteq> ul_Hash accepted"

definition ShouldResetBackoff :: "bool \<Rightarrow> int \<Rightarrow> int \<Rightarrow> bool" where
  "ShouldResetBackoff received connectedFor healthyAfter \<longleftrightarrow> received \<or> connectedFor \<ge> healthyAfter"

definition ShouldApplyRemote :: "time \<Rightarrow> bool \<Rightarrow> bool \<Rightarrow> time \<Rightarrow> bool \<Rightarrow> bool" where
  "ShouldApplyRemote localUpdatedAt hasLocalMeta hasLocalDataset remoteUpdatedAt hasRemoteDataset =
     (if \<not> hasRemoteDataset \<or> remoteUpdatedAt = zero_time then False
      else if \<not> hasLocalDataset then True
      else if \<not> hasLocalMeta then False
      else remoteUpdatedAt > localUpdatedAt)"

subsection \<open>Adopting a workspace, owning a dataset\<close>

record RemoteWorkspace =
  rw_ID :: string
  rw_UpdatedAt :: string
  rw_Deleted :: bool

fun adopt_loop :: "string \<Rightarrow> string \<Rightarrow> string \<Rightarrow> RemoteWorkspace list \<Rightarrow> string" where
  "adopt_loop activeID best bestUpdated [] = best"
| "adopt_loop activeID best bestUpdated (w # remote) =
     (let wid = trim_space (rw_ID w) in
      if wid = [] \<or> rw_Deleted w then adopt_loop activeID best bestUpdated remote
      else if wid = activeID then []
      else if best = [] \<or> strings_Compare (rw_UpdatedAt w) bestUpdated > 0
        then adopt_loop activeID wid (rw_UpdatedAt w) remote
      else adopt_loop activeID best bestUpdated remote)"

definition AdoptTarget :: "string \<Rightarrow> bool \<Rightarrow> bool \<Rightarrow> RemoteWorkspace list \<Rightarrow> string" where
  "AdoptTarget activeID activeHasSynced activeHasUserData remote =
     (let activeID = trim_space activeID in
      if activeID = [] \<or> activeHasSynced \<or> activeHasUserData then []
      else adopt_loop activeID [] [] remote)"

definition DatasetForeign :: "string \<Rightarrow> string \<Rightarrow> bool" where
  "DatasetForeign ownerUserID signedInUserID =
     (let signedInUserID = trim_space signedInUserID in
      if signedInUserID = [] then False
      else \<not> OwnedBy \<lparr>UserID = ownerUserID, WorkspaceID = []\<rparr> signedInUserID)"

record DatasetOwner =
  do_ServerID :: string
  do_UserID :: string

definition DatasetOwnerForeign :: "DatasetOwner \<Rightarrow> DatasetOwner \<Rightarrow> bool" where
  "DatasetOwnerForeign owner current =
     (if trim_space (do_UserID current) = [] then False
      else if trim_space (do_UserID owner) = [] then False
      else trim_space (do_ServerID owner) \<noteq> trim_space (do_ServerID current) \<or>
        trim_space (do_UserID owner) \<noteq> trim_space (do_UserID current))"

subsection \<open>Scoped entries (\<open>enqueue.go\<close>)\<close>

record QueueScope =
  qs_WorkspaceID :: string
  qs_OwnerUserID :: string
  qs_BaseVersion :: int

record ScopedEntry =
  se_WorkspaceID :: string
  se_OwnerUserID :: string
  se_BaseVersion :: int
  se_Hash :: string

definition CaptureScope :: "string \<Rightarrow> string \<Rightarrow> int \<Rightarrow> QueueScope" where
  "CaptureScope workspaceID ownerUserID baseVersion =
     \<lparr>qs_WorkspaceID = trim_space workspaceID, qs_OwnerUserID = trim_space ownerUserID, qs_BaseVersion = baseVersion\<rparr>"

definition Entry :: "QueueScope \<Rightarrow> string \<Rightarrow> ScopedEntry" where
  "Entry s hash = \<lparr>se_WorkspaceID = qs_WorkspaceID s, se_OwnerUserID = qs_OwnerUserID s,
     se_BaseVersion = qs_BaseVersion s, se_Hash = hash\<rparr>"

definition PushableEntry :: "ScopedEntry \<Rightarrow> string \<Rightarrow> bool" where
  "PushableEntry entry signedInUserID =
     (let signedInUserID = trim_space signedInUserID in
      if signedInUserID = [] then False
      else if trim_space (se_WorkspaceID entry) = [] then False
      else let owner = trim_space (se_OwnerUserID entry) in
        if owner = [] then True else owner = signedInUserID)"

fun split_loop :: "string \<Rightarrow> ScopedEntry list \<Rightarrow> ScopedEntry list \<Rightarrow> ScopedEntry list \<Rightarrow> ScopedEntry list \<times> ScopedEntry list" where
  "split_loop user pushable parked [] = (pushable, parked)"
| "split_loop user pushable parked (e # queue) =
     (if PushableEntry e user then split_loop user (pushable @ [e]) parked queue
      else split_loop user pushable (parked @ [e]) queue)"

definition SplitPushable :: "ScopedEntry list \<Rightarrow> string \<Rightarrow> ScopedEntry list \<times> ScopedEntry list" where
  "SplitPushable queue signedInUserID = split_loop signedInUserID [] [] queue"

fun owners_loop :: "string list \<Rightarrow> string list \<Rightarrow> ScopedEntry list \<Rightarrow> string list" where
  "owners_loop seen owners [] = owners"
| "owners_loop seen owners (e # parked) =
     (let owner = trim_space (se_OwnerUserID e) in
      if owner = [] \<or> owner \<in> set seen then owners_loop seen owners parked
      else owners_loop (owner # seen) (owners @ [owner]) parked)"

definition ParkedOwners :: "ScopedEntry list \<Rightarrow> string list" where
  "ParkedOwners parked = owners_loop [] [] parked"

datatype pull_verdict = PullOK | PullRejectWorkspaceChanged | PullRejectAccountChanged | PullRejectUnknownAccount

definition CheckPullScope :: "string \<Rightarrow> string \<Rightarrow> string \<Rightarrow> string \<Rightarrow> pull_verdict" where
  "CheckPullScope pulledWorkspaceID activeWorkspaceID requestedByUserID signedInUserID =
     (let pulled = trim_space pulledWorkspaceID in
      if pulled = [] \<or> pulled \<noteq> trim_space activeWorkspaceID then PullRejectWorkspaceChanged
      else let requested = trim_space requestedByUserID; signed_in = trim_space signedInUserID in
        if requested \<noteq> signed_in then PullRejectAccountChanged
        else if signed_in = [] then PullRejectUnknownAccount
        else PullOK)"

subsection \<open>Token refresh (\<open>tokens.go\<close>)\<close>

datatype RefreshDecision = RefreshNeeded | RefreshReuseStored | RefreshSessionGone

definition DecideRefresh :: "string \<Rightarrow> string \<Rightarrow> string \<Rightarrow> string \<Rightarrow> RefreshDecision" where
  "DecideRefresh startingRefresh storedRefresh startingAccess storedAccess =
     (let startingRefresh = trim_space startingRefresh; storedRefresh = trim_space storedRefresh;
          startingAccess = trim_space startingAccess; storedAccess = trim_space storedAccess in
      if storedRefresh = [] \<and> storedAccess = [] \<and> (startingRefresh \<noteq> [] \<or> startingAccess \<noteq> [])
        then RefreshSessionGone
      else if storedRefresh \<noteq> [] \<and> storedRefresh \<noteq> startingRefresh then RefreshReuseStored
      else if storedAccess \<noteq> [] \<and> storedAccess \<noteq> startingAccess then RefreshReuseStored
      else RefreshNeeded)"

fun clear_loop :: "string list \<Rightarrow> string list \<Rightarrow> string list \<Rightarrow> string list \<Rightarrow> string list \<Rightarrow> string list" where
  "clear_loop exactSet key_prefixes seen out [] = out"
| "clear_loop exactSet key_prefixes seen out (k # present) =
     (if k \<in> set seen then clear_loop exactSet key_prefixes seen out present
      else if k \<in> set exactSet \<or> (\<exists>p \<in> set key_prefixes. p \<noteq> [] \<and> strip_prefix p k \<noteq> None)
        then clear_loop exactSet key_prefixes (k # seen) (out @ [k]) present
      else clear_loop exactSet key_prefixes seen out present)"

definition KeysToClearOnServerChange :: "string list \<Rightarrow> string list \<Rightarrow> string list \<Rightarrow> string list" where
  "KeysToClearOnServerChange present exact key_prefixes =
     sort (clear_loop [k \<leftarrow> map trim_space exact. k \<noteq> []] key_prefixes [] [] present)"

subsection \<open>Accepting a push (\<open>putdecision.go\<close>)\<close>

record PutInput =
  Exists :: bool
  Deleted :: bool
  Force :: bool
  ClientBaseVersion :: int
  HasBaseVersion :: bool
  CurrentVersion :: int
  ClientUpdatedAt :: time
  CurrentUpdatedAt :: time

datatype put_reason = RNone | RNew | RForced | RDeleted | RVersionMatch | RVersionStale | RVersionAhead | RClockOlder | RClockNewer

record PutVerdict =
  verdict_Accept :: bool
  verdict_Reason :: put_reason

abbreviation verdict :: "bool \<Rightarrow> put_reason \<Rightarrow> PutVerdict" where
  "verdict a r \<equiv> \<lparr>verdict_Accept = a, verdict_Reason = r\<rparr>"

definition DecidePut :: "PutInput \<Rightarrow> PutVerdict" where
  "DecidePut i =
     (if \<not> Exists i then verdict True RNew
      else if Force i then verdict True RForced
      else if Deleted i then verdict False RDeleted
      else if HasBaseVersion i \<or> ClientBaseVersion i > 0 then
        (if ClientBaseVersion i = CurrentVersion i then verdict True RVersionMatch
         else if ClientBaseVersion i < CurrentVersion i then verdict False RVersionStale
         else verdict False RVersionAhead)
      else if ClientUpdatedAt i < CurrentUpdatedAt i then verdict False RClockOlder
      else verdict True RClockNewer)"

subsection \<open>The queue as a map\<close>

text \<open>The specification of the queue: at most one mutation per binding.\<close>

definition pending_of :: "PendingMutation list \<Rightarrow> Binding \<Rightarrow> PendingMutation option" where
  "pending_of queue b = find (\<lambda>m. binding m = b) queue"

definition queue_ok :: "PendingMutation list \<Rightarrow> bool" where
  "queue_ok queue \<longleftrightarrow> distinct (map binding queue)"

definition sendable :: "PendingMutation \<Rightarrow> bool" where
  "sendable m \<longleftrightarrow> pm_WorkspaceID m \<noteq> [] \<and> pm_Hash m \<noteq> []"

lemma pending_of_Cons: "pending_of (m # q) b = (if binding m = b then Some m else pending_of q b)"
  by (simp add: pending_of_def)

lemma pending_of_append: "pending_of (p @ q) b = (case pending_of p b of Some m \<Rightarrow> Some m | None \<Rightarrow> pending_of q b)"
  by (induction p) (simp_all add: pending_of_def)

lemma pending_of_None: "pending_of q b = None \<longleftrightarrow> b \<notin> binding ` set q"
  by (auto simp: pending_of_def find_None_iff)

lemma pending_of_Some: "pending_of q b = Some m \<Longrightarrow> m \<in> set q \<and> binding m = b"
  by (auto simp: pending_of_def find_Some_iff)

lemma pending_of_filter:
  "(\<And>m. m \<in> set q \<Longrightarrow> binding m = b \<Longrightarrow> P m) \<Longrightarrow> pending_of (filter P q) b = pending_of q b"
  by (induction q) (auto simp: pending_of_def)

lemmas queue_simps = pending_of_Cons pending_of_append queue_ok_def

lemma upsert_loop_found:
  "upsert_loop nxt True out q = (True, out @ [m \<leftarrow> q. binding m \<noteq> binding nxt])"
  by (induction q arbitrary: out) auto

lemma upsert_loop_scan:
  "upsert_loop nxt False out q =
     (if binding nxt \<in> binding ` set q
      then (True, out @ takeWhile (\<lambda>m. binding m \<noteq> binding nxt) q @ nxt #
         [m \<leftarrow> dropWhile (\<lambda>m. binding m \<noteq> binding nxt) q. binding m \<noteq> binding nxt])
      else (False, out @ q))"
  by (induction q arbitrary: out) (auto simp: upsert_loop_found)

text \<open>
  In closed form: the mutation takes the place of the first entry of its binding, later entries of
  the binding go, and a new binding is appended.
\<close>

lemma UpsertPending_eq:
  "sendable nxt \<Longrightarrow> UpsertPending q nxt =
     (let other = (\<lambda>m. binding m \<noteq> binding nxt) in
      takeWhile other q @ nxt # filter other (dropWhile other q))"
  by (simp add: UpsertPending_def sendable_def Let_def upsert_loop_scan takeWhile_eq_all_conv [THEN iffD2]
    dropWhile_eq_Nil_conv [THEN iffD2] image_iff) (metis (mono_tags, lifting) dropWhile_eq_Nil_conv
      filter.simps(1) takeWhile_eq_all_conv)

lemma upsert_bindings:
  assumes "sendable nxt"
  shows "filter (\<lambda>m. binding m \<noteq> binding nxt) (UpsertPending q nxt) = filter (\<lambda>m. binding m \<noteq> binding nxt) q"
    and "filter (\<lambda>m. binding m = binding nxt) (UpsertPending q nxt) = [nxt]"
proof -
  let ?o = "\<lambda>m. binding m \<noteq> binding nxt"
  have "filter ?o q = filter ?o (takeWhile ?o q) @ filter ?o (dropWhile ?o q)"
    by (metis filter_append takeWhile_dropWhile_id)
  then show "filter ?o (UpsertPending q nxt) = filter ?o q"
    by (simp add: UpsertPending_eq [OF assms] Let_def)
  have "filter (\<lambda>m. binding m = binding nxt) (takeWhile ?o q) = []"
    by (auto simp: filter_empty_conv dest: set_takeWhileD)
  then show "filter (\<lambda>m. binding m = binding nxt) (UpsertPending q nxt) = [nxt]"
    by (simp add: UpsertPending_eq [OF assms] Let_def)
qed

lemma pending_of_via_filter: "pending_of q b = pending_of (filter (\<lambda>m. binding m = b) q) b"
  by (rule pending_of_filter [symmetric]) simp

lemma UpsertPending_map:
  assumes "sendable nxt"
  shows "pending_of (UpsertPending q nxt) = (pending_of q)(binding nxt \<mapsto> nxt)"
proof
  fix b
  show "pending_of (UpsertPending q nxt) b = ((pending_of q)(binding nxt \<mapsto> nxt)) b"
  proof (cases "b = binding nxt")
    case True
    then show ?thesis
      by (subst pending_of_via_filter) (simp add: upsert_bindings [OF assms] pending_of_Cons)
  next
    case False
    have "pending_of q' b = pending_of (filter (\<lambda>m. binding m \<noteq> binding nxt) q') b" for q'
      using False by (intro pending_of_filter [symmetric]) auto
    then show ?thesis using False by (metis fun_upd_other upsert_bindings(1) [OF assms])
  qed
qed

lemma UpsertPending_ok:
  assumes "sendable nxt" "queue_ok q"
  shows "queue_ok (UpsertPending q nxt)"
proof -
  let ?o = "\<lambda>m. binding m \<noteq> binding nxt"
  have "distinct (map binding (takeWhile ?o q @ dropWhile ?o q))"
    using assms(2) by (simp add: queue_ok_def)
  then have "distinct (map binding (takeWhile ?o q))" "distinct (map binding (filter ?o (dropWhile ?o q)))"
    "binding ` set (takeWhile ?o q) \<inter> binding ` set (dropWhile ?o q) = {}"
    unfolding map_append distinct_append by (auto intro: distinct_map_filter)
  then show ?thesis
    by (auto simp: UpsertPending_eq [OF assms(1)] Let_def queue_ok_def dest: set_takeWhileD)
qed

lemma RemovePending_map:
  assumes "queue_ok q"
  shows "pending_of (RemovePending q b hash) =
     (if \<exists>m. pending_of q b = Some m \<and> (hash = [] \<or> pm_Hash m = hash) then (pending_of q)(b := None) else pending_of q)"
  using assms
proof (induction q)
  case (Cons m q)
  have "binding m \<notin> binding ` set q" "queue_ok q" using Cons.prems by (auto simp: queue_ok_def)
  then have None: "pending_of q (binding m) = None" by (simp add: pending_of_None)
  show ?case
    using Cons.IH [OF \<open>queue_ok q\<close>] None
    by (auto simp: RemovePending_def pending_of_Cons fun_eq_iff split: if_splits)
qed (simp add: RemovePending_def pending_of_def)

lemma single_match:
  assumes "queue_ok q"
  shows "[m \<leftarrow> q. binding m = b] = (case pending_of q b of None \<Rightarrow> [] | Some m \<Rightarrow> [m])"
  using assms
proof (induction q)
  case (Cons m q)
  then have q: "queue_ok q" and fresh: "binding m \<notin> binding ` set q" by (simp_all add: queue_ok_def)
  show ?case
  proof (cases "binding m = b")
    case True
    have "[m \<leftarrow> q. binding m = b] = []"
      using fresh unfolding True by (metis (mono_tags, lifting) filter_False image_eqI)
    with True show ?thesis by (simp add: pending_of_Cons)
  qed (simp add: Cons.IH [OF q] pending_of_Cons)
qed (simp add: pending_of_def)

lemma pending_of_without: "pending_of [m \<leftarrow> q. binding m \<noteq> b] = (pending_of q)(b := None)"
proof
  fix c
  show "pending_of [m \<leftarrow> q. binding m \<noteq> b] c = ((pending_of q)(b := None)) c"
  proof (cases "c = b")
    case True
    then show ?thesis by (auto simp: pending_of_None)
  next
    case False
    then show ?thesis by (auto intro!: pending_of_filter)
  qed
qed

lemma Valid_nonempty: "Valid b \<Longrightarrow> WorkspaceID b \<noteq> []"
  by (auto simp: Valid_def trim_space_id)

lemma rebound_facts:
  assumes "Valid dest" "sendable m"
  shows "sendable (rebound dest m)" "binding (rebound dest m) = dest"
  using assms Valid_nonempty [OF assms(1)] by (simp_all add: sendable_def rebound_def binding_def)

text \<open>The invariant of the stored queue, and what each operation does to the map it stands for.\<close>

definition queue_inv :: "PendingMutation list \<Rightarrow> bool" where
  "queue_inv q \<longleftrightarrow> queue_ok q \<and> (\<forall>m \<in> set q. sendable m)"

lemma UpsertPending_set: "set (UpsertPending q m) \<subseteq> insert m (set q)"
proof (cases "sendable m")
  case True
  then show ?thesis by (auto simp: UpsertPending_eq Let_def dest: set_takeWhileD set_dropWhileD)
qed (auto simp: UpsertPending_def sendable_def)

lemma UpsertPending_inv: "queue_inv q \<Longrightarrow> queue_inv (UpsertPending q m)"
proof (cases "sendable m")
  case True
  assume "queue_inv q"
  then show ?thesis using True UpsertPending_ok [of m q] UpsertPending_set [of q m] by (auto simp: queue_inv_def)
qed (auto simp: UpsertPending_def sendable_def)

lemma RemovePending_inv: "queue_inv q \<Longrightarrow> queue_inv (RemovePending q b hash)"
  by (auto simp: queue_inv_def queue_ok_def RemovePending_def distinct_map_filter)

lemma Rebind_step:
  assumes "queue_inv q" "Valid src" "Valid dest"
  shows "pending_of (Rebind q src dest) =
      (case pending_of q src of None \<Rightarrow> pending_of q
       | Some m \<Rightarrow> (pending_of q)(src := None, dest \<mapsto> rebound dest m))"
    and "queue_inv (Rebind q src dest)"
proof -
  let ?rest = "[m \<leftarrow> q. binding m \<noteq> src]"
  have ok: "queue_ok q" "queue_inv ?rest"
    using assms(1) by (auto simp: queue_inv_def queue_ok_def distinct_map_filter)
  have eq: "Rebind q src dest = foldl UpsertPending ?rest (map (rebound dest) (case pending_of q src of None \<Rightarrow> [] | Some m \<Rightarrow> [m]))"
    using assms(2,3) by (simp add: Rebind_def single_match [OF ok(1)])
  show "pending_of (Rebind q src dest) =
      (case pending_of q src of None \<Rightarrow> pending_of q
       | Some m \<Rightarrow> (pending_of q)(src := None, dest \<mapsto> rebound dest m))"
  proof (cases "pending_of q src")
    case None
    then show ?thesis by (simp add: eq pending_of_without fun_upd_idem)
  next
    case (Some m)
    with assms(1) have "sendable m" by (auto simp: queue_inv_def dest: pending_of_Some)
    with Some rebound_facts [OF assms(3), of m] show ?thesis
      by (simp add: eq UpsertPending_map pending_of_without)
  qed
  show "queue_inv (Rebind q src dest)"
    by (cases "pending_of q src") (simp_all add: eq UpsertPending_inv ok)
qed

datatype queue_op = QUpsert PendingMutation | QRemove Binding string | QRebind Binding Binding

primrec run_queue_op :: "PendingMutation list \<Rightarrow> queue_op \<Rightarrow> PendingMutation list" where
  "run_queue_op q (QUpsert m) = UpsertPending q m"
| "run_queue_op q (QRemove b hash) = RemovePending q b hash"
| "run_queue_op q (QRebind src dest) = Rebind q src dest"

text \<open>The same operations on the map.\<close>

primrec spec_queue_op :: "(Binding \<Rightarrow> PendingMutation option) \<Rightarrow> queue_op \<Rightarrow> Binding \<Rightarrow> PendingMutation option" where
  "spec_queue_op M (QUpsert m) = (if sendable m then M(binding m \<mapsto> m) else M)"
| "spec_queue_op M (QRemove b hash) =
     (case M b of None \<Rightarrow> M | Some m \<Rightarrow> if hash = [] \<or> pm_Hash m = hash then M(b := None) else M)"
| "spec_queue_op M (QRebind src dest) =
     (if Valid src \<and> Valid dest
      then (case M src of None \<Rightarrow> M | Some m \<Rightarrow> M(src := None, dest \<mapsto> rebound dest m))
      else M)"

lemma run_queue_op_refines:
  assumes "queue_inv q"
  shows "queue_inv (run_queue_op q p)" "pending_of (run_queue_op q p) = spec_queue_op (pending_of q) p"
proof -
  have ok: "queue_ok q" using assms by (simp add: queue_inv_def)
  have "queue_inv (run_queue_op q p) \<and> pending_of (run_queue_op q p) = spec_queue_op (pending_of q) p"
  proof (cases p)
    case (QUpsert m)
    then show ?thesis
    proof (cases "sendable m")
      case False
      then have "UpsertPending q m = q" by (auto simp: UpsertPending_def sendable_def)
      with QUpsert False assms show ?thesis by simp
    qed (simp add: assms UpsertPending_inv UpsertPending_map)
  next
    case (QRemove b hash)
    then show ?thesis
      by (cases "pending_of q b") (simp_all add: assms RemovePending_inv RemovePending_map [OF ok])
  next
    case (QRebind src dest)
    then show ?thesis
      using Rebind_step [OF assms] by (cases "Valid src \<and> Valid dest") (auto simp: Rebind_def assms split: option.split)
  qed
  then show "queue_inv (run_queue_op q p)" "pending_of (run_queue_op q p) = spec_queue_op (pending_of q) p" by simp_all
qed

lemma queue_start: "queue_inv []" "pending_of [] = Map.empty"
  by (simp_all add: queue_inv_def queue_ok_def pending_of_def fun_eq_iff)

text \<open>C23: The queue of pending pushes, starting empty and changed by any sequence of enqueueing,
acknowledging and rebinding, always holds at most one mutation per (user, workspace) binding, and
behaves exactly as a map from bindings to mutations: an enqueue or an acknowledgement touches its own
binding only, and a rebind moves one entry, replacing what was queued at the target.\<close>

theorem pending_queue_refines_map:
  "distinct (map binding (foldl run_queue_op [] ops)) \<and>
   pending_of (foldl run_queue_op [] ops) = foldl spec_queue_op Map.empty ops"
proof -
  have "queue_inv (foldl run_queue_op [] ops) \<and>
    pending_of (foldl run_queue_op [] ops) = foldl spec_queue_op Map.empty ops"
    by (induction ops rule: rev_induct) (simp_all add: run_queue_op_refines queue_start)
  then show ?thesis by (simp add: queue_inv_def queue_ok_def)
qed

text \<open>\<open>Adopt\<close> is not among these operations: stamping an unbound entry can give it the binding of
an entry that is queued already, and the two are not collapsed.\<close>

lemma Adopt_duplicates:
  "map binding (Adopt [\<lparr>pm_UserID = [], pm_WorkspaceID = ''w'', pm_Hash = ''1'', pm_UpdatedAt = []\<rparr>,
      \<lparr>pm_UserID = ''u'', pm_WorkspaceID = ''w'', pm_Hash = ''2'', pm_UpdatedAt = []\<rparr>] ''u'') =
   [\<lparr>UserID = ''u'', WorkspaceID = ''w''\<rparr>, \<lparr>UserID = ''u'', WorkspaceID = ''w''\<rparr>]"
  by (simp add: Adopt_def Let_def Bound_def binding_def trim_space_id is_graph_def)

subsection \<open>Splitting the queue by owner\<close>

lemma split_loop_eq:
  "split_loop user a b q = (a @ [e \<leftarrow> q. PushableEntry e user], b @ [e \<leftarrow> q. \<not> PushableEntry e user])"
  by (induction q arbitrary: a b) auto

definition parked_names :: "ScopedEntry list \<Rightarrow> string list" where
  "parked_names parked = [n \<leftarrow> map (\<lambda>e. trim_space (se_OwnerUserID e)) parked. n \<noteq> []]"

lemma owners_loop_eq:
  "set seen = set owners \<Longrightarrow> owners = rev (remdups (rev earlier)) \<Longrightarrow>
   owners_loop seen owners q = rev (remdups (rev (earlier @ parked_names q)))"
proof (induction q arbitrary: seen owners earlier)
  case (Cons e q)
  let ?n = "trim_space (se_OwnerUserID e)"
  show ?case
  proof (cases "?n = []")
    case True
    then show ?thesis using Cons by (simp add: parked_names_def Let_def)
  next
    case False
    let ?owners = "if ?n \<in> set earlier then owners else owners @ [?n]"
    have "owners_loop seen owners (e # q) =
        owners_loop (if ?n \<in> set earlier then seen else ?n # seen) ?owners q"
      using False Cons.prems by (simp add: Let_def)
    also have "\<dots> = rev (remdups (rev ((earlier @ [?n]) @ parked_names q)))"
      using Cons.prems by (intro Cons.IH) auto
    finally show ?thesis using False by (simp add: parked_names_def)
  qed
qed (simp add: parked_names_def)

text \<open>Splitting the queue sends nothing that is not the signed-in account's: each entry is kept,
in order, on exactly one side; every pushable entry names a workspace and is either unowned or owned by
that account; with no account known nothing is pushable. The owners reported for parked work are
exactly the distinct named accounts, in the order first seen.\<close>

theorem SplitPushable_sends_only_own:
  "case SplitPushable q user of (pushable, parked) \<Rightarrow>
     mset pushable + mset parked = mset q \<and> subseq pushable q \<and> subseq parked q \<and>
     set pushable \<subseteq> {e. trim_space user \<noteq> [] \<and> trim_space (se_WorkspaceID e) \<noteq> [] \<and>
        trim_space (se_OwnerUserID e) \<in> {[], trim_space user}} \<and>
     set parked \<inter> {e. trim_space user \<noteq> [] \<and> trim_space (se_WorkspaceID e) \<noteq> [] \<and>
        trim_space (se_OwnerUserID e) \<in> {[], trim_space user}} = {} \<and>
     ParkedOwners parked =
       rev (remdups (rev [n \<leftarrow> map (\<lambda>e. trim_space (se_OwnerUserID e)) parked. n \<noteq> []]))"
proof -
  have owners: "ParkedOwners parked = rev (remdups (rev (parked_names parked)))" for parked
    using owners_loop_eq [of "[]" "[]" "[]" parked] by (simp add: ParkedOwners_def)
  show ?thesis
    by (auto simp: SplitPushable_def split_loop_eq owners parked_names_def PushableEntry_def Let_def
      simp flip: multiset_partition)
qed

end
