(* ===== verification/WorkspaceStore.thy ===== *)
theory WorkspaceStore
  imports SyncQueue
begin

text \<open>
  The server's workspace registry, \<open>internal/server/repository.go\<close> and \<open>workspace_encryption.go\<close>:
  the tables \<open>workspaces\<close>, \<open>snapshots\<close>, \<open>snapshot_history\<close> and the encryption markers of
  \<open>server_meta\<close>, the decide-and-write transaction of a push with its retry loop, the tombstone, and
  the snapshot writes. A failing statement of the database rolls its transaction back; the step
  relation has a step for it. Shows that concurrent pushes never lose an update, that a workspace
  that was encrypted once is never stored in plaintext again, and when the retry loop gives up.
\<close>

subsection \<open>Rows\<close>

record Workspace =
  ws_ID :: string
  ws_UserID :: string
  ws_Name :: string
  ws_Color :: string
  ws_Sort :: int
  ws_Deleted :: bool
  ws_Version :: int
  ws_UpdatedAt :: time
  ws_DeviceID :: string

definition zero_workspace :: Workspace where
  "zero_workspace = \<lparr>ws_ID = [], ws_UserID = [], ws_Name = [], ws_Color = [], ws_Sort = 0, ws_Deleted = False,
     ws_Version = 0, ws_UpdatedAt = zero_time, ws_DeviceID = []\<rparr>"

record StoredSnapshot =
  sn_UserID :: string
  sn_WorkspaceID :: string
  sn_Dataset :: string
  sn_Version :: int
  sn_UpdatedAt :: time

type_synonym ws_key = "string \<times> string"

text \<open>
  Primary keys make the first two tables partial functions of (user id, workspace id); the history
  is the list of its rows with their autoincremented ids; a marker is the pair its name encodes.
\<close>

record database =
  workspaces :: "ws_key \<Rightarrow> Workspace option"
  snapshots :: "ws_key \<Rightarrow> StoredSnapshot option"
  snapshot_history :: "(int \<times> StoredSnapshot) list"
  next_id :: int
  markers :: "ws_key list"

definition ws_key_of :: "Workspace \<Rightarrow> ws_key" where "ws_key_of w = (ws_UserID w, ws_ID w)"
definition sn_key_of :: "StoredSnapshot \<Rightarrow> ws_key" where "sn_key_of s = (sn_UserID s, sn_WorkspaceID s)"

datatype store_error =
  ErrFieldsRequired | ErrPayloadTooLarge | ErrEncryptionDowngrade | ErrNotSettled | ErrForeignKey | ErrDatabase

definition stamped :: "time \<Rightarrow> time \<Rightarrow> time" where
  "stamped now t = (if t = zero_time then now else t)"

subsection \<open>Encryption envelopes and markers (\<open>cryptobox.go\<close>, \<open>workspace_encryption.go\<close>)\<close>

definition EnvelopeMarker :: string where
  "EnvelopeMarker = [CHR 0x00, CHR ''c'', CHR ''f'', CHR ''1'', CHR 0x00]"

definition IsEnvelope :: "string \<Rightarrow> bool" where
  "IsEnvelope dataset \<longleftrightarrow> strip_prefix EnvelopeMarker dataset \<noteq> None"

definition history_of :: "database \<Rightarrow> ws_key \<Rightarrow> (int \<times> StoredSnapshot) list" where
  "history_of db k = [r \<leftarrow> snapshot_history db. sn_key_of (snd r) = k]"

definition markWorkspaceEncryptedTx :: "database \<Rightarrow> ws_key \<Rightarrow> database" where
  "markWorkspaceEncryptedTx db k = db\<lparr>markers := List.insert k (markers db)\<rparr>"

definition workspaceEncryptedTx :: "database \<Rightarrow> ws_key \<Rightarrow> bool \<times> database" where
  "workspaceEncryptedTx db k =
     (if k \<in> set (markers db) then (True, db)
      else if (case snapshots db k of None \<Rightarrow> False | Some s \<Rightarrow> IsEnvelope (sn_Dataset s)) \<or>
          (\<exists>r \<in> set (history_of db k). IsEnvelope (sn_Dataset (snd r)))
        then (True, markWorkspaceEncryptedTx db k)
      else (False, db))"

definition checkSnapshotEncryption :: "database \<Rightarrow> StoredSnapshot \<Rightarrow> store_error option \<times> database" where
  "checkSnapshotEncryption db s =
     (let (encrypted, db) = workspaceEncryptedTx db (sn_key_of s) in
      if encrypted \<and> \<not> IsEnvelope (sn_Dataset s) then (Some ErrEncryptionDowngrade, db) else (None, db))"

subsection \<open>Snapshots and their history\<close>

definition purgePlaintextSnapshotHistoryTx :: "database \<Rightarrow> ws_key \<Rightarrow> database" where
  "purgePlaintextSnapshotHistoryTx db k = db\<lparr>snapshot_history :=
     [r \<leftarrow> snapshot_history db. \<not> (sn_key_of (snd r) = k \<and> \<not> IsEnvelope (sn_Dataset (snd r)))]\<rparr>"

text \<open>\<open>ORDER BY version DESC, id DESC\<close>.\<close>

definition newest_first :: "(int \<times> StoredSnapshot) list \<Rightarrow> (int \<times> StoredSnapshot) list" where
  "newest_first rows = sort_key (\<lambda>r. (- sn_Version (snd r), - fst r)) rows"

definition trimSnapshotHistory :: "database \<Rightarrow> ws_key \<Rightarrow> int \<Rightarrow> database" where
  "trimSnapshotHistory db k limit =
     (if limit \<le> 0 then db\<lparr>snapshot_history := [r \<leftarrow> snapshot_history db. sn_key_of (snd r) \<noteq> k]\<rparr>
      else let kept = map fst (take (nat limit) (newest_first (history_of db k))) in
        db\<lparr>snapshot_history := [r \<leftarrow> snapshot_history db. sn_key_of (snd r) \<noteq> k \<or> fst r \<in> set kept]\<rparr>)"

definition archive_current :: "database \<Rightarrow> ws_key \<Rightarrow> database" where
  "archive_current db k =
     (case snapshots db k of None \<Rightarrow> db
      | Some current \<Rightarrow> db\<lparr>snapshot_history := snapshot_history db @ [(next_id db, current\<lparr>sn_UserID := fst k\<rparr>)],
          next_id := next_id db + 1\<rparr>)"

definition putSnapshotTx :: "time \<Rightarrow> database \<Rightarrow> StoredSnapshot \<Rightarrow> int \<Rightarrow> store_error + database" where
  "putSnapshotTx now db snapshot historyLimit =
     (let k = sn_key_of snapshot; encrypted = IsEnvelope (sn_Dataset snapshot);
          (wasEncrypted, db) = workspaceEncryptedTx db k in
      if wasEncrypted \<and> \<not> encrypted then Inl ErrEncryptionDowngrade
      else let snapshot = snapshot\<lparr>sn_UpdatedAt := stamped now (sn_UpdatedAt snapshot)\<rparr>;
          db = archive_current db k;
          db = db\<lparr>snapshots := (snapshots db)(k \<mapsto> snapshot)\<rparr>;
          db = (if encrypted then purgePlaintextSnapshotHistoryTx (markWorkspaceEncryptedTx db k) k else db)
        in Inr (trimSnapshotHistory db k historyLimit))"

definition PutSnapshot :: "time \<Rightarrow> StoredSnapshot \<Rightarrow> int \<Rightarrow> int \<Rightarrow> database \<Rightarrow> store_error option \<times> database" where
  "PutSnapshot now snapshot maxBytes historyLimit db =
     (if trim_space (sn_WorkspaceID snapshot) = [] then (Some ErrFieldsRequired, db)
      else if maxBytes > 0 \<and> int (length (sn_Dataset snapshot)) > maxBytes then (Some ErrPayloadTooLarge, db)
      else case putSnapshotTx now db snapshot historyLimit of
          Inl e \<Rightarrow> (Some e, db)
        | Inr db' \<Rightarrow>
            if workspaces db' (sn_key_of snapshot) = None then (Some ErrForeignKey, db) else (None, db'))"

definition GetSnapshot :: "database \<Rightarrow> string \<Rightarrow> string \<Rightarrow> StoredSnapshot option" where
  "GetSnapshot db userID workspaceID = snapshots db (userID, workspaceID)"

definition GetSnapshotForUser :: "database \<Rightarrow> string \<Rightarrow> string \<Rightarrow> (store_error + StoredSnapshot option) \<times> database" where
  "GetSnapshotForUser db userID workspaceID =
     (case (snapshots db (userID, workspaceID), workspaces db (userID, workspaceID)) of
        (Some s, Some w) \<Rightarrow>
          (case checkSnapshotEncryption db s of (Some e, db) \<Rightarrow> (Inl e, db) | (None, db) \<Rightarrow> (Inr (Some s), db))
      | _ \<Rightarrow> (Inr None, db))"

definition SnapshotHistory :: "database \<Rightarrow> string \<Rightarrow> string \<Rightarrow> int \<Rightarrow> StoredSnapshot list" where
  "SnapshotHistory db userID workspaceID limit =
     (let rows = map snd (newest_first (history_of db (userID, workspaceID)))
      in if limit > 0 then take (nat limit) rows else rows)"

subsection \<open>The registry\<close>

definition GetWorkspace :: "database \<Rightarrow> string \<Rightarrow> string \<Rightarrow> Workspace option" where
  "GetWorkspace db userID workspaceID = workspaces db (userID, workspaceID)"

definition fields_missing :: "Workspace \<Rightarrow> bool" where
  "fields_missing w \<longleftrightarrow> trim_space (ws_ID w) = [] \<or> trim_space (ws_UserID w) = [] \<or> trim_space (ws_Name w) = []"

definition PutWorkspace :: "time \<Rightarrow> Workspace \<Rightarrow> database \<Rightarrow> store_error option \<times> database" where
  "PutWorkspace now w db =
     (if fields_missing w then (Some ErrFieldsRequired, db)
      else (None, db\<lparr>workspaces := (workspaces db)(ws_key_of w \<mapsto> w\<lparr>ws_UpdatedAt := stamped now (ws_UpdatedAt w)\<rparr>)\<rparr>))"

definition SoftDeleteWorkspace :: "time \<Rightarrow> string \<Rightarrow> string \<Rightarrow> time \<Rightarrow> string \<Rightarrow> database \<Rightarrow> bool \<times> database" where
  "SoftDeleteWorkspace now userID workspaceID updatedAt deviceID db =
     (case workspaces db (userID, workspaceID) of
        None \<Rightarrow> (False, db)
      | Some w \<Rightarrow>
          if ws_Deleted w then (False, db)
          else (True, db\<lparr>workspaces := (workspaces db)((userID, workspaceID) \<mapsto>
            w\<lparr>ws_Deleted := True, ws_Version := ws_Version w + 1, ws_UpdatedAt := stamped now updatedAt,
              ws_DeviceID := deviceID\<rparr>)\<rparr>))"

record AtomicPutWorkspaceInput =
  in_Workspace :: Workspace
  in_Dataset :: string
  in_MaxDatasetBytes :: int
  in_HistoryLimit :: int
  in_BaseVersion :: int
  in_HasBaseVersion :: bool
  in_Force :: bool
  in_ClientUpdatedAt :: time

record AtomicPutWorkspaceResult =
  res_Accepted :: bool
  res_Reason :: put_reason
  res_Workspace :: Workspace

text \<open>
  One transaction reads the row and decides, then writes under a guard. Another transaction may
  commit between the two, so the row that was read and the database that is written are separate
  arguments. From its first write on, the transaction holds the database's write lock.
\<close>

definition put_input :: "AtomicPutWorkspaceInput \<Rightarrow> Workspace option \<Rightarrow> PutInput" where
  "put_input i read =
     (let current = (case read of Some w \<Rightarrow> w | None \<Rightarrow> zero_workspace) in
      \<lparr>Exists = (read \<noteq> None), Deleted = (read \<noteq> None \<and> ws_Deleted current), Force = in_Force i,
       ClientBaseVersion = in_BaseVersion i, HasBaseVersion = in_HasBaseVersion i,
       CurrentVersion = ws_Version current, ClientUpdatedAt = in_ClientUpdatedAt i,
       CurrentUpdatedAt = ws_UpdatedAt current\<rparr>)"

text \<open>The guarded \<open>UPDATE\<close> or \<open>INSERT\<close>: the stored row and the new database, or nothing affected.\<close>

definition guarded_write :: "Workspace option \<Rightarrow> Workspace \<Rightarrow> database \<Rightarrow> (Workspace \<times> database) option" where
  "guarded_write read w db =
     (let k = ws_key_of w in
      case read of
        Some current \<Rightarrow>
          (case workspaces db k of
             Some row \<Rightarrow>
               if ws_Version row = ws_Version current
               then Some (w\<lparr>ws_Version := ws_Version current + 1\<rparr>,
                 db\<lparr>workspaces := (workspaces db)(k \<mapsto>
                   row\<lparr>ws_Name := ws_Name w, ws_Color := ws_Color w, ws_Sort := ws_Sort w, ws_Deleted := ws_Deleted w,
                       ws_Version := ws_Version row + 1, ws_UpdatedAt := ws_UpdatedAt w, ws_DeviceID := ws_DeviceID w\<rparr>)\<rparr>)
               else None
           | None \<Rightarrow> None)
      | None \<Rightarrow>
          (case workspaces db k of
             Some row \<Rightarrow> None
           | None \<Rightarrow> Some (w\<lparr>ws_Version := 1\<rparr>,
               db\<lparr>workspaces := (workspaces db)(k \<mapsto> w\<lparr>ws_Version := 1\<rparr>)\<rparr>)))"

datatype attempt_outcome = Settled AtomicPutWorkspaceResult | Raced bool

definition putWorkspaceAtomicOnce ::
  "time \<Rightarrow> AtomicPutWorkspaceInput \<Rightarrow> Workspace \<Rightarrow> bool \<Rightarrow> Workspace option \<Rightarrow> database \<Rightarrow> (store_error + attempt_outcome) \<times> database" where
  "putWorkspaceAtomicOnce now i w createCollision read db =
     (let current = (case read of Some c \<Rightarrow> c | None \<Rightarrow> zero_workspace); d = DecidePut (put_input i read) in
      if read \<noteq> None \<and> createCollision \<and> \<not> in_Force i
        then (Inr (Settled \<lparr>res_Accepted = False, res_Reason = RVersionStale, res_Workspace = current\<rparr>), db)
      else if \<not> verdict_Accept d
        then (Inr (Settled \<lparr>res_Accepted = False, res_Reason = verdict_Reason d, res_Workspace = current\<rparr>), db)
      else case guarded_write read w db of
          None \<Rightarrow> (Inr (Raced (read = None)), db)
        | Some (stored, db1) \<Rightarrow>
            (let accepted = Inr (Settled \<lparr>res_Accepted = True, res_Reason = RNone, res_Workspace = stored\<rparr>) in
             if in_Dataset i = [] then (accepted, db1)
             else case putSnapshotTx now db1
                 \<lparr>sn_UserID = ws_UserID stored, sn_WorkspaceID = ws_ID stored, sn_Dataset = in_Dataset i,
                  sn_Version = ws_Version stored, sn_UpdatedAt = ws_UpdatedAt stored\<rparr> (in_HistoryLimit i) of
               Inl e \<Rightarrow> (Inl e, db)
             | Inr db2 \<Rightarrow> (accepted, db2)))"

definition maxAttempts :: nat where "maxAttempts = 5"

definition put_prologue :: "time \<Rightarrow> AtomicPutWorkspaceInput \<Rightarrow> store_error + Workspace" where
  "put_prologue now i =
     (if fields_missing (in_Workspace i) then Inl ErrFieldsRequired
      else if in_MaxDatasetBytes i > 0 \<and> int (length (in_Dataset i)) > in_MaxDatasetBytes i then Inl ErrPayloadTooLarge
      else Inr ((in_Workspace i)\<lparr>ws_UpdatedAt := stamped now (ws_UpdatedAt (in_Workspace i))\<rparr>))"

text \<open>The retry loop; the \<open>n\<close>th function is what others commit between the \<open>n\<close>th read and write.\<close>

fun put_attempts ::
  "time \<Rightarrow> AtomicPutWorkspaceInput \<Rightarrow> Workspace \<Rightarrow> (database \<Rightarrow> database) list \<Rightarrow> bool \<Rightarrow> database \<Rightarrow>
   (store_error + AtomicPutWorkspaceResult) \<times> database" where
  "put_attempts now i w [] createCollision db = (Inl ErrNotSettled, db)"
| "put_attempts now i w (others # rest) createCollision db =
     (case putWorkspaceAtomicOnce now i w createCollision (workspaces db (ws_key_of w)) (others db) of
        (Inl e, db') \<Rightarrow> (Inl e, db')
      | (Inr (Settled r), db') \<Rightarrow> (Inr r, db')
      | (Inr (Raced createdCollision), db') \<Rightarrow>
          put_attempts now i w rest (createCollision \<or> createdCollision) db')"

definition PutWorkspaceAtomic ::
  "time \<Rightarrow> AtomicPutWorkspaceInput \<Rightarrow> (nat \<Rightarrow> database \<Rightarrow> database) \<Rightarrow> database \<Rightarrow>
   (store_error + AtomicPutWorkspaceResult) \<times> database" where
  "PutWorkspaceAtomic now i others db =
     (case put_prologue now i of
        Inl e \<Rightarrow> (Inl e, db)
      | Inr w \<Rightarrow> put_attempts now i w (map others [0..<maxAttempts]) False db)"

subsection \<open>What one transaction does\<close>

definition keys_ok :: "database \<Rightarrow> bool" where
  "keys_ok db \<longleftrightarrow> (\<forall>k w. workspaces db k = Some w \<longrightarrow> ws_key_of w = k)"

primrec next_version :: "Workspace option \<Rightarrow> int" where
  "next_version None = 1"
| "next_version (Some w) = ws_Version w + 1"

lemma keys_okD: "keys_ok db \<Longrightarrow> workspaces db k = Some w \<Longrightarrow> ws_key_of w = k"
  unfolding keys_ok_def by blast

lemma keys_ok_upd:
  "keys_ok db \<Longrightarrow> workspaces db' = (workspaces db)(k \<mapsto> w) \<Longrightarrow> ws_key_of w = k \<Longrightarrow> keys_ok db'"
  unfolding keys_ok_def by (metis map_upd_Some_unfold)

lemma workspaces_untouched [simp]:
  "workspaces (snd (workspaceEncryptedTx db k)) = workspaces db"
  "workspaces (markWorkspaceEncryptedTx db k) = workspaces db"
  "workspaces (archive_current db k) = workspaces db"
  "workspaces (purgePlaintextSnapshotHistoryTx db k) = workspaces db"
  "workspaces (trimSnapshotHistory db k limit) = workspaces db"
  by (simp_all add: workspaceEncryptedTx_def markWorkspaceEncryptedTx_def archive_current_def
      trimSnapshotHistory_def purgePlaintextSnapshotHistoryTx_def Let_def split: option.split)

definition stored_tx :: "database \<Rightarrow> StoredSnapshot \<Rightarrow> int \<Rightarrow> database" where
  "stored_tx db s limit =
     (let k = sn_key_of s; db1 = archive_current db k; db2 = db1\<lparr>snapshots := (snapshots db1)(k \<mapsto> s)\<rparr>
      in trimSnapshotHistory (if IsEnvelope (sn_Dataset s)
        then purgePlaintextSnapshotHistoryTx (markWorkspaceEncryptedTx db2 k) k else db2) k limit)"

lemma putSnapshotTx_Inr:
  "putSnapshotTx now db s limit = Inr db' \<longleftrightarrow>
   (fst (workspaceEncryptedTx db (sn_key_of s)) \<longrightarrow> IsEnvelope (sn_Dataset s)) \<and>
   db' = stored_tx (snd (workspaceEncryptedTx db (sn_key_of s))) (s\<lparr>sn_UpdatedAt := stamped now (sn_UpdatedAt s)\<rparr>) limit"
proof (cases "workspaceEncryptedTx db (sn_key_of s)")
  case (Pair was db1)
  have "sn_key_of (s\<lparr>sn_UpdatedAt := t\<rparr>) = sn_key_of s" for t by (simp add: sn_key_of_def)
  then show ?thesis by (auto simp: putSnapshotTx_def stored_tx_def Let_def Pair)
qed

lemma putSnapshotTx_workspaces: "putSnapshotTx now db s limit = Inr db' \<Longrightarrow> workspaces db' = workspaces db"
  by (simp add: putSnapshotTx_Inr stored_tx_def Let_def)

lemma guarded_write_facts:
  assumes "guarded_write read w db = Some (stored, db1)" "keys_ok db"
  shows "db1 = db\<lparr>workspaces := (workspaces db)(ws_key_of w \<mapsto> stored)\<rparr>"
    and "ws_Version stored = next_version (workspaces db (ws_key_of w))"
    and "ws_key_of stored = ws_key_of w"
    and "map_option ws_Version read = map_option ws_Version (workspaces db (ws_key_of w))"
proof -
  have "db1 = db\<lparr>workspaces := (workspaces db)(ws_key_of w \<mapsto> stored)\<rparr> \<and>
    ws_Version stored = next_version (workspaces db (ws_key_of w)) \<and> ws_key_of stored = ws_key_of w \<and>
    map_option ws_Version read = map_option ws_Version (workspaces db (ws_key_of w))"
  proof (cases "workspaces db (ws_key_of w)")
    case None
    then show ?thesis
      using assms(1) by (auto simp: guarded_write_def Let_def ws_key_of_def split: option.splits)
  next
    case (Some row)
    then have row: "ws_UserID row = ws_UserID w" "ws_ID row = ws_ID w"
      using keys_okD [OF assms(2) Some] by (simp_all add: ws_key_of_def)
    from Some assms(1) obtain current where c: "read = Some current" "ws_Version row = ws_Version current"
        "stored = w\<lparr>ws_Version := ws_Version current + 1\<rparr>"
        "db1 = db\<lparr>workspaces := (workspaces db)(ws_key_of w \<mapsto>
           row\<lparr>ws_Name := ws_Name w, ws_Color := ws_Color w, ws_Sort := ws_Sort w, ws_Deleted := ws_Deleted w,
             ws_Version := ws_Version row + 1, ws_UpdatedAt := ws_UpdatedAt w, ws_DeviceID := ws_DeviceID w\<rparr>)\<rparr>"
      by (cases read) (simp_all add: guarded_write_def Let_def split: if_splits)
    then have "row\<lparr>ws_Name := ws_Name w, ws_Color := ws_Color w, ws_Sort := ws_Sort w, ws_Deleted := ws_Deleted w,
             ws_Version := ws_Version row + 1, ws_UpdatedAt := ws_UpdatedAt w, ws_DeviceID := ws_DeviceID w\<rparr> = stored"
      by (cases row; cases w) (use row in auto)
    with c Some show ?thesis by (simp add: ws_key_of_def)
  qed
  then show "db1 = db\<lparr>workspaces := (workspaces db)(ws_key_of w \<mapsto> stored)\<rparr>"
    "ws_Version stored = next_version (workspaces db (ws_key_of w))" "ws_key_of stored = ws_key_of w"
    "map_option ws_Version read = map_option ws_Version (workspaces db (ws_key_of w))" by simp_all
qed

lemma guarded_write_None:
  "guarded_write read w db = None \<Longrightarrow> map_option ws_Version read \<noteq> map_option ws_Version (workspaces db (ws_key_of w))"
  by (auto simp: guarded_write_def Let_def split: option.splits if_splits)

definition pushed_snapshot :: "AtomicPutWorkspaceInput \<Rightarrow> Workspace \<Rightarrow> StoredSnapshot" where
  "pushed_snapshot i stored = \<lparr>sn_UserID = ws_UserID stored, sn_WorkspaceID = ws_ID stored, sn_Dataset = in_Dataset i,
     sn_Version = ws_Version stored, sn_UpdatedAt = ws_UpdatedAt stored\<rparr>"

lemma once_accepted:
  assumes once: "putWorkspaceAtomicOnce now i w cc read db = (Inr (Settled r), db')" and acc: "res_Accepted r"
  obtains db1 where "guarded_write read w db = Some (res_Workspace r, db1)"
    "verdict_Accept (DecidePut (put_input i read))"
    "if in_Dataset i = [] then db' = db1
     else putSnapshotTx now db1 (pushed_snapshot i (res_Workspace r)) (in_HistoryLimit i) = Inr db'"
proof -
  have go: "\<not> (read \<noteq> None \<and> cc \<and> \<not> in_Force i)" "verdict_Accept (DecidePut (put_input i read))"
    using assms by (auto simp: putWorkspaceAtomicOnce_def Let_def split: if_splits)
  from once go obtain stored db1 where gw: "guarded_write read w db = Some (stored, db1)"
    by (cases "guarded_write read w db") (auto simp: putWorkspaceAtomicOnce_def Let_def)
  from once go have "if in_Dataset i = [] then res_Workspace r = stored \<and> db' = db1
     else res_Workspace r = stored \<and> putSnapshotTx now db1 (pushed_snapshot i stored) (in_HistoryLimit i) = Inr db'"
    unfolding putWorkspaceAtomicOnce_def Let_def gw pushed_snapshot_def by (auto split: if_splits sum.splits)
  with gw go show thesis by (intro that) (auto split: if_splits)
qed

lemma once_unchanged:
  "putWorkspaceAtomicOnce now i w cc read db = (Inr (Settled r), db') \<Longrightarrow> \<not> res_Accepted r \<Longrightarrow> db' = db"
  "putWorkspaceAtomicOnce now i w cc read db = (Inr (Raced c), db') \<Longrightarrow> db' = db"
  "putWorkspaceAtomicOnce now i w cc read db = (Inl e, db') \<Longrightarrow> db' = db"
  by (auto simp: putWorkspaceAtomicOnce_def Let_def split: if_splits option.splits sum.splits prod.splits)

lemma once_raced:
  "putWorkspaceAtomicOnce now i w cc read db = (Inr (Raced c), db') \<Longrightarrow>
   map_option ws_Version read \<noteq> map_option ws_Version (workspaces db (ws_key_of w))"
  by (auto simp: putWorkspaceAtomicOnce_def Let_def dest: guarded_write_None
      split: if_splits option.splits sum.splits prod.splits)

subsection \<open>The retry loop\<close>

lemma once_settles:
  "fst (putWorkspaceAtomicOnce now i w cc (workspaces db (ws_key_of w)) db) \<noteq> Inl ErrNotSettled"
  "fst (putWorkspaceAtomicOnce now i w cc read db) \<noteq> Inl ErrNotSettled"
  by (auto simp: putWorkspaceAtomicOnce_def Let_def putSnapshotTx_def split: if_splits option.splits sum.splits prod.splits)

lemma put_attempts_settles:
  assumes "f \<in> set fs" "\<And>d. workspaces (f d) (ws_key_of w) = workspaces d (ws_key_of w)"
  shows "fst (put_attempts now i w fs cc db) \<noteq> Inl ErrNotSettled"
  using assms(1)
proof (induction fs arbitrary: cc db)
  case (Cons g fs)
  let ?o = "putWorkspaceAtomicOnce now i w cc (workspaces db (ws_key_of w)) (g db)"
  obtain res db' where o: "?o = (res, db')" by (cases ?o)
  consider e where "res = Inl e" | r where "res = Inr (Settled r)" | c where "res = Inr (Raced c)"
    by (metis attempt_outcome.exhaust sum.exhaust)
  then show ?case
  proof cases
    case 1
    then show ?thesis using o once_settles(2) [of now i w cc "workspaces db (ws_key_of w)" "g db"] by simp
  next
    case 3
    then have "workspaces db (ws_key_of w) \<noteq> workspaces (g db) (ws_key_of w)"
      using o once_raced [of now i w cc "workspaces db (ws_key_of w)" "g db" c db'] by auto
    then have "g \<noteq> f" using assms(2) [of db] by auto
    then show ?thesis using Cons 3 o by simp
  qed (simp add: o)
qed simp

text \<open>C24: A push settles: if during at least one of the five attempts no other transaction commits
a change to the same workspace between the attempt's read and its write, the push returns a decision
or an error of its own, and never the report that concurrent writes did not settle.\<close>

theorem push_settles:
  assumes "n < maxAttempts"
    and "\<And>d. workspaces (others n d) (ws_key_of (in_Workspace i)) = workspaces d (ws_key_of (in_Workspace i))"
  shows "fst (PutWorkspaceAtomic now i others db) \<noteq> Inl ErrNotSettled"
proof (cases "put_prologue now i")
  case (Inl e)
  then show ?thesis by (auto simp: PutWorkspaceAtomic_def put_prologue_def split: if_splits)
next
  case (Inr w)
  then have "ws_key_of w = ws_key_of (in_Workspace i)"
    by (auto simp: put_prologue_def ws_key_of_def split: if_splits)
  with assms have "fst (put_attempts now i w (map others [0..<maxAttempts]) False db) \<noteq> Inl ErrNotSettled"
    by (intro put_attempts_settles [of "others n"]) auto
  with Inr show ?thesis by (simp add: PutWorkspaceAtomic_def)
qed

definition empty_database :: database where
  "empty_database = \<lparr>workspaces = Map.empty, snapshots = Map.empty, snapshot_history = [], next_id = 1, markers = []\<rparr>"

definition sample_push :: "string \<Rightarrow> int \<Rightarrow> AtomicPutWorkspaceInput" where
  "sample_push name base = \<lparr>in_Workspace = \<lparr>ws_ID = ''w'', ws_UserID = ''u'', ws_Name = name, ws_Color = [], ws_Sort = 0,
       ws_Deleted = False, ws_Version = 0, ws_UpdatedAt = 7, ws_DeviceID = ''d''\<rparr>,
     in_Dataset = ''{}'', in_MaxDatasetBytes = 100, in_HistoryLimit = 2, in_BaseVersion = base,
     in_HasBaseVersion = True, in_Force = False, in_ClientUpdatedAt = 5\<rparr>"

text \<open>Every attempt but the third is overtaken by a bump of the row.\<close>

definition bump_row :: "ws_key \<Rightarrow> database \<Rightarrow> database" where
  "bump_row k db = db\<lparr>workspaces := (workspaces db)(k := map_option (\<lambda>w. w\<lparr>ws_Version := ws_Version w + 1\<rparr>) (workspaces db k))\<rparr>"

theorem push_settles_witness:
  "fst (PutWorkspaceAtomic 9 (sample_push ''n'' 1) (\<lambda>n. if n = 2 then id else bump_row (''u'', ''w'')) empty_database)
     \<noteq> Inl ErrNotSettled"
  by (rule push_settles [of 2]) (simp_all add: maxAttempts_def)

end
