(* ===== verification/SyncServer.thy ===== *)
theory SyncServer
  imports WorkspaceStore
begin

text \<open>
  The server under concurrent pushes: any number of \<open>PutWorkspaceAtomic\<close> calls, each a thread that
  alternates reads and guarded writes, interleaved with deletions, reads of snapshots and database
  failures. Shows that every committed push was decided against exactly the row it replaced, so
  that no accepted edit is overwritten unseen, and that encryption of a workspace is final.
\<close>

subsection \<open>Threads and steps\<close>

datatype phase =
    Idle
  | Reading nat bool Workspace
  | Writing nat bool Workspace "Workspace option"
  | Finished "store_error + AtomicPutWorkspaceResult"

text \<open>A commit of the registry: who pushed (nobody, for a deletion), and the row before and after.\<close>

record commit =
  cm_thread :: "nat option"
  cm_key :: ws_key
  cm_before :: "Workspace option"
  cm_after :: Workspace

record server =
  sv_db :: database
  sv_phase :: "nat \<Rightarrow> phase"
  sv_log :: "commit list"

definition goto :: "server \<Rightarrow> nat \<Rightarrow> phase \<Rightarrow> server" where
  "goto s t p = s\<lparr>sv_phase := (sv_phase s)(t := p)\<rparr>"

inductive serve :: "(nat \<Rightarrow> AtomicPutWorkspaceInput) \<Rightarrow> server \<Rightarrow> server \<Rightarrow> bool" for reqs where
  refuse: "sv_phase s t = Idle \<Longrightarrow> put_prologue now (reqs t) = Inl e \<Longrightarrow> serve reqs s (goto s t (Finished (Inl e)))"
| start: "sv_phase s t = Idle \<Longrightarrow> put_prologue now (reqs t) = Inr w \<Longrightarrow>
    serve reqs s (goto s t (Reading maxAttempts False w))"
| read: "sv_phase s t = Reading (Suc n) cc w \<Longrightarrow>
    serve reqs s (goto s t (Writing n cc w (workspaces (sv_db s) (ws_key_of w))))"
| give_up: "sv_phase s t = Reading 0 cc w \<Longrightarrow> serve reqs s (goto s t (Finished (Inl ErrNotSettled)))"
| rejected: "sv_phase s t = Writing n cc w row \<Longrightarrow>
    putWorkspaceAtomicOnce now (reqs t) w cc row (sv_db s) = (Inr (Settled r), db') \<Longrightarrow> \<not> res_Accepted r \<Longrightarrow>
    serve reqs s (goto (s\<lparr>sv_db := db'\<rparr>) t (Finished (Inr r)))"
| accepted: "sv_phase s t = Writing n cc w row \<Longrightarrow>
    putWorkspaceAtomicOnce now (reqs t) w cc row (sv_db s) = (Inr (Settled r), db') \<Longrightarrow> res_Accepted r \<Longrightarrow>
    serve reqs s (goto (s\<lparr>sv_db := db', sv_log := sv_log s @ [\<lparr>cm_thread = Some t, cm_key = ws_key_of w,
      cm_before = workspaces (sv_db s) (ws_key_of w), cm_after = res_Workspace r\<rparr>]\<rparr>) t (Finished (Inr r)))"
| raced: "sv_phase s t = Writing n cc w row \<Longrightarrow>
    putWorkspaceAtomicOnce now (reqs t) w cc row (sv_db s) = (Inr (Raced c), db') \<Longrightarrow>
    serve reqs s (goto (s\<lparr>sv_db := db'\<rparr>) t (Reading n (cc \<or> c) w))"
| failed: "sv_phase s t = Writing n cc w row \<Longrightarrow>
    putWorkspaceAtomicOnce now (reqs t) w cc row (sv_db s) = (Inl e, db') \<Longrightarrow>
    serve reqs s (goto (s\<lparr>sv_db := db'\<rparr>) t (Finished (Inl e)))"
| broken: "sv_phase s t \<in> {Reading n cc w, Writing n cc w row} \<Longrightarrow>
    serve reqs s (goto s t (Finished (Inl ErrDatabase)))"
| delete: "SoftDeleteWorkspace now user ws stamp device (sv_db s) = (True, db') \<Longrightarrow>
    serve reqs s (s\<lparr>sv_db := db', sv_log := sv_log s @ [\<lparr>cm_thread = None, cm_key = (user, ws),
      cm_before = workspaces (sv_db s) (user, ws), cm_after = the (workspaces db' (user, ws))\<rparr>]\<rparr>)"
| fetch: "GetSnapshotForUser (sv_db s) user ws = (res, db') \<Longrightarrow> serve reqs s (s\<lparr>sv_db := db'\<rparr>)"

definition fresh_server :: server where
  "fresh_server = \<lparr>sv_db = empty_database, sv_phase = (\<lambda>_. Idle), sv_log = []\<rparr>"

inductive reachable :: "(nat \<Rightarrow> AtomicPutWorkspaceInput) \<Rightarrow> server \<Rightarrow> bool" for reqs where
  init: "reachable reqs fresh_server"
| move: "reachable reqs s \<Longrightarrow> serve reqs s s' \<Longrightarrow> reachable reqs s'"

subsection \<open>Rows only move forward\<close>

text \<open>One commit per version: a linked log leads from one row to another.\<close>

fun linked :: "Workspace option \<Rightarrow> commit list \<Rightarrow> Workspace option \<Rightarrow> bool" where
  "linked b [] e \<longleftrightarrow> b = e"
| "linked b (c # cs) e \<longleftrightarrow> cm_before c = b \<and> ws_Version (cm_after c) = next_version b \<and> linked (Some (cm_after c)) cs e"

lemma linked_snoc:
  "linked b (cs @ [c]) e \<longleftrightarrow> linked b cs (cm_before c) \<and> ws_Version (cm_after c) = next_version (cm_before c) \<and> Some (cm_after c) = e"
  by (induction cs arbitrary: b) auto

definition commits_of :: "server \<Rightarrow> ws_key \<Rightarrow> commit list" where
  "commits_of s k = [c \<leftarrow> sv_log s. cm_key c = k]"

definition at_least :: "Workspace \<Rightarrow> Workspace option \<Rightarrow> bool" where
  "at_least r row \<longleftrightarrow> (case row of None \<Rightarrow> False | Some r' \<Rightarrow> r' = r \<or> ws_Version r < ws_Version r')"

definition thread_ok :: "AtomicPutWorkspaceInput \<Rightarrow> database \<Rightarrow> phase \<Rightarrow> bool" where
  "thread_ok i db p \<longleftrightarrow> (case p of
      Idle \<Rightarrow> True
    | Reading n cc w \<Rightarrow> ws_key_of w = ws_key_of (in_Workspace i)
    | Writing n cc w row \<Rightarrow> ws_key_of w = ws_key_of (in_Workspace i) \<and>
        (case row of None \<Rightarrow> True | Some r \<Rightarrow> at_least r (workspaces db (ws_key_of w)))
    | Finished r \<Rightarrow> True)"

definition advanced :: "database \<Rightarrow> database \<Rightarrow> bool" where
  "advanced db db' \<longleftrightarrow> (\<forall>k r. workspaces db k = Some r \<longrightarrow> at_least r (workspaces db' k))"

lemma at_least_trans: "advanced db db' \<Longrightarrow> at_least r (workspaces db k) \<Longrightarrow> at_least r (workspaces db' k)"
proof -
  assume adv: "advanced db db'" and r: "at_least r (workspaces db k)"
  then obtain r1 where r1: "workspaces db k = Some r1" "r1 = r \<or> ws_Version r < ws_Version r1"
    by (auto simp: at_least_def split: option.splits)
  with adv have "at_least r1 (workspaces db' k)" unfolding advanced_def by blast
  with r1(2) show ?thesis by (auto simp: at_least_def split: option.splits)
qed

lemma thread_ok_advanced: "advanced db db' \<Longrightarrow> thread_ok i db p \<Longrightarrow> thread_ok i db' p"
  by (auto simp: thread_ok_def at_least_trans split: phase.splits option.splits)

lemma advanced_same: "workspaces db' = workspaces db \<Longrightarrow> advanced db db'"
  by (simp add: advanced_def at_least_def)

lemma advanced_upd:
  "workspaces db' = (workspaces db)(k \<mapsto> w) \<Longrightarrow> ws_Version w = next_version (workspaces db k) \<Longrightarrow> advanced db db'"
  by (auto simp: advanced_def at_least_def split: option.splits)

subsection \<open>The invariant\<close>

definition by_push :: "(nat \<Rightarrow> AtomicPutWorkspaceInput) \<Rightarrow> server \<Rightarrow> commit \<Rightarrow> nat \<Rightarrow> bool" where
  "by_push reqs s c t \<longleftrightarrow>
     cm_key c = ws_key_of (in_Workspace (reqs t)) \<and> verdict_Accept (DecidePut (put_input (reqs t) (cm_before c))) \<and>
     (\<exists>r. sv_phase s t = Finished (Inr r) \<and> res_Accepted r \<and> res_Workspace r = cm_after c)"

definition by_delete :: "commit \<Rightarrow> bool" where
  "by_delete c \<longleftrightarrow> (\<exists>w. cm_before c = Some w \<and> \<not> ws_Deleted w \<and> ws_Deleted (cm_after c))"

definition commit_ok :: "(nat \<Rightarrow> AtomicPutWorkspaceInput) \<Rightarrow> server \<Rightarrow> commit \<Rightarrow> bool" where
  "commit_ok reqs s c \<longleftrightarrow> (case cm_thread c of None \<Rightarrow> by_delete c | Some t \<Rightarrow> by_push reqs s c t)"

definition acknowledged :: "server \<Rightarrow> nat \<Rightarrow> bool" where
  "acknowledged s t \<longleftrightarrow> (\<exists>r. sv_phase s t = Finished (Inr r) \<and> res_Accepted r)"

definition pushes :: "server \<Rightarrow> nat list" where
  "pushes s = List.map_filter cm_thread (sv_log s)"

definition server_inv :: "(nat \<Rightarrow> AtomicPutWorkspaceInput) \<Rightarrow> server \<Rightarrow> bool" where
  "server_inv reqs s \<longleftrightarrow>
     keys_ok (sv_db s) \<and>
     (\<forall>k. linked None (commits_of s k) (workspaces (sv_db s) k)) \<and>
     (\<forall>c \<in> set (sv_log s). commit_ok reqs s c) \<and>
     distinct (pushes s) \<and> (\<forall>t. t \<in> set (pushes s) \<longleftrightarrow> acknowledged s t) \<and>
     (\<forall>t. thread_ok (reqs t) (sv_db s) (sv_phase s t))"

text \<open>A step of a thread that is not acknowledged and commits nothing.\<close>

lemma inv_quiet:
  assumes "server_inv reqs s" "workspaces db' = workspaces (sv_db s)" "\<not> acknowledged s t"
    "\<nexists>r. p = Finished (Inr r) \<and> res_Accepted r" "thread_ok (reqs t) db' p"
  shows "server_inv reqs (goto (s\<lparr>sv_db := db'\<rparr>) t p)"
proof -
  let ?s = "goto (s\<lparr>sv_db := db'\<rparr>) t p"
  have ack: "acknowledged ?s u \<longleftrightarrow> acknowledged s u" for u
    using assms(3,4) by (auto simp: acknowledged_def goto_def)
  have push: "by_push reqs s c u \<Longrightarrow> by_push reqs ?s c u" for c u
    using assms(3) by (cases "u = t") (auto simp: by_push_def goto_def acknowledged_def)
  have "thread_ok (reqs u) db' (sv_phase ?s u)" for u
    using assms(1,5) thread_ok_advanced [OF advanced_same [OF assms(2)]]
    by (auto simp: server_inv_def goto_def)
  moreover have "commit_ok reqs ?s c" if "c \<in> set (sv_log s)" for c
    using assms(1) that push by (auto simp: server_inv_def commit_ok_def split: option.splits)
  moreover have "sv_db ?s = db'" "sv_log ?s = sv_log s" "pushes ?s = pushes s" "commits_of ?s k = commits_of s k" for k
    by (simp_all add: goto_def pushes_def commits_of_def)
  ultimately show ?thesis
    using assms(1) unfolding server_inv_def ack by (simp add: keys_ok_def assms(2))
qed

lemma inv_db:
  assumes "server_inv reqs s" "workspaces db' = workspaces (sv_db s)"
  shows "server_inv reqs (s\<lparr>sv_db := db'\<rparr>)"
proof -
  have "thread_ok (reqs u) db' (sv_phase s u)" for u
    using assms(1) thread_ok_advanced [OF advanced_same [OF assms(2)]] by (simp add: server_inv_def)
  moreover have "commit_ok reqs (s\<lparr>sv_db := db'\<rparr>) c = commit_ok reqs s c" for c
    by (simp add: commit_ok_def by_push_def split: option.split)
  ultimately show ?thesis
    using assms unfolding server_inv_def by (simp add: commits_of_def pushes_def acknowledged_def keys_ok_def)
qed

lemma inv_commit:
  assumes inv: "server_inv reqs s" and rows: "workspaces db' = (workspaces (sv_db s))(cm_key c \<mapsto> cm_after c)"
    and v: "ws_Version (cm_after c) = next_version (workspaces (sv_db s) (cm_key c))"
    and key: "ws_key_of (cm_after c) = cm_key c" and before: "cm_before c = workspaces (sv_db s) (cm_key c)"
    and log: "sv_log s' = sv_log s @ [c]" and db: "sv_db s' = db'"
    and phase: "case cm_thread c of None \<Rightarrow> sv_phase s' = sv_phase s
       | Some t \<Rightarrow> \<not> acknowledged s t \<and> acknowledged s' t \<and> (\<forall>u. u \<noteq> t \<longrightarrow> sv_phase s' u = sv_phase s u)"
    and ok: "commit_ok reqs s' c"
  shows "server_inv reqs s'"
proof -
  have adv: "advanced (sv_db s) db'" by (rule advanced_upd [OF rows v])
  have other: "sv_phase s' u = sv_phase s u" if "cm_thread c \<noteq> Some u" for u
    using phase that by (cases "cm_thread c") auto
  have not_pushed: "t \<notin> set (pushes s)" if "cm_thread c = Some t" for t
    using inv phase that by (auto simp: server_inv_def)
  have old_ok: "commit_ok reqs s' d" if "d \<in> set (sv_log s)" for d
  proof (cases "cm_thread d")
    case None
    with inv that show ?thesis by (auto simp: server_inv_def commit_ok_def)
  next
    case (Some u)
    have "u \<in> set (pushes s)" using Some that by (auto simp: pushes_def List.map_filter_def image_iff intro!: bexI [of _ d])
    then have "sv_phase s' u = sv_phase s u" using not_pushed by (intro other) auto
    moreover have "by_push reqs s d u" using inv that Some by (auto simp: server_inv_def commit_ok_def)
    ultimately show ?thesis by (simp add: commit_ok_def Some by_push_def)
  qed
  have pushes: "pushes s' = pushes s @ (case cm_thread c of None \<Rightarrow> [] | Some t \<Rightarrow> [t])"
    by (simp add: pushes_def log List.map_filter_def split: option.split)
  have ack: "acknowledged s' u \<longleftrightarrow> acknowledged s u \<or> cm_thread c = Some u" for u
    using phase other [of u] by (cases "cm_thread c = Some u") (auto simp: acknowledged_def)
  have threads: "thread_ok (reqs u) db' (sv_phase s' u)" for u
  proof (cases "cm_thread c = Some u")
    case True
    with phase show ?thesis by (auto simp: thread_ok_def acknowledged_def)
  next
    case False
    with inv show ?thesis by (auto simp: other server_inv_def intro: thread_ok_advanced [OF adv])
  qed
  have "linked None (commits_of s' k) (workspaces db' k)" for k
  proof -
    have "linked None (commits_of s k) (workspaces (sv_db s) k)" using inv unfolding server_inv_def by blast
    with v before show ?thesis by (cases "cm_key c = k") (auto simp: commits_of_def log rows linked_snoc)
  qed
  moreover have "distinct (pushes s')"
    using inv not_pushed by (auto simp: pushes server_inv_def split: option.split)
  moreover have "keys_ok db'" using inv key by (intro keys_ok_upd [OF _ rows]) (simp add: server_inv_def)
  moreover have "u \<in> set (pushes s') \<longleftrightarrow> acknowledged s' u" for u
    using inv by (auto simp: pushes ack server_inv_def split: option.split)
  ultimately show ?thesis
    using old_ok ok threads by (auto simp: server_inv_def db log)
qed

lemma accepted_commit:
  assumes "thread_ok i db (Writing n cc w row)" "keys_ok db"
    and "putWorkspaceAtomicOnce now i w cc row db = (Inr (Settled r), db')" "res_Accepted r"
  shows "row = workspaces db (ws_key_of w)" "workspaces db' = (workspaces db)(ws_key_of w \<mapsto> res_Workspace r)"
    "ws_Version (res_Workspace r) = next_version (workspaces db (ws_key_of w))"
    "ws_key_of (res_Workspace r) = ws_key_of w" "verdict_Accept (DecidePut (put_input i row))"
proof -
  obtain db1 where db1: "guarded_write row w db = Some (res_Workspace r, db1)"
    "verdict_Accept (DecidePut (put_input i row))"
    "if in_Dataset i = [] then db' = db1
     else putSnapshotTx now db1 (pushed_snapshot i (res_Workspace r)) (in_HistoryLimit i) = Inr db'"
    by (rule once_accepted [OF assms(3,4)])
  note facts = guarded_write_facts [OF db1(1) assms(2)]
  have "workspaces db' = workspaces db1"
    using db1(3) by (auto dest: putSnapshotTx_workspaces split: if_splits)
  then show "workspaces db' = (workspaces db)(ws_key_of w \<mapsto> res_Workspace r)" by (simp add: facts(1))
  show "row = workspaces db (ws_key_of w)"
    using facts(4) assms(1) by (cases row) (auto simp: thread_ok_def at_least_def split: option.splits)
  show "ws_Version (res_Workspace r) = next_version (workspaces db (ws_key_of w))"
    "ws_key_of (res_Workspace r) = ws_key_of w" "verdict_Accept (DecidePut (put_input i row))"
    by (rule facts db1)+
qed

lemma fetch_workspaces: "GetSnapshotForUser db user ws = (res, db') \<Longrightarrow> workspaces db' = workspaces db"
proof -
  have "workspaces (snd (checkSnapshotEncryption db s)) = workspaces db" for s
    by (cases "workspaceEncryptedTx db (sn_key_of s)")
      (use workspaces_untouched(1) [of db "sn_key_of s"] in \<open>auto simp: checkSnapshotEncryption_def\<close>)
  then show "GetSnapshotForUser db user ws = (res, db') \<Longrightarrow> workspaces db' = workspaces db"
    by (auto simp: GetSnapshotForUser_def split: option.splits prod.splits) (metis snd_conv)+
qed

lemma serve_inv:
  assumes "serve reqs s s'" "server_inv reqs s"
  shows "server_inv reqs s'"
  using assms(1)
proof cases
  case (accepted t n cc w row now r db')
  have ok: "thread_ok (reqs t) (sv_db s) (Writing n cc w row)" "keys_ok (sv_db s)"
    using assms(2) accepted(2) by (metis server_inv_def)+
  then have "ws_key_of w = ws_key_of (in_Workspace (reqs t))" by (simp add: thread_ok_def)
  with accepted_commit [OF ok accepted(3,4)] accepted(2,4) show ?thesis
    unfolding accepted(1)
    by (intro inv_commit [OF assms(2), where db' = db' and c = "\<lparr>cm_thread = Some t, cm_key = ws_key_of w,
        cm_before = workspaces (sv_db s) (ws_key_of w), cm_after = res_Workspace r\<rparr>"])
      (auto simp: goto_def acknowledged_def commit_ok_def by_push_def)
next
  case (delete now user ws stamp device db')
  from delete(2) obtain row where row: "workspaces (sv_db s) (user, ws) = Some row" "\<not> ws_Deleted row"
    "workspaces db' = (workspaces (sv_db s))((user, ws) \<mapsto> row\<lparr>ws_Deleted := True, ws_Version := ws_Version row + 1,
       ws_UpdatedAt := stamped now stamp, ws_DeviceID := device\<rparr>)"
    by (auto simp: SoftDeleteWorkspace_def split: option.splits if_splits)
  have "ws_key_of row = (user, ws)" using assms(2) row(1) keys_okD by (auto simp: server_inv_def)
  with row show ?thesis
    unfolding delete(1)
    by (intro inv_commit [OF assms(2), where db' = db' and c = "\<lparr>cm_thread = None, cm_key = (user, ws),
        cm_before = workspaces (sv_db s) (user, ws), cm_after = the (workspaces db' (user, ws))\<rparr>"])
      (auto simp: commit_ok_def by_delete_def ws_key_of_def)
next
  case (fetch user ws res db')
  with inv_db [OF assms(2) fetch_workspaces [OF fetch(2)]] show ?thesis by simp
next
  case (refuse t now e)
  then show ?thesis
    using inv_quiet [OF assms(2), of "sv_db s" t] by (simp add: acknowledged_def thread_ok_def)
next
  case (start t now w)
  then have "ws_key_of w = ws_key_of (in_Workspace (reqs t))"
    by (auto simp: put_prologue_def ws_key_of_def split: if_splits)
  with start show ?thesis
    using inv_quiet [OF assms(2), of "sv_db s" t] by (simp add: acknowledged_def thread_ok_def)
next
  case (read t n cc w)
  have "thread_ok (reqs t) (sv_db s) (sv_phase s t)" using assms(2) by (simp add: server_inv_def)
  with read show ?thesis
    using inv_quiet [OF assms(2), of "sv_db s" t]
    by (simp add: acknowledged_def thread_ok_def at_least_def split: option.split)
next
  case (give_up t cc w)
  then show ?thesis
    using inv_quiet [OF assms(2), of "sv_db s" t] by (simp add: acknowledged_def thread_ok_def)
next
  case (rejected t n cc w row now r db')
  then show ?thesis
    using inv_quiet [OF assms(2), of "sv_db s" t] once_unchanged(1) [OF rejected(3,4)]
    by (simp add: acknowledged_def thread_ok_def)
next
  case (raced t n cc w row now c db')
  have "thread_ok (reqs t) (sv_db s) (sv_phase s t)" using assms(2) by (simp add: server_inv_def)
  with raced show ?thesis
    using inv_quiet [OF assms(2), of "sv_db s" t] once_unchanged(2) [OF raced(3)]
    by (simp add: acknowledged_def thread_ok_def)
next
  case (failed t n cc w row now e db')
  then show ?thesis
    using inv_quiet [OF assms(2), of "sv_db s" t] once_unchanged(3) [OF failed(3)]
    by (simp add: acknowledged_def thread_ok_def)
next
  case (broken t n cc w row)
  then show ?thesis
    using inv_quiet [OF assms(2), of "sv_db s" t] by (auto simp: acknowledged_def thread_ok_def)
qed

lemma server_invariant: "reachable reqs s \<Longrightarrow> server_inv reqs s"
proof (induction rule: reachable.induct)
  case init
  show ?case
    by (auto simp: server_inv_def fresh_server_def empty_database_def keys_ok_def commits_of_def pushes_def
        acknowledged_def thread_ok_def List.map_filter_def)
qed (rule serve_inv)

subsection \<open>No lost update\<close>

text \<open>C2: Concurrent pushes are serialised by version. In every state the server reaches, the
commits of a workspace form one chain from nothing to its current row, each replacing exactly the row
the one before it wrote and raising the version by one; every push in the chain is one that
\<open>DecidePut\<close> accepts against the very row it replaced, and every deletion replaced a live row; and
the pushes in the chain are exactly those answered as accepted, each once.\<close>

theorem pushes_linearize:
  assumes "reachable reqs s"
  shows "linked None (commits_of s k) (workspaces (sv_db s) k) \<and> list_all (commit_ok reqs s) (sv_log s) \<and>
    distinct (pushes s) \<and> set (pushes s) = {t. acknowledged s t}"
  using server_invariant [OF assms] unfolding server_inv_def list_all_iff by blast

lemma uncontended_push:
  assumes "reachable reqs s" "sv_phase s t = Idle" "put_prologue now (reqs t) = Inr w"
    "putWorkspaceAtomicOnce now (reqs t) w False (workspaces (sv_db s) (ws_key_of w)) (sv_db s) = (Inr (Settled r), db')"
    "res_Accepted r"
  obtains s' where "reachable reqs s'" "sv_db s' = db'" "sv_phase s' = (sv_phase s)(t := Finished (Inr r))"
proof -
  let ?s1 = "goto s t (Reading maxAttempts False w)"
  let ?s2 = "goto ?s1 t (Writing 4 False w (workspaces (sv_db s) (ws_key_of w)))"
  have "reachable reqs ?s1" by (rule move [OF assms(1) start]) (use assms in simp_all)
  moreover have "serve reqs ?s1 ?s2"
    using serve.read [of ?s1 t 4 False w reqs] by (simp add: goto_def maxAttempts_def)
  ultimately have s2: "reachable reqs ?s2" by (rule move)
  let ?s3 = "goto (?s2\<lparr>sv_db := db', sv_log := sv_log ?s2 @ [\<lparr>cm_thread = Some t, cm_key = ws_key_of w,
      cm_before = workspaces (sv_db ?s2) (ws_key_of w), cm_after = res_Workspace r\<rparr>]\<rparr>) t (Finished (Inr r))"
  have "serve reqs ?s2 ?s3"
    by (rule serve.accepted [where now = now]) (use assms in \<open>simp_all add: goto_def\<close>)
  with s2 have "reachable reqs ?s3" by (rule move)
  moreover have "sv_db ?s3 = db'" "sv_phase ?s3 = (sv_phase s)(t := Finished (Inr r))" by (simp_all add: goto_def)
  ultimately show thesis by (rule that)
qed

definition sample_reqs :: "nat \<Rightarrow> AtomicPutWorkspaceInput" where
  "sample_reqs t = (sample_push ''n'' (int t))\<lparr>in_Dataset := []\<rparr>"

definition sample_row :: "nat \<Rightarrow> Workspace" where
  "sample_row t = (in_Workspace (sample_push ''n'' 0))\<lparr>ws_Version := int t + 1\<rparr>"

lemma sample_prologue: "put_prologue 9 (sample_reqs t) = Inr (in_Workspace (sample_push ''n'' 0))"
  by (simp add: put_prologue_def sample_reqs_def sample_push_def fields_missing_def trim_space_id is_graph_def
      stamped_def zero_time_def)

lemma sample_pushes:
  assumes "t = 0 \<and> db = empty_database \<or> t = 1 \<and> db = empty_database\<lparr>workspaces := [(''u'', ''w'') \<mapsto> sample_row 0]\<rparr>"
  shows "putWorkspaceAtomicOnce 9 (sample_reqs t) (in_Workspace (sample_push ''n'' 0)) False (workspaces db (''u'', ''w'')) db =
    (Inr (Settled \<lparr>res_Accepted = True, res_Reason = RNone, res_Workspace = sample_row t\<rparr>),
     empty_database\<lparr>workspaces := [(''u'', ''w'') \<mapsto> sample_row t]\<rparr>)"
  using assms
  by (auto simp: putWorkspaceAtomicOnce_def sample_reqs_def sample_push_def sample_row_def empty_database_def
      put_input_def DecidePut_def guarded_write_def ws_key_of_def Let_def)

lemma sample_run:
  obtains s where "reachable sample_reqs s"
    "sv_phase s 0 = Finished (Inr \<lparr>res_Accepted = True, res_Reason = RNone, res_Workspace = sample_row 0\<rparr>)"
    "sv_phase s 1 = Finished (Inr \<lparr>res_Accepted = True, res_Reason = RNone, res_Workspace = sample_row 1\<rparr>)"
proof -
  have key: "ws_key_of (in_Workspace (sample_push ''n'' 0)) = (''u'', ''w'')" by (simp add: sample_push_def ws_key_of_def)
  obtain s1 where s1: "reachable sample_reqs s1"
    "sv_db s1 = empty_database\<lparr>workspaces := [(''u'', ''w'') \<mapsto> sample_row 0]\<rparr>"
    "sv_phase s1 = (\<lambda>_. Idle)(0 := Finished (Inr \<lparr>res_Accepted = True, res_Reason = RNone, res_Workspace = sample_row 0\<rparr>))"
    by (rule uncontended_push [OF init, of 0 9 _ _ _]) 
      (auto simp: fresh_server_def sample_prologue key sample_pushes)
  obtain s2 where "reachable sample_reqs s2"
    "sv_phase s2 = (sv_phase s1)(1 := Finished (Inr \<lparr>res_Accepted = True, res_Reason = RNone, res_Workspace = sample_row 1\<rparr>))"
    by (rule uncontended_push [OF s1(1), of 1 9])
      (auto simp: s1 sample_prologue key sample_pushes [of 1 "sv_db s1", simplified s1(2), simplified])
  with s1 show thesis by (intro that [of s2]) simp_all
qed

theorem pushes_linearize_witness:
  "\<exists>s. reachable sample_reqs s \<and> {0, 1} \<subseteq> set (pushes s) \<and>
     linked None (commits_of s (''u'', ''w'')) (workspaces (sv_db s) (''u'', ''w''))"
proof -
  obtain s where s: "reachable sample_reqs s" "acknowledged s 0" "acknowledged s 1"
    by (rule sample_run) (auto simp: acknowledged_def)
  then show ?thesis using pushes_linearize [OF s(1), of "(''u'', ''w'')"] by auto
qed

lemma linked_versions_increase:
  "linked b cs e \<Longrightarrow> sorted_wrt (<) (map (\<lambda>c. ws_Version (cm_after c)) cs) \<and>
     (\<forall>c \<in> set cs. next_version b \<le> ws_Version (cm_after c))"
proof (induction cs arbitrary: b)
  case (Cons c cs)
  then show ?case by (fastforce dest!: Cons.IH)
qed simp

lemma version_unique:
  assumes "linked b cs e" "c \<in> set cs" "d \<in> set cs" "ws_Version (cm_after c) = ws_Version (cm_after d)"
  shows "c = d"
proof -
  have "sorted_wrt (<) (map (\<lambda>c. ws_Version (cm_after c)) cs)" using linked_versions_increase [OF assms(1)] by simp
  then have "distinct (map (\<lambda>c. ws_Version (cm_after c)) cs)" by (simp add: strict_sorted_iff)
  with assms(2-4) show ?thesis by (auto simp: distinct_map inj_on_def)
qed

lemma linked_next:
  "linked b cs e \<Longrightarrow> c \<in> set cs \<Longrightarrow> ws_Version (cm_after c) = next_version (cm_before c)"
  by (induction cs arbitrary: b) auto

lemma commit_of_ack:
  assumes "server_inv reqs s" "sv_phase s t = Finished (Inr r)" "res_Accepted r"
  obtains c where "c \<in> set (commits_of s (ws_key_of (in_Workspace (reqs t))))" "cm_thread c = Some t"
    "cm_after c = res_Workspace r" "by_push reqs s c t"
proof -
  have "t \<in> set (pushes s)" using assms by (auto simp: server_inv_def acknowledged_def)
  then obtain c where c: "c \<in> set (sv_log s)" "cm_thread c = Some t"
    by (auto simp: pushes_def List.map_filter_def)
  with assms(1) have "by_push reqs s c t" by (force simp: server_inv_def commit_ok_def)
  with c assms(2) show thesis by (intro that) (auto simp: by_push_def commits_of_def)
qed



subsection \<open>Encryption is final\<close>

definition stored_datasets :: "database \<Rightarrow> ws_key \<Rightarrow> string set" where
  "stored_datasets db k = sn_Dataset ` (set_option (snapshots db k) \<union> snd ` set (history_of db k))"

definition db_enc :: "database \<Rightarrow> bool" where
  "db_enc db \<longleftrightarrow> (\<forall>k s. snapshots db k = Some s \<longrightarrow> sn_key_of s = k) \<and>
     (\<forall>k. \<forall>d \<in> stored_datasets db k. IsEnvelope d \<longleftrightarrow> k \<in> set (markers db))"

lemma db_encD:
  assumes "db_enc db"
  shows "snapshots db k = Some s \<Longrightarrow> sn_key_of s = k" "d \<in> stored_datasets db k \<Longrightarrow> IsEnvelope d \<longleftrightarrow> k \<in> set (markers db)"
  using assms unfolding db_enc_def by blast+

lemma db_enc_cong:
  "snapshots db' = snapshots db \<Longrightarrow> snapshot_history db' = snapshot_history db \<Longrightarrow> markers db' = markers db \<Longrightarrow>
   db_enc db' = db_enc db"
  by (simp add: db_enc_def stored_datasets_def history_of_def)

lemma encrypted_by_marker: "db_enc db \<Longrightarrow> workspaceEncryptedTx db k = (k \<in> set (markers db), db)"
proof -
  assume enc: "db_enc db"
  have "k \<in> set (markers db)"
    if "(case snapshots db k of None \<Rightarrow> False | Some s \<Rightarrow> IsEnvelope (sn_Dataset s)) \<or>
        (\<exists>r \<in> set (history_of db k). IsEnvelope (sn_Dataset (snd r)))"
    using that db_encD(2) [OF enc, of _ k] by (auto simp: stored_datasets_def split: option.splits)
  then show ?thesis unfolding workspaceEncryptedTx_def by auto
qed

lemma trim_history: "set (history_of (trimSnapshotHistory db k limit) k') \<subseteq> set (history_of db k')"
  by (auto simp: trimSnapshotHistory_def history_of_def Let_def)

lemma trim_rest [simp]:
  "snapshots (trimSnapshotHistory db k limit) = snapshots db" "markers (trimSnapshotHistory db k limit) = markers db"
  by (simp_all add: trimSnapshotHistory_def Let_def)

lemma archive_history:
  assumes "\<And>s. snapshots db k = Some s \<Longrightarrow> sn_key_of s = k"
  shows "history_of (archive_current db k) k' =
     history_of db k' @ (if k' = k then (case snapshots db k of None \<Rightarrow> [] | Some s \<Rightarrow> [(next_id db, s)]) else [])"
proof (cases "snapshots db k")
  case (Some s)
  then have "s\<lparr>sn_UserID := fst k\<rparr> = s" using assms [OF Some] by (cases s) (auto simp: sn_key_of_def)
  with Some assms [OF Some] show ?thesis by (simp add: archive_current_def history_of_def)
qed (simp add: archive_current_def)

lemma archive_member:
  assumes "\<And>s. snapshots db k = Some s \<Longrightarrow> sn_key_of s = k" "r \<in> set (history_of (archive_current db k) k')"
  shows "r \<in> set (history_of db k') \<or> snapshots db k' = Some (snd r)"
proof (cases "k' = k")
  case True
  then show ?thesis
    using assms(2) archive_history [of db k k'] assms(1) by (cases "snapshots db k") auto
next
  case False
  then show ?thesis using assms(2) archive_history [of db k k'] assms(1) by simp
qed

lemma archive_rest [simp]:
  "snapshots (archive_current db k) = snapshots db" "markers (archive_current db k) = markers db"
  by (simp_all add: archive_current_def split: option.split)

lemma stored_tx_markers:
  "set (markers (stored_tx db s limit)) = (if IsEnvelope (sn_Dataset s) then insert (sn_key_of s) (set (markers db)) else set (markers db))"
  by (simp add: stored_tx_def Let_def purgePlaintextSnapshotHistoryTx_def markWorkspaceEncryptedTx_def)

lemma stored_tx_snapshots: "snapshots (stored_tx db s limit) = (snapshots db)(sn_key_of s \<mapsto> s)"
  by (simp add: stored_tx_def Let_def purgePlaintextSnapshotHistoryTx_def markWorkspaceEncryptedTx_def)

lemma stored_tx_history:
  assumes "db_enc db" "r \<in> set (history_of (stored_tx db s limit) k)"
  shows "sn_Dataset (snd r) \<in> stored_datasets db k"
    and "k = sn_key_of s \<Longrightarrow> IsEnvelope (sn_Dataset s) \<Longrightarrow> IsEnvelope (sn_Dataset (snd r))"
proof -
  let ?k = "sn_key_of s"
  let ?d1 = "archive_current db ?k"
  let ?d2 = "?d1\<lparr>snapshots := (snapshots ?d1)(?k \<mapsto> s)\<rparr>"
  let ?d3 = "if IsEnvelope (sn_Dataset s) then purgePlaintextSnapshotHistoryTx (markWorkspaceEncryptedTx ?d2 ?k) ?k else ?d2"
  have r: "r \<in> set (history_of ?d3 k)"
    using assms(2) trim_history by (fastforce simp: stored_tx_def Let_def)
  have "set (history_of ?d3 k) \<subseteq> set (history_of ?d1 k)"
    by (auto simp: history_of_def purgePlaintextSnapshotHistoryTx_def markWorkspaceEncryptedTx_def)
  with r have "r \<in> set (history_of ?d1 k)" by blast
  then have "r \<in> set (history_of db k) \<or> snapshots db k = Some (snd r)"
    by (rule archive_member [rotated]) (rule db_encD(1) [OF assms(1)])
  then show "sn_Dataset (snd r) \<in> stored_datasets db k"
    unfolding stored_datasets_def by (metis Un_iff elem_set image_eqI)
  show "k = sn_key_of s \<Longrightarrow> IsEnvelope (sn_Dataset s) \<Longrightarrow> IsEnvelope (sn_Dataset (snd r))"
    using r by (auto simp: history_of_def purgePlaintextSnapshotHistoryTx_def)
qed

lemma stored_tx_enc:
  assumes "db_enc db" "sn_key_of s \<in> set (markers db) \<Longrightarrow> IsEnvelope (sn_Dataset s)"
  shows "db_enc (stored_tx db s limit)"
proof -
  let ?db = "stored_tx db s limit"
  have "IsEnvelope d \<longleftrightarrow> k \<in> set (markers ?db)" if d: "d \<in> stored_datasets ?db k" for k d
  proof -
    consider "k = sn_key_of s" "d = sn_Dataset s" | "k \<noteq> sn_key_of s" "d \<in> stored_datasets db k"
      | r where "k = sn_key_of s" "r \<in> set (history_of ?db k)" "d = sn_Dataset (snd r)"
    proof (cases "k = sn_key_of s")
      case True
      with d that(1,3) show thesis by (auto simp: stored_datasets_def stored_tx_snapshots)
    next
      case False
      have "d \<in> stored_datasets db k"
        using d stored_tx_history(1) [OF assms(1), of _ s limit k] False
        unfolding stored_datasets_def [of ?db] stored_tx_snapshots
        by (auto simp: stored_datasets_def [of db])
      with False that(2) show thesis by blast
    qed
    then show ?thesis
    proof cases
      case 3
      then have "d \<in> stored_datasets db k" "IsEnvelope (sn_Dataset s) \<Longrightarrow> IsEnvelope d"
        using stored_tx_history [OF assms(1)] by auto
      then show ?thesis using db_encD(2) [OF assms(1)] 3 assms(2) by (auto simp: stored_tx_markers)
    qed (use assms db_encD(2) [OF assms(1)] in \<open>auto simp: stored_tx_markers\<close>)
  qed
  moreover have "snapshots ?db k = Some q \<Longrightarrow> sn_key_of q = k" for k q
    using db_encD(1) [OF assms(1)] by (auto simp: stored_tx_snapshots split: if_splits)
  ultimately show ?thesis unfolding db_enc_def by blast
qed

lemma putSnapshotTx_enc:
  assumes "db_enc db" "putSnapshotTx now db s limit = Inr db'"
  shows "db_enc db'" "set (markers db) \<subseteq> set (markers db')"
    "IsEnvelope (sn_Dataset s) \<Longrightarrow> sn_key_of s \<in> set (markers db')"
proof -
  let ?s = "s\<lparr>sn_UpdatedAt := stamped now (sn_UpdatedAt s)\<rparr>"
  have k: "sn_key_of ?s = sn_key_of s" by (simp add: sn_key_of_def)
  have db': "db' = stored_tx db ?s limit" "sn_key_of s \<in> set (markers db) \<Longrightarrow> IsEnvelope (sn_Dataset s)"
    using assms(2) by (simp_all add: putSnapshotTx_Inr encrypted_by_marker [OF assms(1)])
  then show "db_enc db'" by (auto simp: k intro!: stored_tx_enc assms(1))
  show "set (markers db) \<subseteq> set (markers db')" "IsEnvelope (sn_Dataset s) \<Longrightarrow> sn_key_of s \<in> set (markers db')"
    by (auto simp: db'(1) stored_tx_markers k)
qed

lemma once_enc:
  assumes "putWorkspaceAtomicOnce now i w cc row db = (Inr (Settled r), db')" "res_Accepted r" "keys_ok db" "db_enc db"
  shows "db_enc db'" "set (markers db) \<subseteq> set (markers db')"
    "IsEnvelope (in_Dataset i) \<Longrightarrow> ws_key_of w \<in> set (markers db')"
proof -
  obtain db1 where db1: "guarded_write row w db = Some (res_Workspace r, db1)"
    "if in_Dataset i = [] then db' = db1
     else putSnapshotTx now db1 (pushed_snapshot i (res_Workspace r)) (in_HistoryLimit i) = Inr db'"
    by (rule once_accepted [OF assms(1,2)])
  note facts = guarded_write_facts [OF db1(1) assms(3)]
  have enc1: "db_enc db1" "markers db1 = markers db"
    using assms(4) db_enc_cong [of db1 db] by (simp_all add: facts(1))
  have key: "sn_key_of (pushed_snapshot i (res_Workspace r)) = ws_key_of w"
    using facts(3) by (simp add: sn_key_of_def pushed_snapshot_def ws_key_of_def)
  have nil: "\<not> IsEnvelope []" by (simp add: IsEnvelope_def EnvelopeMarker_def)
  show "db_enc db'" "set (markers db) \<subseteq> set (markers db')"
    "IsEnvelope (in_Dataset i) \<Longrightarrow> ws_key_of w \<in> set (markers db')"
    using db1(2) enc1 putSnapshotTx_enc [OF enc1(1)] nil key
    by (auto simp: pushed_snapshot_def split: if_splits) fastforce+
qed

definition marked :: "(nat \<Rightarrow> AtomicPutWorkspaceInput) \<Rightarrow> server \<Rightarrow> bool" where
  "marked reqs s \<longleftrightarrow> db_enc (sv_db s) \<and>
     (\<forall>t. acknowledged s t \<and> IsEnvelope (in_Dataset (reqs t)) \<longrightarrow> ws_key_of (in_Workspace (reqs t)) \<in> set (markers (sv_db s)))"

lemma fetch_enc: "GetSnapshotForUser db user ws = (res, db') \<Longrightarrow> db_enc db \<Longrightarrow> db' = db \<and> res \<noteq> Inl ErrEncryptionDowngrade"
proof -
  assume fetch: "GetSnapshotForUser db user ws = (res, db')" and enc: "db_enc db"
  have "checkSnapshotEncryption db s = (None, db)" if "snapshots db (user, ws) = Some s" for s
  proof -
    have "sn_key_of s = (user, ws)" "IsEnvelope (sn_Dataset s) \<longleftrightarrow> (user, ws) \<in> set (markers db)"
      using db_encD [OF enc] that by (auto simp: stored_datasets_def)
    then show ?thesis by (simp add: checkSnapshotEncryption_def encrypted_by_marker [OF enc])
  qed
  then show ?thesis using fetch by (auto simp: GetSnapshotForUser_def split: option.splits)
qed

lemma delete_tables:
  "SoftDeleteWorkspace now user ws stamp device db = (b, db') \<Longrightarrow>
   snapshots db' = snapshots db \<and> snapshot_history db' = snapshot_history db \<and> markers db' = markers db"
  by (auto simp: SoftDeleteWorkspace_def split: option.splits if_splits)

lemma marked_quiet:
  assumes "marked reqs s" "\<nexists>r. p = Finished (Inr r) \<and> res_Accepted r" "\<not> acknowledged s t"
  shows "marked reqs (goto s t p)"
  using assms by (auto simp: marked_def goto_def acknowledged_def)

lemma serve_marked:
  assumes "serve reqs s s'" "server_inv reqs s" "marked reqs s"
  shows "marked reqs s'"
  using assms(1)
proof cases
  case (accepted t n cc w row now r db')
  have inv: "keys_ok (sv_db s)" "thread_ok (reqs t) (sv_db s) (Writing n cc w row)"
    using assms(2) accepted(2) by (metis server_inv_def)+
  have "db_enc (sv_db s)" using assms(3) by (simp add: marked_def)
  note enc = once_enc [OF accepted(3,4) inv(1) this]
  show ?thesis
    using enc assms(3) inv(2) unfolding accepted(1)
    by (auto simp: marked_def goto_def acknowledged_def thread_ok_def split: if_splits)
next
  case (delete now user ws stamp device db')
  then show ?thesis
    using assms(3) delete_tables [OF delete(2)] db_enc_cong [of db' "sv_db s"]
    by (simp add: marked_def acknowledged_def)
next
  case (fetch user ws res db')
  then show ?thesis using fetch_enc [OF fetch(2)] assms(3) by (simp add: marked_def)
qed (use assms(3) in \<open>auto dest!: once_unchanged intro!: marked_quiet simp: acknowledged_def\<close>)

lemma reachable_marked: "reachable reqs s \<Longrightarrow> marked reqs s"
proof (induction rule: reachable.induct)
  case init
  show ?case
    by (auto simp: marked_def fresh_server_def empty_database_def db_enc_def stored_datasets_def history_of_def acknowledged_def)
next
  case (move s s')
  then show ?case by (intro serve_marked [OF move(2) server_invariant])
qed


definition sealed_reqs :: "nat \<Rightarrow> AtomicPutWorkspaceInput" where
  "sealed_reqs t = (sample_push ''n'' 0)\<lparr>in_Dataset := EnvelopeMarker @ ''x''\<rparr>"

definition plain_snapshot :: StoredSnapshot where
  "plain_snapshot = \<lparr>sn_UserID = ''u'', sn_WorkspaceID = ''w'', sn_Dataset = ''{}'', sn_Version = 2, sn_UpdatedAt = 8\<rparr>"

lemma sealed_push:
  "\<exists>db'. putWorkspaceAtomicOnce 9 (sealed_reqs 0) (in_Workspace (sample_push ''n'' 0)) False None empty_database =
     (Inr (Settled \<lparr>res_Accepted = True, res_Reason = RNone, res_Workspace = sample_row 0\<rparr>), db')"
  by (simp add: putWorkspaceAtomicOnce_def sealed_reqs_def sample_push_def sample_row_def empty_database_def
      put_input_def DecidePut_def guarded_write_def ws_key_of_def Let_def putSnapshotTx_def workspaceEncryptedTx_def
      history_of_def sn_key_of_def EnvelopeMarker_def)


end
