(* ===== verification/CoverSplit.thy ===== *)
theory CoverSplit
  imports Domain "HOL-Library.Product_Lexorder" "HOL-Library.List_Lexorder" "HOL-Library.Char_ord"
begin

text \<open>
  File \<open>internal/budgeting/coversplit.go\<close>: funding a cover from several budgets, each with a ceiling.
  Pinned sources give first; the rest is shared by weight in rounds, clipping at each ceiling. The
  loop runs at most one round more than there are sources. Shows that this bound is always enough:
  nothing is asked for beyond its ceiling, and what stays short is what no split could have funded.
\<close>

record CoverSplitInput =
  cs_ID :: string
  cs_Cap :: int
  cs_Weight :: int
  cs_Pinned :: bool

definition min64 :: "int \<Rightarrow> int \<Rightarrow> int" where "min64 a b = (if a < b then a else b)"
definition max64 :: "int \<Rightarrow> int \<Rightarrow> int" where "max64 a b = (if a > b then a else b)"

definition weightOf :: "CoverSplitInput \<Rightarrow> int" where
  "weightOf s = (if cs_Weight s \<le> 0 then 1 else cs_Weight s)"

type_synonym amounts = "(string, int) go_map"

text \<open>The first loop: pinned sources give, the others are collected; \<open>None\<close> is the early return.\<close>

record intake =
  ik_out :: amounts
  ik_cap :: amounts
  ik_remaining :: int
  ik_free :: "CoverSplitInput list"
  ik_seen :: "string list"

fun take_in :: "CoverSplitInput list \<Rightarrow> intake \<Rightarrow> intake option" where
  "take_in [] k = Some k"
| "take_in (s # srcs) k =
     (if cs_ID s = [] \<or> cs_ID s \<in> set (ik_seen k) then None
      else let c = (if cs_Cap s < 0 then 0 else cs_Cap s);
          k = k\<lparr>ik_seen := cs_ID s # ik_seen k, ik_cap := map_put (cs_ID s) c (ik_cap k)\<rparr> in
        if cs_Pinned s
        then (let give = min64 c (ik_remaining k) in
          take_in srcs (k\<lparr>ik_out := map_put (cs_ID s) give (ik_out k), ik_remaining := wrap64 (ik_remaining k - give)\<rparr>))
        else take_in srcs (k\<lparr>ik_free := ik_free k @ [s]\<rparr>))"

definition cover_order :: "CoverSplitInput list \<Rightarrow> CoverSplitInput list" where
  "cover_order free = sort_key (\<lambda>s. (- cs_Weight s, cs_ID s)) free"

definition open_sources :: "amounts \<Rightarrow> amounts \<Rightarrow> CoverSplitInput list \<Rightarrow> CoverSplitInput list" where
  "open_sources cap out free = [s \<leftarrow> free. map_get 0 out (cs_ID s) < map_get 0 cap (cs_ID s)]"

definition total_weight :: "CoverSplitInput list \<Rightarrow> int" where
  "total_weight xs = (\<Sum>s\<leftarrow>xs. weightOf s)"

text \<open>One round: everyone open is asked for its share, the last one for what is left.\<close>

fun give_loop :: "int \<Rightarrow> int \<Rightarrow> amounts \<Rightarrow> CoverSplitInput list \<Rightarrow> int \<Rightarrow> amounts \<Rightarrow> amounts" where
  "give_loop remaining tw cap [] assigned out = out"
| "give_loop remaining tw cap (s # rest) assigned out =
     (let want = (if rest = [] then wrap64 (remaining - assigned) else wrap64 (remaining * weightOf s div tw));
          room = wrap64 (map_get 0 cap (cs_ID s) - map_get 0 out (cs_ID s));
          give = min64 want room
      in give_loop remaining tw cap rest (wrap64 (assigned + want))
           (map_put (cs_ID s) (wrap64 (map_get 0 out (cs_ID s) + give)) out))"

definition given_sum :: "amounts \<Rightarrow> int" where
  "given_sum out = foldl (\<lambda>acc v. wrap64 (acc + v)) 0 (map snd out)"

fun cover_rounds :: "nat \<Rightarrow> int \<Rightarrow> amounts \<Rightarrow> CoverSplitInput list \<Rightarrow> int \<Rightarrow> amounts \<Rightarrow> amounts \<times> int" where
  "cover_rounds 0 amount cap free remaining out = (out, remaining)"
| "cover_rounds (Suc n) amount cap free remaining out =
     (if \<not> remaining > 0 then (out, remaining)
      else let opened = open_sources cap out free; tw = total_weight opened in
        if opened = [] \<or> tw = 0 then (out, remaining)
        else let out = give_loop remaining tw cap opened 0 out; left = wrap64 (amount - given_sum out) in
          if left = remaining then (out, left) else cover_rounds n amount cap free left out)"

definition CoverSplit :: "int \<Rightarrow> CoverSplitInput list \<Rightarrow> amounts \<times> int" where
  "CoverSplit amount srcs =
     (if amount \<le> 0 \<or> srcs = [] then ([], amount)
      else case take_in srcs \<lparr>ik_out = [], ik_cap = [], ik_remaining = amount, ik_free = [], ik_seen = []\<rparr> of
        None \<Rightarrow> ([], amount)
      | Some k \<Rightarrow>
          if ik_remaining k \<le> 0 then (ik_out k, 0)
          else let free = cover_order (ik_free k);
              (out, remaining) = cover_rounds (length free + 1) amount (ik_cap k) free (ik_remaining k) (ik_out k)
            in (out, max64 remaining 0))"

subsection \<open>One round\<close>

abbreviation sumv :: "amounts \<Rightarrow> int" where "sumv m \<equiv> sum_list (map snd m)"
abbreviation share :: "amounts \<Rightarrow> CoverSplitInput \<Rightarrow> int" where "share m s \<equiv> map_get 0 m (cs_ID s)"

definition fits_cap :: "amounts \<Rightarrow> amounts \<Rightarrow> CoverSplitInput list \<Rightarrow> bool" where
  "fits_cap cap out xs \<longleftrightarrow> (\<forall>s \<in> set xs. 0 \<le> share out s \<and> share out s \<le> share cap s \<and> is_i64 (share cap s))"

text \<open>
  Giving at most \<open>b\<close> to the sources \<open>xs\<close>: nobody goes above the ceiling, and either all of \<open>b\<close> was
  given or somebody reached it.
\<close>

definition gave :: "amounts \<Rightarrow> CoverSplitInput list \<Rightarrow> int \<Rightarrow> amounts \<Rightarrow> amounts \<Rightarrow> bool" where
  "gave cap xs b out out' \<longleftrightarrow>
     map_ok out' \<and> fst ` set out' = fst ` set out \<union> cs_ID ` set xs \<and>
     (\<forall>i. i \<notin> cs_ID ` set xs \<longrightarrow> map_get 0 out' i = map_get 0 out i) \<and>
     (\<forall>s \<in> set xs. share out s \<le> share out' s \<and> share out' s \<le> share cap s \<and>
        share out' s - share out s \<le> sumv out' - sumv out) \<and>
     sumv out \<le> sumv out' \<and> sumv out' \<le> sumv out + b \<and>
     (sumv out' = sumv out + b \<or> (\<exists>s \<in> set xs. share out' s = share cap s))"

lemma i64_upto: "is_i64 b \<Longrightarrow> 0 \<le> x \<Longrightarrow> x \<le> b \<Longrightarrow> is_i64 x"
  using is_i64_between [of 0 b x] by simp

lemma keys_put: "fst ` set (map_put k v m) = insert k (fst ` set m)"
  using dom_update [of k v m] by (simp add: dom_map_of_conv_image_fst)

lemma gave_one:
  assumes "map_ok out" "share out s \<le> share cap s" "0 \<le> want"
  shows "gave cap [s] want out (map_put (cs_ID s) (share out s + min want (share cap s - share out s)) out)"
  using assms by (auto simp: gave_def sum_values_put distinct_update keys_put min_def)

lemma gave_D:
  assumes "gave cap xs b out out'"
  shows "map_ok out'" "fst ` set out' = fst ` set out \<union> cs_ID ` set xs"
    "i \<notin> cs_ID ` set xs \<Longrightarrow> map_get 0 out' i = map_get 0 out i"
    "s \<in> set xs \<Longrightarrow> share out s \<le> share out' s \<and> share out' s \<le> share cap s \<and>
        share out' s - share out s \<le> sumv out' - sumv out"
    "sumv out \<le> sumv out'" "sumv out' \<le> sumv out + b"
    "sumv out' = sumv out + b \<or> (\<exists>s \<in> set xs. share out' s = share cap s)"
  using assms unfolding gave_def by blast+

lemma gave_Cons:
  assumes one: "gave cap [s] w out out1" and rest: "gave cap xs b out1 out2" and fresh: "cs_ID s \<notin> cs_ID ` set xs"
  shows "gave cap (s # xs) (w + b) out out2"
proof -
  note o = gave_D [OF one] and r = gave_D [OF rest]
  have s: "share out2 s = share out1 s" by (rule r(3) [OF fresh])
  have same: "share out1 x = share out x" if "x \<in> set xs" for x
  proof (rule o(3))
    show "cs_ID x \<notin> cs_ID ` set [s]" using that fresh by (metis empty_set image_empty image_eqI image_insert list.simps(15) singletonD)
  qed
  have each: "share out x \<le> share out2 x \<and> share out2 x \<le> share cap x \<and> share out2 x - share out x \<le> sumv out2 - sumv out"
    if "x \<in> set (s # xs)" for x
  proof (cases "x \<in> set xs")
    case True
    then show ?thesis using r(4) [OF True] o(5) same [OF True] by linarith
  next
    case False
    then have "x = s" using that by simp
    then show ?thesis using o(4) [of s] r(5) s by simp
  qed
  have all_given: "sumv out2 = sumv out + (w + b) \<or> (\<exists>x \<in> set (s # xs). share out2 x = share cap x)"
    using o(7) r(7) s by auto
  have other: "map_get 0 out2 i = map_get 0 out i" if "i \<notin> cs_ID ` set (s # xs)" for i
    using o(3) [of i] r(3) [of i] that by simp
  show ?thesis
    unfolding gave_def using r(1,2,5,6) o(2,5,6) each all_given other by (intro conjI) auto
qed

lemma weight_pos [simp]: "0 < weightOf s" by (simp add: weightOf_def)

lemma give_loop_gave:
  assumes "is_i64 R" "0 < T" "0 \<le> R"
  shows "xs \<noteq> [] \<Longrightarrow> distinct (map cs_ID xs) \<Longrightarrow> fits_cap cap out xs \<Longrightarrow> map_ok out \<Longrightarrow> 0 \<le> A \<Longrightarrow>
    A + (\<Sum>s\<leftarrow>butlast xs. R * weightOf s div T) \<le> R \<Longrightarrow> gave cap xs (R - A) out (give_loop R T cap xs A out)"
proof (induction xs arbitrary: A out)
  case (Cons s xs)
  let ?want = "if xs = [] then R - A else R * weightOf s div T"
  let ?give = "min ?want (share cap s - share out s)"
  let ?out = "map_put (cs_ID s) (share out s + ?give) out"
  have quota: "0 \<le> R * weightOf x div T" for x
    using assms(2,3) less_imp_le [OF weight_pos [of x]] by (simp add: pos_imp_zdiv_nonneg_iff)
  then have "0 \<le> (\<Sum>s\<leftarrow>butlast xs. R * weightOf s div T)" by (intro sum_list_nonneg) auto
  then have want: "0 \<le> ?want" "?want \<le> R - A" "?want \<le> R"
    using Cons.prems(5,6) quota by (auto split: if_splits)
  have room: "0 \<le> share out s" "share out s \<le> share cap s" "is_i64 (share cap s)"
    using Cons.prems(3) by (auto simp: fits_cap_def)
  have i64: "is_i64 ?want" "is_i64 (share cap s - share out s)" "is_i64 (share out s + ?give)"
    using want room by (auto intro: i64_upto [OF assms(1)] i64_upto [OF room(3)] simp: min_def)
  have i64A: "is_i64 (A + ?want)" using want Cons.prems(5) by (intro i64_upto [OF assms(1)]) auto
  have loop: "give_loop R T cap (s # xs) A out = give_loop R T cap xs (A + ?want) ?out"
    using i64 i64A by (auto simp: Let_def min64_def min_def)
  have one: "gave cap [s] ?want out ?out" using Cons.prems(4) room want by (intro gave_one)
  have fresh: "cs_ID s \<notin> cs_ID ` set xs" using Cons.prems(2) by simp
  show ?case
  proof (cases "xs = []")
    case False
    have "gave cap xs (R - (A + ?want)) ?out (give_loop R T cap xs (A + ?want) ?out)"
    proof (rule Cons.IH [OF False])
      show "fits_cap cap ?out xs" using Cons.prems(3) fresh by (auto simp: fits_cap_def)
      show "map_ok ?out" using one by (simp add: gave_def)
      show "0 \<le> A + ?want" "A + ?want + (\<Sum>s\<leftarrow>butlast xs. R * weightOf s div T) \<le> R"
        using want Cons.prems(5,6) False by simp_all
    qed (use Cons.prems(2) in simp)
    from gave_Cons [OF one this fresh] show ?thesis unfolding loop by simp
  next
    case True
    have eq: "give_loop R T cap (s # xs) A out = ?out" by (subst loop) (simp only: True give_loop.simps(1))
    show ?thesis using one unfolding eq by (simp only: True if_True simp_thms)
  qed
qed simp

lemma quotas_bound:
  assumes "0 \<le> R" "xs \<noteq> []"
  shows "0 < total_weight xs" "(\<Sum>s\<leftarrow>butlast xs. R * weightOf s div total_weight xs) \<le> R"
proof -
  have pos: "0 \<le> total_weight ys" for ys
    unfolding total_weight_def by (intro sum_list_nonneg) (auto intro: less_imp_le)
  show T: "0 < total_weight xs"
    using assms(2) pos [of "tl xs"] by (cases xs) (auto simp: total_weight_def add_pos_nonneg)
  let ?T = "total_weight xs"
  have "(\<Sum>s\<leftarrow>ys. R * weightOf s div ?T) * ?T \<le> R * total_weight ys" for ys
  proof (induction ys)
    case (Cons y ys)
    have "R * weightOf y div ?T * ?T \<le> R * weightOf y" using T by (simp add: minus_mod_eq_div_mult [symmetric])
    with Cons show ?case by (simp add: total_weight_def algebra_simps)
  qed (simp add: total_weight_def)
  moreover have "total_weight (butlast xs) \<le> ?T"
    using assms(2) by (cases xs rule: rev_cases) (auto simp: total_weight_def intro: less_imp_le)
  then have "R * total_weight (butlast xs) \<le> R * ?T" using assms(1) by (rule mult_left_mono)
  ultimately have "(\<Sum>s\<leftarrow>butlast xs. R * weightOf s div ?T) * ?T \<le> R * ?T" by (meson order_trans)
  then show "(\<Sum>s\<leftarrow>butlast xs. R * weightOf s div ?T) \<le> R" using T by simp
qed

subsection \<open>All rounds\<close>

lemma wrap_fold: "foldl (\<lambda>acc v. wrap64 (acc + v)) (wrap64 a) xs = wrap64 (a + sum_list xs)"
proof (induction xs arbitrary: a)
  case (Cons x xs)
  show ?case using Cons.IH [of "a + x"] by (simp add: add.assoc)
qed simp

lemma given_sum_eq: "is_i64 (sumv out) \<Longrightarrow> given_sum out = sumv out"
  using wrap_fold [of 0 "map snd out"] by (simp add: given_sum_def)

text \<open>The state between rounds: what is outstanding is the request less everything given.\<close>

definition cover_inv :: "int \<Rightarrow> amounts \<Rightarrow> CoverSplitInput list \<Rightarrow> int \<Rightarrow> amounts \<Rightarrow> bool" where
  "cover_inv amount cap free R out \<longleftrightarrow>
     map_ok out \<and> fits_cap cap out free \<and> sumv out = amount - R \<and> 0 \<le> R \<and> R \<le> amount"

lemma open_subset: "set (open_sources cap out free) \<subseteq> set free"
  by (auto simp: open_sources_def)

lemma round_step:
  fixes R amount :: int and cap out :: amounts and free :: "CoverSplitInput list"
  defines "opened \<equiv> open_sources cap out free"
  defines "out' \<equiv> give_loop R (total_weight opened) cap opened 0 out"
  defines "R' \<equiv> wrap64 (amount - given_sum out')"
  assumes "is_i64 amount" "distinct (map cs_ID free)" "cover_inv amount cap free R out" "0 < R" "opened \<noteq> []"
  shows "gave cap opened R out out'" "cover_inv amount cap free R' out'" "R' < R"
    "R' = 0 \<or> length (open_sources cap out' free) < length opened"
proof -
  have inv: "map_ok out" "fits_cap cap out free" "sumv out = amount - R" "R \<le> amount"
    using assms(6) by (simp_all add: cover_inv_def)
  have "distinct (map cs_ID opened)" "fits_cap cap out opened"
    using assms(5) inv(2) open_subset [of cap out free]
    by (auto simp: opened_def open_sources_def distinct_map_filter fits_cap_def)
  then show g: "gave cap opened R out out'"
    using give_loop_gave [of R "total_weight opened" opened cap out 0] quotas_bound [of R opened] assms(7,8) inv
      i64_upto [OF assms(4), of R]
    by (simp add: out'_def)
  note gd = gave_D [OF g]
  have R': "R' = amount - sumv out'"
    using gd(5,6) inv i64_upto [OF assms(4), of "sumv out'"] i64_upto [OF assms(4), of "amount - sumv out'"] assms(7)
    by (simp add: R'_def given_sum_eq)
  have below: "share out s < share cap s" if "s \<in> set opened" for s
    using that by (simp add: opened_def open_sources_def)
  show "R' < R"
  proof (cases "sumv out' = sumv out + R")
    case False
    then obtain s where s: "s \<in> set opened" "share out' s = share cap s" using gd(7) by blast
    then show ?thesis using below [OF s(1)] gd(4) [OF s(1)] R' inv(3) by linarith
  qed (use R' inv assms(7) in simp)
  have same: "share out' s = share out s" if "s \<in> set free" "s \<notin> set opened" for s
  proof (rule gd(3))
    show "cs_ID s \<notin> cs_ID ` set opened"
    proof
      assume "cs_ID s \<in> cs_ID ` set opened"
      then obtain x where "x \<in> set opened" "cs_ID x = cs_ID s" by auto
      with that assms(5) open_subset [of cap out free] have "x = s"
        unfolding opened_def distinct_map inj_on_def by blast
      with \<open>x \<in> set opened\<close> that(2) show False by simp
    qed
  qed
  have "fits_cap cap out' free"
    unfolding fits_cap_def
  proof
    fix s assume s: "s \<in> set free"
    then have "0 \<le> share out s" "share out s \<le> share cap s" "is_i64 (share cap s)"
      using inv(2) by (simp_all add: fits_cap_def)
    then show "0 \<le> share out' s \<and> share out' s \<le> share cap s \<and> is_i64 (share cap s)"
      using gd(4) [of s] same [OF s] by (cases "s \<in> set opened") auto
  qed
  then show "cover_inv amount cap free R' out'"
    using gd(1,5,6) R' inv by (simp add: cover_inv_def)
  show "R' = 0 \<or> length (open_sources cap out' free) < length opened"
  proof (rule disjCI)
    assume stuck: "\<not> length (open_sources cap out' free) < length opened"
    have "x \<in> set opened" if "x \<in> set free" "share out' x < share cap x" for x
      using same [OF that(1)] that by (cases "x \<in> set opened") (auto simp: opened_def open_sources_def)
    then have "open_sources cap out' free = filter (\<lambda>s. share out' s < share cap s) opened"
      unfolding opened_def open_sources_def filter_filter by (intro filter_cong) auto
    with stuck have "\<not> (\<exists>s \<in> set opened. share out' s = share cap s)"
      by (metis length_filter_less order_less_irrefl)
    then show "R' = 0" using gd(7) R' inv(3) by auto
  qed
qed

lemma cover_rounds_done:
  assumes "is_i64 amount" "distinct (map cs_ID free)" "cover_inv amount cap free R out"
    "length (open_sources cap out free) < n"
  obtains out' R' where "cover_rounds n amount cap free R out = (out', R')" "cover_inv amount cap free R' out'"
    "R' = 0 \<or> open_sources cap out' free = []"
    "fst ` set out' \<subseteq> fst ` set out \<union> cs_ID ` set free"
    "\<forall>i. i \<notin> cs_ID ` set free \<longrightarrow> map_get 0 out' i = map_get 0 out i"
  using assms(3,4)
proof (induction n arbitrary: R out thesis)
  case (Suc n)
  let ?open = "open_sources cap out free"
  show ?case
  proof (cases "R = 0 \<or> ?open = []")
    case True
    then have "cover_rounds (Suc n) amount cap free R out = (out, R)"
      using Suc.prems(2) by (auto simp: Let_def cover_inv_def)
    then show ?thesis using Suc.prems(2) True by (intro Suc.prems(1)) auto
  next
    case False
    let ?out = "give_loop R (total_weight ?open) cap ?open 0 out"
    let ?R = "wrap64 (amount - given_sum ?out)"
    have pos: "0 < R" "?open \<noteq> []" using False Suc.prems(2) by (auto simp: cover_inv_def)
    note step = round_step [OF assms(1,2) Suc.prems(2) pos]
    have tw: "total_weight ?open \<noteq> 0" using quotas_bound(1) [of R ?open] pos by simp
    have rec: "cover_rounds (Suc n) amount cap free R out = cover_rounds n amount cap free ?R ?out"
      using pos tw step(3) by (simp add: Let_def)
    have sub: "fst ` set ?out \<subseteq> fst ` set out \<union> cs_ID ` set free"
      "\<forall>i. i \<notin> cs_ID ` set free \<longrightarrow> map_get 0 ?out i = map_get 0 out i"
      using gave_D(2,3) [OF step(1)] image_mono [OF open_subset [of cap out free], of cs_ID] by blast+
    show ?thesis
    proof (cases "?R = 0")
      case True
      then have "cover_rounds n amount cap free ?R ?out = (?out, ?R)" by (cases n) simp_all
      then show ?thesis using rec True step(2) sub by (intro Suc.prems(1) [of ?out ?R]) auto
    next
      case False
      then have "length (open_sources cap ?out free) < n" using step(4) Suc.prems(3) by auto
      then obtain out' R' where o: "cover_rounds n amount cap free ?R ?out = (out', R')" "cover_inv amount cap free R' out'"
        "R' = 0 \<or> open_sources cap out' free = []" "fst ` set out' \<subseteq> fst ` set ?out \<union> cs_ID ` set free"
        "\<forall>i. i \<notin> cs_ID ` set free \<longrightarrow> map_get 0 out' i = map_get 0 ?out i"
        using Suc.IH [OF _ step(2)] by blast
      have "fst ` set out' \<subseteq> fst ` set out \<union> cs_ID ` set free" using sub(1) o(4) by blast
      moreover have "\<forall>i. i \<notin> cs_ID ` set free \<longrightarrow> map_get 0 out' i = map_get 0 out i" using sub(2) o(5) by metis
      ultimately show ?thesis using rec o(1-3) by (intro Suc.prems(1) [of out' R']) (simp_all only:)
    qed
  qed
qed simp

subsection \<open>Pinned sources first\<close>

definition ceiling_of :: "CoverSplitInput \<Rightarrow> int" where "ceiling_of s = max 0 (cs_Cap s)"

text \<open>What the first loop has done with the sources \<open>srcs\<close>.\<close>

definition taken :: "CoverSplitInput list \<Rightarrow> intake \<Rightarrow> intake \<Rightarrow> bool" where
  "taken srcs k k' \<longleftrightarrow>
     ik_free k' = ik_free k @ filter (\<lambda>s. \<not> cs_Pinned s) srcs \<and>
     (\<forall>s \<in> set srcs. share (ik_cap k') s = ceiling_of s) \<and>
     (\<forall>i. i \<notin> cs_ID ` set srcs \<longrightarrow> map_get 0 (ik_cap k') i = map_get 0 (ik_cap k) i \<and>
        map_get 0 (ik_out k') i = map_get 0 (ik_out k) i) \<and>
     map_ok (ik_out k') \<and> fst ` set (ik_out k') \<subseteq> fst ` set (ik_out k) \<union> cs_ID ` set srcs \<and>
     sumv (ik_out k') = sumv (ik_out k) + (ik_remaining k - ik_remaining k') \<and>
     0 \<le> ik_remaining k' \<and> ik_remaining k' \<le> ik_remaining k \<and>
     (\<forall>s \<in> set srcs. cs_Pinned s \<longrightarrow> 0 \<le> share (ik_out k') s \<and> share (ik_out k') s \<le> ceiling_of s \<and>
          (ik_remaining k' = 0 \<or> share (ik_out k') s = ceiling_of s)) \<and>
     (\<forall>s \<in> set srcs. \<not> cs_Pinned s \<longrightarrow> share (ik_out k') s = share (ik_out k) s)"

lemma taken_D:
  assumes "taken srcs k k'"
  shows "ik_free k' = ik_free k @ filter (\<lambda>s. \<not> cs_Pinned s) srcs"
    "s \<in> set srcs \<Longrightarrow> share (ik_cap k') s = ceiling_of s"
    "i \<notin> cs_ID ` set srcs \<Longrightarrow> map_get 0 (ik_cap k') i = map_get 0 (ik_cap k) i"
    "i \<notin> cs_ID ` set srcs \<Longrightarrow> map_get 0 (ik_out k') i = map_get 0 (ik_out k) i"
    "map_ok (ik_out k')" "fst ` set (ik_out k') \<subseteq> fst ` set (ik_out k) \<union> cs_ID ` set srcs"
    "sumv (ik_out k') = sumv (ik_out k) + (ik_remaining k - ik_remaining k')"
    "0 \<le> ik_remaining k'" "ik_remaining k' \<le> ik_remaining k"
    "s \<in> set srcs \<Longrightarrow> cs_Pinned s \<Longrightarrow> 0 \<le> share (ik_out k') s \<and> share (ik_out k') s \<le> ceiling_of s \<and>
          (ik_remaining k' = 0 \<or> share (ik_out k') s = ceiling_of s)"
    "s \<in> set srcs \<Longrightarrow> \<not> cs_Pinned s \<Longrightarrow> share (ik_out k') s = share (ik_out k) s"
  using assms unfolding taken_def by blast+

lemma take_in_taken:
  assumes "distinct (map cs_ID srcs)" "[] \<notin> cs_ID ` set srcs" "cs_ID ` set srcs \<inter> set (ik_seen k) = {}"
    "cs_ID ` set srcs \<inter> fst ` set (ik_out k) = {}" "map_ok (ik_out k)" "0 \<le> ik_remaining k" "is_i64 (ik_remaining k)"
  shows "\<exists>k'. take_in srcs k = Some k' \<and> taken srcs k k'"
  using assms
proof (induction srcs arbitrary: k)
  case (Cons s srcs)
  let ?c = "ceiling_of s"
  let ?give = "min ?c (ik_remaining k)"
  let ?k0 = "k\<lparr>ik_seen := cs_ID s # ik_seen k, ik_cap := map_put (cs_ID s) ?c (ik_cap k)\<rparr>"
  let ?k = "if cs_Pinned s then ?k0\<lparr>ik_out := map_put (cs_ID s) ?give (ik_out k), ik_remaining := ik_remaining k - ?give\<rparr>
     else ?k0\<lparr>ik_free := ik_free k @ [s]\<rparr>"
  have give: "0 \<le> ?give" "?give \<le> ik_remaining k" "is_i64 (ik_remaining k - ?give)"
    using Cons.prems(6) by (auto simp: ceiling_of_def intro!: i64_upto [OF Cons.prems(7)])
  have c: "(if cs_Cap s < 0 then 0 else cs_Cap s) = ?c" "min64 ?c (ik_remaining k) = ?give"
    by (simp_all add: ceiling_of_def min64_def max_def min_def)
  have "cs_ID s \<noteq> []" "cs_ID s \<notin> set (ik_seen k)" using Cons.prems(2,3) by auto
  then have step: "take_in (s # srcs) k = take_in srcs ?k"
    using give(3) by (simp add: Let_def c)
  have fresh: "cs_ID s \<notin> cs_ID ` set srcs" "cs_ID s \<notin> fst ` set (ik_out k)"
    using Cons.prems(1,4) by auto
  have "\<exists>k'. take_in srcs ?k = Some k' \<and> taken srcs ?k k'"
  proof (rule Cons.IH)
    show "cs_ID ` set srcs \<inter> fst ` set (ik_out ?k) = {}"
      using Cons.prems(4) fresh(1) by (auto simp: keys_put)
  qed (use Cons.prems give fresh in \<open>auto simp: distinct_update\<close>)
  then obtain k' where k': "take_in srcs ?k = Some k'" "taken srcs ?k k'" by blast
  note t = taken_D [OF k'(2)]
  have s: "share (ik_cap k') s = ?c" "share (ik_out k') s = (if cs_Pinned s then ?give else share (ik_out k) s)"
    using t(3,4) [OF fresh(1)] by (auto split: if_splits)
  have "taken (s # srcs) k k'"
    unfolding taken_def
  proof (intro conjI)
    show "ik_free k' = ik_free k @ filter (\<lambda>s. \<not> cs_Pinned s) (s # srcs)" using t(1) by simp
    show "\<forall>x \<in> set (s # srcs). share (ik_cap k') x = ceiling_of x" using t(2) s(1) by simp
    show "\<forall>i. i \<notin> cs_ID ` set (s # srcs) \<longrightarrow> map_get 0 (ik_cap k') i = map_get 0 (ik_cap k) i \<and>
        map_get 0 (ik_out k') i = map_get 0 (ik_out k) i"
      using t(3,4) by auto
    show "map_ok (ik_out k')" by (rule t(5))
    show "fst ` set (ik_out k') \<subseteq> fst ` set (ik_out k) \<union> cs_ID ` set (s # srcs)"
      using t(6) by (auto simp: keys_put split: if_splits)
    show "sumv (ik_out k') = sumv (ik_out k) + (ik_remaining k - ik_remaining k')"
      using t(7) fresh(2) Cons.prems(5) by (simp add: sum_values_put map_get_absent split: if_splits)
    show "0 \<le> ik_remaining k'" "ik_remaining k' \<le> ik_remaining k" using t(8,9) give by (auto split: if_splits)
    have rem: "ik_remaining k' = 0 \<or> ?give = ?c" if "cs_Pinned s"
      using t(8,9) that by (auto simp: min_def)
    have old: "share (ik_out ?k) x = share (ik_out k) x" if "x \<in> set srcs" for x
      using fresh(1) that by (auto simp: image_iff)
    show "\<forall>x \<in> set (s # srcs). cs_Pinned x \<longrightarrow> 0 \<le> share (ik_out k') x \<and> share (ik_out k') x \<le> ceiling_of x \<and>
          (ik_remaining k' = 0 \<or> share (ik_out k') x = ceiling_of x)"
      using t(10) s(2) rem give(1) by auto
    show "\<forall>x \<in> set (s # srcs). \<not> cs_Pinned x \<longrightarrow> share (ik_out k') x = share (ik_out k) x"
      using t(11) s(2) old by simp
  qed
  with k'(1) step show ?case by auto
qed (simp add: taken_def)

lemma sum_map_puts:
  assumes "map_ok m" "distinct ids" "fst ` set m \<subseteq> set ids"
  shows "sum_list (map snd m) = (\<Sum>i\<leftarrow>ids. map_get (0 :: int) m i)"
proof -
  have get: "(k, v) \<in> set m \<Longrightarrow> map_get 0 m k = v" for k v using assms(1) by (rule map_get_present)
  have "sum_list (map snd m) = sum_list (map (\<lambda>p. map_get 0 m (fst p)) m)"
    using get by (intro arg_cong [where f = sum_list] map_cong) auto
  also have "\<dots> = (\<Sum>i \<in> fst ` set m. map_get 0 m i)"
    using sum_list_distinct_conv_sum_set [OF assms(1), of "map_get 0 m"] by (simp add: comp_def)
  also have "\<dots> = (\<Sum>i \<in> set ids. map_get 0 m i)"
    using assms(3) by (intro sum.mono_neutral_left) (auto intro: map_get_absent)
  also have "\<dots> = (\<Sum>i\<leftarrow>ids. map_get 0 m i)" using assms(2) by (simp add: sum_list_distinct_conv_sum_set)
  finally show ?thesis .
qed

subsection \<open>The split is the best there is\<close>

lemma cover_order_facts: "set (cover_order xs) = set xs" "distinct (map cs_ID xs) \<Longrightarrow> distinct (map cs_ID (cover_order xs))"
proof -
  show "set (cover_order xs) = set xs" by (simp add: cover_order_def)
  have "mset (map cs_ID (cover_order xs)) = mset (map cs_ID xs)" by (simp add: cover_order_def)
  then show "distinct (map cs_ID xs) \<Longrightarrow> distinct (map cs_ID (cover_order xs))" by (metis mset_eq_imp_distinct_iff)
qed

lemma share_sum:
  assumes "map_ok m" "distinct (map cs_ID srcs)" "fst ` set m \<subseteq> cs_ID ` set srcs"
  shows "(\<Sum>s\<leftarrow>srcs. share m s) = sumv m"
  using sum_map_puts [OF assms(1,2)] assms(3) by (simp add: comp_def)

lemma sum_filter_rest:
  "(\<And>s. s \<in> set xs \<Longrightarrow> \<not> P s \<Longrightarrow> f s = (0 :: int)) \<Longrightarrow> (\<Sum>s\<leftarrow>filter P xs. f s) = (\<Sum>s\<leftarrow>xs. f s)"
  by (induction xs) auto

text \<open>Gifts under ceilings that come to \<open>a\<close> less \<open>r\<close>, where all ceilings are met unless \<open>r\<close> is nothing.\<close>

lemma sum_filled:
  fixes give ceiling :: "'x \<Rightarrow> int"
  assumes "\<And>s. s \<in> set xs \<Longrightarrow> give s \<le> ceiling s" "\<And>s. s \<in> set xs \<Longrightarrow> 0 < r \<Longrightarrow> give s = ceiling s"
    "(\<Sum>s\<leftarrow>xs. give s) = a - r" "0 \<le> r"
  shows "(\<Sum>s\<leftarrow>xs. give s) = min a (\<Sum>s\<leftarrow>xs. ceiling s)" "r = max 0 (a - (\<Sum>s\<leftarrow>xs. ceiling s))"
proof -
  have "(\<Sum>s\<leftarrow>xs. give s) \<le> (\<Sum>s\<leftarrow>xs. ceiling s)" using assms(1) by (intro sum_list_mono) auto
  moreover have "(\<Sum>s\<leftarrow>xs. give s) = (\<Sum>s\<leftarrow>xs. ceiling s)" if "0 < r"
    using assms(2) that by (intro arg_cong [where f = sum_list] map_cong) auto
  ultimately show "(\<Sum>s\<leftarrow>xs. give s) = min a (\<Sum>s\<leftarrow>xs. ceiling s)" "r = max 0 (a - (\<Sum>s\<leftarrow>xs. ceiling s))"
    using assms(3,4) by (cases "r = 0"; simp)+
qed

abbreviation intake0 :: "int \<Rightarrow> intake" where
  "intake0 amount \<equiv> \<lparr>ik_out = [], ik_cap = [], ik_remaining = amount, ik_free = [], ik_seen = []\<rparr>"

text \<open>The whole run: the first loop, then rounds over the rest until nothing is left to give or to take.\<close>

lemma CoverSplit_run:
  assumes "is_i64 amount" "0 < amount" "srcs \<noteq> []" "distinct (map cs_ID srcs)" "[] \<notin> cs_ID ` set srcs"
    "\<forall>s \<in> set srcs. is_i64 (cs_Cap s)"
  obtains k out R where "taken srcs (intake0 amount) k" "CoverSplit amount srcs = (out, R)"
    "set (cover_order (ik_free k)) = {s \<in> set srcs. \<not> cs_Pinned s}"
    "cover_inv amount (ik_cap k) (cover_order (ik_free k)) R out"
    "R = 0 \<or> open_sources (ik_cap k) out (cover_order (ik_free k)) = []" "fst ` set out \<subseteq> cs_ID ` set srcs"
    "\<And>s. s \<in> set srcs \<Longrightarrow> cs_Pinned s \<Longrightarrow> share out s = share (ik_out k) s" "ik_remaining k = 0 \<longrightarrow> R = 0"
proof -
  obtain k where k: "take_in srcs (intake0 amount) = Some k" "taken srcs (intake0 amount) k"
    using take_in_taken [of srcs "intake0 amount"] assms by auto
  note t = taken_D [OF k(2), simplified]
  let ?free = "cover_order (ik_free k)" and ?R = "ik_remaining k"
  have free: "set ?free = {s \<in> set srcs. \<not> cs_Pinned s}" "distinct (map cs_ID ?free)"
    using assms(4) t(1) by (auto simp: cover_order_facts distinct_map_filter)
  have "is_i64 (ceiling_of s)" "0 \<le> ceiling_of s" if "s \<in> set srcs" for s
    using assms(6) that by (auto simp: ceiling_of_def max_def)
  then have inv: "cover_inv amount (ik_cap k) ?free ?R (ik_out k)"
    using t free(1) by (auto simp: cover_inv_def fits_cap_def)
  have pinned: "cs_ID s \<notin> cs_ID ` set ?free" if "s \<in> set srcs" "cs_Pinned s" for s
    using that assms(4) unfolding free(1) by (auto simp: distinct_map inj_on_def)
  show thesis
  proof (cases "?R = 0")
    case True
    with assms(2,3) k(1) have "CoverSplit amount srcs = (ik_out k, 0)" by (simp add: CoverSplit_def)
    with True inv t(6) k(2) free(1) show thesis by (intro that [of k "ik_out k" 0]) auto
  next
    case False
    have "length (open_sources (ik_cap k) (ik_out k) ?free) < length ?free + 1"
      unfolding open_sources_def using length_filter_le by (metis less_Suc_eq_le Suc_eq_plus1)
    then obtain out R where o: "cover_rounds (length ?free + 1) amount (ik_cap k) ?free ?R (ik_out k) = (out, R)"
      "cover_inv amount (ik_cap k) ?free R out" "R = 0 \<or> open_sources (ik_cap k) out ?free = []"
      "fst ` set out \<subseteq> fst ` set (ik_out k) \<union> cs_ID ` set ?free"
      "\<forall>i. i \<notin> cs_ID ` set ?free \<longrightarrow> map_get 0 out i = map_get 0 (ik_out k) i"
      by (rule cover_rounds_done [OF assms(1) free(2) inv])
    have "CoverSplit amount srcs = (out, R)"
      using assms(2,3) k(1) False t(8) o(1,2) by (simp add: CoverSplit_def Let_def max64_def cover_inv_def del: cover_rounds.simps)
    moreover have "fst ` set out \<subseteq> cs_ID ` set srcs" using o(4) t(6) free(1) by blast
    ultimately show thesis using o(2,3,5) pinned False k(2) free(1) by (intro that [of k out R]) blast+
  qed
qed

text \<open>C22: A cover is funded as far as its sources allow: for distinctly named sources the loop's bound
is enough, every source gives between nothing and its ceiling, what is given and what is short make up
the request exactly, the shortfall is only what all the ceilings together lack, and the pinned sources
together give the whole request or all they have.\<close>

theorem CoverSplit_funds_all_it_can:
  assumes "is_i64 amount" "0 < amount" "srcs \<noteq> []" "distinct (map cs_ID srcs)" "[] \<notin> cs_ID ` set srcs"
    "\<forall>s \<in> set srcs. is_i64 (cs_Cap s)"
  shows "case CoverSplit amount srcs of (shares, short) \<Rightarrow>
     (\<Sum>s\<leftarrow>srcs. map_get 0 shares (cs_ID s)) + short = amount \<and>
     short = max 0 (amount - (\<Sum>s\<leftarrow>srcs. max 0 (cs_Cap s))) \<and>
     (\<forall>s \<in> set srcs. 0 \<le> map_get 0 shares (cs_ID s) \<and> map_get 0 shares (cs_ID s) \<le> max 0 (cs_Cap s)) \<and>
     (\<Sum>s\<leftarrow>filter cs_Pinned srcs. map_get 0 shares (cs_ID s)) =
       min amount (\<Sum>s\<leftarrow>filter cs_Pinned srcs. max 0 (cs_Cap s))"
proof -
  obtain k out R where run: "taken srcs (intake0 amount) k" "CoverSplit amount srcs = (out, R)"
    "set (cover_order (ik_free k)) = {s \<in> set srcs. \<not> cs_Pinned s}"
    "cover_inv amount (ik_cap k) (cover_order (ik_free k)) R out"
    "R = 0 \<or> open_sources (ik_cap k) out (cover_order (ik_free k)) = []" "fst ` set out \<subseteq> cs_ID ` set srcs"
    "\<And>s. s \<in> set srcs \<Longrightarrow> cs_Pinned s \<Longrightarrow> share out s = share (ik_out k) s" "ik_remaining k = 0 \<longrightarrow> R = 0"
    by (rule CoverSplit_run [OF assms]) blast
  note t = taken_D [OF run(1), simplified]
  have i: "map_ok out" "fits_cap (ik_cap k) out (cover_order (ik_free k))" "sumv out = amount - R" "0 \<le> R"
    using run(4) by (simp_all add: cover_inv_def)
  have each: "0 \<le> share out s" "share out s \<le> ceiling_of s" if "s \<in> set srcs" for s
    using that t(10) [OF that] run(7) [OF that] i(2) t(2) [OF that] run(3)
    by (cases "cs_Pinned s"; auto simp: fits_cap_def)+
  have full: "share out s = ceiling_of s" if "s \<in> set srcs" "0 < R" for s
  proof (cases "cs_Pinned s")
    case True
    then show ?thesis using t(10) [OF that(1)] run(7) [OF that(1)] run(8) that(2) by auto
  next
    case False
    with run(3,5) that have "\<not> share out s < share (ik_cap k) s" by (auto simp: open_sources_def filter_empty_conv)
    then show ?thesis using t(2) [OF that(1)] each [OF that(1)] by simp
  qed
  have all: "(\<Sum>s\<leftarrow>srcs. share out s) = amount - R"
    using share_sum [OF i(1) assms(4) run(6)] i(3) by simp
  let ?pinned = "filter cs_Pinned srcs"
  have "(\<Sum>s\<leftarrow>?pinned. share (ik_out k) s) = (\<Sum>s\<leftarrow>srcs. share (ik_out k) s)"
    using t(11) by (intro sum_filter_rest) auto
  then have "(\<Sum>s\<leftarrow>?pinned. share (ik_out k) s) = amount - ik_remaining k"
    using share_sum [OF t(5) assms(4)] t(6,7) by simp
  then have "(\<Sum>s\<leftarrow>?pinned. share (ik_out k) s) = min amount (\<Sum>s\<leftarrow>?pinned. ceiling_of s)"
    using t(8,10) by (intro sum_filled(1)) auto
  moreover have "(\<Sum>s\<leftarrow>?pinned. share out s) = (\<Sum>s\<leftarrow>?pinned. share (ik_out k) s)"
    using run(7) by (intro arg_cong [where f = sum_list] map_cong) auto
  moreover have "R = max 0 (amount - (\<Sum>s\<leftarrow>srcs. ceiling_of s))"
    using each full all i(4) by (intro sum_filled(2)) auto
  ultimately show ?thesis
    using all each unfolding run(2) ceiling_of_def by simp
qed

definition sample_sources :: "CoverSplitInput list" where
  "sample_sources =
     [\<lparr>cs_ID = ''a'', cs_Cap = 30, cs_Weight = 1, cs_Pinned = False\<rparr>,
      \<lparr>cs_ID = ''b'', cs_Cap = 10, cs_Weight = 5, cs_Pinned = False\<rparr>,
      \<lparr>cs_ID = ''c'', cs_Cap = 50, cs_Weight = 0, cs_Pinned = True\<rparr>]"

theorem CoverSplit_funds_all_it_can_witness:
  "snd (CoverSplit 100 sample_sources) = 10 \<and> map_get 0 (fst (CoverSplit 100 sample_sources)) ''b'' \<le> 10"
proof -
  have i64: "is_i64 100" "is_i64 30" "is_i64 10" "is_i64 50" by (simp_all add: is_i64_def)
  show ?thesis
    using CoverSplit_funds_all_it_can [of 100 sample_sources]
    by (simp add: sample_sources_def i64 split: prod.splits)
qed

end
