(* ===== verification/Budgets.thy ===== *)
theory Budgets
  imports Domain
begin

text \<open>
  Budgets: the record of \<open>internal/domain/entities.go\<close> with its period adjustments, the balanced
  transfer of \<open>internal/budgeting/transfer.go\<close> and the rollover chain of \<open>rollover_chain.go\<close>. The
  calendar day that keys an adjustment depends on a time's location, which its instant does not
  determine: \<open>Format\<close> is an argument. Shows that moves and transfers create no money, that the
  adjustments stay in normal form, and that a chain carries exactly what was left.
\<close>

subsection \<open>The record\<close>

record CoverShare =
  csh_BudgetID :: string
  csh_Weight :: int
  csh_WeightFormula :: string

record RecurringCover =
  rcv_AmountMinor :: int
  rcv_AmountFormula :: string
  rcv_Sources :: "CoverShare list"
  rcv_LastAppliedPeriod :: string
  rcv_Custom :: "(string \<times> any_value) list"

record Budget =
  b_ID :: string
  b_Name :: string
  b_Scope :: Scope
  b_OwnerID :: string
  b_CategoryID :: string
  b_Period :: string
  b_Limit :: Money
  b_Rollover :: bool
  b_RolloverStart :: time
  b_LimitHistory :: "(string, int) go_map"
  b_Methodology :: string
  b_Custom :: "(string \<times> any_value) list"
  b_VarName :: string
  b_RecurringCover :: "RecurringCover option"
  b_CoveredAt :: time
  b_CategoryIDs :: "string list"
  b_TrackedTags :: "string list"
  b_Notes :: string
  b_PeriodBoosts :: "(string, int) go_map"
  b_PeriodTopups :: "(string, int) go_map"
  b_PeriodNotes :: "(string, string) go_map"
  b_TargetKind :: string
  b_TargetAmount :: Money
  b_TargetDate :: time
  b_LinkedGoalID :: string
  b_Direction :: string
  b_RolloverCapPeriods :: int
  b_TargetSnoozedUntil :: time

definition IsSaving :: "Budget \<Rightarrow> bool" where "IsSaving b \<longleftrightarrow> b_Direction b = ''save''"
definition HasTarget :: "Budget \<Rightarrow> bool" where "HasTarget b \<longleftrightarrow> b_TargetKind b \<noteq> []"

definition TargetSnoozed :: "Budget \<Rightarrow> time \<Rightarrow> bool" where
  "TargetSnoozed b now \<longleftrightarrow> b_TargetSnoozedUntil b \<noteq> zero_time \<and> now < b_TargetSnoozedUntil b"

definition TargetActive :: "Budget \<Rightarrow> time \<Rightarrow> bool" where
  "TargetActive b now \<longleftrightarrow> HasTarget b \<and> \<not> TargetSnoozed b now"

definition PeriodNote :: "(time \<Rightarrow> string) \<Rightarrow> Budget \<Rightarrow> time \<Rightarrow> string" where
  "PeriodNote Format b periodStart = map_get [] (b_PeriodNotes b) (Format periodStart)"

definition WithPeriodNote :: "(time \<Rightarrow> string) \<Rightarrow> Budget \<Rightarrow> time \<Rightarrow> string \<Rightarrow> Budget" where
  "WithPeriodNote Format b periodStart note =
     (let key = Format periodStart; note = trim_space note in
      b\<lparr>b_PeriodNotes := if note = [] then AList.delete key (b_PeriodNotes b) else map_put key note (b_PeriodNotes b)\<rparr>)"

definition PeriodBoost :: "(time \<Rightarrow> string) \<Rightarrow> Budget \<Rightarrow> time \<Rightarrow> int" where
  "PeriodBoost Format b periodStart = map_get 0 (b_PeriodBoosts b) (Format periodStart)"

definition set_or_drop :: "string \<Rightarrow> int \<Rightarrow> (string, int) go_map \<Rightarrow> (string, int) go_map" where
  "set_or_drop key v m = (if v = 0 then AList.delete key m else map_put key v m)"

definition withPeriodAdjustment :: "(time \<Rightarrow> string) \<Rightarrow> Budget \<Rightarrow> time \<Rightarrow> int \<Rightarrow> bool \<Rightarrow> money_error + Budget" where
  "withPeriodAdjustment Format b periodStart delta copyable =
     (let key = Format periodStart in
      bindE (Add (map_get 0 (b_PeriodBoosts b) key) delta) (\<lambda>amount.
      bindE (if copyable then Add (map_get 0 (b_PeriodTopups b) key) delta else Inr (map_get 0 (b_PeriodTopups b) key)) (\<lambda>topup.
      let b = b\<lparr>b_PeriodBoosts := set_or_drop key amount (b_PeriodBoosts b)\<rparr>
      in Inr (if copyable then b\<lparr>b_PeriodTopups := set_or_drop key topup (b_PeriodTopups b)\<rparr> else b))))"

definition WithPeriodBoostChecked :: "(time \<Rightarrow> string) \<Rightarrow> Budget \<Rightarrow> time \<Rightarrow> int \<Rightarrow> money_error + Budget" where
  "WithPeriodBoostChecked Format b periodStart delta = withPeriodAdjustment Format b periodStart delta True"

definition WithPeriodMoveChecked :: "(time \<Rightarrow> string) \<Rightarrow> Budget \<Rightarrow> time \<Rightarrow> int \<Rightarrow> money_error + Budget" where
  "WithPeriodMoveChecked Format b periodStart delta = withPeriodAdjustment Format b periodStart delta False"

definition WithPeriodBoost :: "(time \<Rightarrow> string) \<Rightarrow> Budget \<Rightarrow> time \<Rightarrow> int \<Rightarrow> Budget" where
  "WithPeriodBoost Format b periodStart delta =
     (case WithPeriodBoostChecked Format b periodStart delta of Inl e \<Rightarrow> b | Inr updated \<Rightarrow> updated)"

definition TrackedCategoryIDs :: "Budget \<Rightarrow> string list" where
  "TrackedCategoryIDs b =
     (if b_CategoryIDs b \<noteq> [] then b_CategoryIDs b else if b_CategoryID b \<noteq> [] then [b_CategoryID b] else [])"

definition TracksCategory :: "Budget \<Rightarrow> string \<Rightarrow> bool" where
  "TracksCategory b categoryID \<longleftrightarrow> categoryID \<in> set (TrackedCategoryIDs b)"

definition TracksTags :: "Budget \<Rightarrow> bool" where "TracksTags b \<longleftrightarrow> b_TrackedTags b \<noteq> []"

definition TrackedTagSet :: "Budget \<Rightarrow> string list" where
  "TrackedTagSet b = [t \<leftarrow> map (\<lambda>t. to_lower (trim_space t)) (b_TrackedTags b). t \<noteq> []]"

definition TracksAnyTag :: "Budget \<Rightarrow> string list \<Rightarrow> bool" where
  "TracksAnyTag b txnTags \<longleftrightarrow> (\<exists>t \<in> set txnTags. to_lower (trim_space t) \<in> set (TrackedTagSet b))"

subsection \<open>Transfers (\<open>transfer.go\<close>)\<close>

datatype transfer_error =
  ErrTransferSameBudget | ErrTransferNonPositive | ErrTransferCurrency | ErrInsufficientSource | TransferMoney money_error

record TransferResult =
  tr_From :: Budget
  tr_To :: Budget
  tr_Amount :: Money
  tr_FromLimitBefore :: Money
  tr_FromLimitAfter :: Money
  tr_ToLimitBefore :: Money
  tr_ToLimitAfter :: Money

definition transfer_money :: "money_error + 'a \<Rightarrow> transfer_error + 'a" where
  "transfer_money r = (case r of Inl e \<Rightarrow> Inl (TransferMoney e) | Inr v \<Rightarrow> Inr v)"

definition Transfer :: "Budget \<Rightarrow> Budget \<Rightarrow> Money \<Rightarrow> bool \<Rightarrow> transfer_error + TransferResult" where
  "Transfer src dest amt allowNegativeSource =
     (if b_ID src = b_ID dest then Inl ErrTransferSameBudget
      else if \<not> IsPositive amt then Inl ErrTransferNonPositive
      else if Currency (b_Limit src) \<noteq> Currency (b_Limit dest) then Inl ErrTransferCurrency
      else if Currency amt \<noteq> Currency (b_Limit src) then Inl ErrTransferCurrency
      else bindE (transfer_money (Money_Sub (b_Limit src) amt)) (\<lambda>newFrom.
        if IsNegative newFrom \<and> \<not> allowNegativeSource then Inl ErrInsufficientSource
        else bindE (transfer_money (Money_Add (b_Limit dest) amt)) (\<lambda>newTo.
          Inr \<lparr>tr_From = src\<lparr>b_Limit := newFrom\<rparr>, tr_To = dest\<lparr>b_Limit := newTo\<rparr>, tr_Amount = amt,
            tr_FromLimitBefore = b_Limit src, tr_FromLimitAfter = newFrom,
            tr_ToLimitBefore = b_Limit dest, tr_ToLimitAfter = newTo\<rparr>)))"

text \<open>\<open>CoverAmount\<close> of a status with the given remaining amount; \<open>Neg\<close> panics on the least int64.\<close>

definition CoverAmount :: "Money \<Rightarrow> Money option" where
  "CoverAmount remaining =
     (if \<not> IsNegative remaining then Some (Zero (Currency remaining)) else Money_Neg remaining)"

subsection \<open>Rollover chains (\<open>rollover_chain.go\<close>)\<close>

record RolloverPeriod =
  rp_Start :: time
  rp_Base :: Money
  rp_Spend :: Money

record RolloverPeriodState =
  rs_Start :: time
  rs_Base :: Money
  rs_CarryIn :: Money
  rs_EffectiveCap :: Money
  rs_Spend :: Money
  rs_CarryOut :: Money

datatype rollover_error = ErrNotChronological | ErrCurrencyChanged | RolloverMoney money_error

definition rollover_money :: "money_error + 'a \<Rightarrow> rollover_error + 'a" where
  "rollover_money r = (case r of Inl e \<Rightarrow> Inl (RolloverMoney e) | Inr v \<Rightarrow> Inr v)"

text \<open>The carry into a period: the previous one's carry-out, its surplus clamped.\<close>

definition carry_in :: "int \<Rightarrow> (time \<times> Money) option \<Rightarrow> RolloverPeriod \<Rightarrow> rollover_error + Money" where
  "carry_in capPeriods prev p =
     (case prev of
        None \<Rightarrow> Inr (Zero (Currency (rp_Base p)))
      | Some (_, carry) \<Rightarrow>
          if Currency carry \<noteq> Currency (rp_Base p) then Inl ErrCurrencyChanged
          else if capPeriods > 0 \<and> Amount carry > 0
          then bindE (rollover_money (Money_Mul (rp_Base p) capPeriods)) (\<lambda>ceiling.
            Inr (if Amount carry > Amount ceiling then ceiling else carry))
          else Inr carry)"

fun chain_loop :: "int \<Rightarrow> (time \<times> Money) option \<Rightarrow> RolloverPeriod list \<Rightarrow> rollover_error + RolloverPeriodState list" where
  "chain_loop capPeriods prev [] = Inr []"
| "chain_loop capPeriods prev (p # periods) =
     (if (case prev of None \<Rightarrow> False | Some (start, _) \<Rightarrow> \<not> rp_Start p > start) then Inl ErrNotChronological
      else if Currency (rp_Base p) \<noteq> Currency (rp_Spend p) then Inl (RolloverMoney ErrCurrencyMismatch)
      else bindE (carry_in capPeriods prev p) (\<lambda>carry.
        bindE (rollover_money (Money_Add (rp_Base p) carry)) (\<lambda>effective.
        bindE (rollover_money (Money_Sub effective (rp_Spend p))) (\<lambda>carryOut.
        bindE (chain_loop capPeriods (Some (rp_Start p, carryOut)) periods) (\<lambda>out.
          Inr (\<lparr>rs_Start = rp_Start p, rs_Base = rp_Base p, rs_CarryIn = carry, rs_EffectiveCap = effective,
            rs_Spend = rp_Spend p, rs_CarryOut = carryOut\<rparr> # out))))))"

definition BuildRolloverChain :: "RolloverPeriod list \<Rightarrow> int \<Rightarrow> rollover_error + RolloverPeriodState list" where
  "BuildRolloverChain periods capPeriods = chain_loop capPeriods None periods"

subsection \<open>Transfers are balanced\<close>

lemma Money_Sub_eq:
  "is_i64 (Amount m) \<Longrightarrow> is_i64 (Amount n) \<Longrightarrow>
   Money_Sub m n =
     (if Currency m \<noteq> Currency n then Inl ErrCurrencyMismatch
      else if is_i64 (Amount m - Amount n) then Inr \<lparr>Amount = Amount m - Amount n, Currency = Currency m\<rparr>
      else Inl ErrOverflow)"
  by (simp add: Money_Sub_def Sub_exact)

lemma bind_lift [simp]:
  "transfer_money (Inl e) = Inl (TransferMoney e)" "transfer_money (Inr v) = Inr v"
  "rollover_money (Inl e) = Inl (RolloverMoney e)" "rollover_money (Inr v) = Inr v"
  by (simp_all add: transfer_money_def rollover_money_def)

text \<open>A transfer succeeds exactly for two different budgets, a positive amount in their common
currency, a source that covers it unless overdrawing is allowed, and limits that stay within int64;
then it debits the one limit and credits the other by the amount, so their sum is unchanged, and
alters nothing else of the two budgets.\<close>

theorem Transfer_balanced:
  assumes "is_i64 (Amount (b_Limit src))" "is_i64 (Amount (b_Limit dest))" "is_i64 (Amount amt)"
  shows "((\<exists>r. Transfer src dest amt allow = Inr r) \<longleftrightarrow>
      b_ID src \<noteq> b_ID dest \<and> 0 < Amount amt \<and> Currency (b_Limit src) = Currency (b_Limit dest) \<and>
      Currency amt = Currency (b_Limit src) \<and> is_i64 (Amount (b_Limit src) - Amount amt) \<and>
      (allow \<or> Amount amt \<le> Amount (b_Limit src)) \<and> is_i64 (Amount (b_Limit dest) + Amount amt)) \<and>
    (case Transfer src dest amt allow of Inl e \<Rightarrow> True
     | Inr r \<Rightarrow> Amount (tr_FromLimitAfter r) + Amount (tr_ToLimitAfter r) = Amount (b_Limit src) + Amount (b_Limit dest) \<and>
         Amount (tr_ToLimitAfter r) = Amount (b_Limit dest) + Amount amt \<and>
         tr_From r = src\<lparr>b_Limit := tr_FromLimitAfter r\<rparr> \<and> tr_To r = dest\<lparr>b_Limit := tr_ToLimitAfter r\<rparr> \<and>
         tr_FromLimitBefore r = b_Limit src \<and> tr_ToLimitBefore r = b_Limit dest)"
  using assms
  by (auto simp: Transfer_def Money_Sub_eq Money_Add_eq IsPositive_def IsNegative_def)

subsection \<open>Period adjustments\<close>

definition adjustments_normal :: "(string, int) go_map \<Rightarrow> bool" where
  "adjustments_normal m \<longleftrightarrow> map_ok m \<and> (\<forall>v \<in> snd ` set m. v \<noteq> 0 \<and> is_i64 v)"

lemma delete_sum: "map_ok m \<Longrightarrow> sum_list (map snd (AList.delete k m)) = sum_list (map snd m) - map_get (0 :: int) m k"
proof (induction m)
  case (Cons p m)
  obtain k' v' where p: "p = (k', v')" by (cases p)
  show ?case
  proof (cases "k' = k")
    case True
    then have "AList.delete k m = m" using Cons.prems by (force simp: p AList.delete_eq filter_id_conv)
    with True show ?thesis by (simp add: p map_get_Cons AList.delete_eq)
  next
    case False
    then show ?thesis using Cons by (simp add: p map_get_Cons AList.delete_eq)
  qed
qed (simp add: AList.delete_eq)

lemma set_delete_sub: "set (AList.delete k m) \<subseteq> set m"
  by (auto simp: AList.delete_eq)

lemma set_or_drop_facts:
  assumes "adjustments_normal m" "is_i64 v"
  shows "adjustments_normal (set_or_drop k v m)" "map_get 0 (set_or_drop k v m) i = (if i = k then v else map_get 0 m i)"
    "sum_list (map snd (set_or_drop k v m)) = sum_list (map snd m) - map_get 0 m k + v"
proof -
  have ok: "map_ok m" using assms(1) by (simp add: adjustments_normal_def)
  show "map_get 0 (set_or_drop k v m) i = (if i = k then v else map_get 0 m i)"
  proof -
    have "map_get 0 (AList.delete k m) j = (if j = k then 0 else map_get 0 m j)" for j
      by (simp add: map_get_def delete_conv')
    then show ?thesis by (simp add: set_or_drop_def)
  qed
  show "sum_list (map snd (set_or_drop k v m)) = sum_list (map snd m) - map_get 0 m k + v"
    using ok by (simp add: set_or_drop_def sum_values_put delete_sum)
  show "adjustments_normal (set_or_drop k v m)"
  proof (cases "v = 0")
    case True
    have "snd ` set (AList.delete k m) \<subseteq> snd ` set m" by (rule image_mono [OF set_delete_sub])
    moreover have "\<forall>x \<in> snd ` set m. x \<noteq> 0 \<and> is_i64 x" using assms(1) unfolding adjustments_normal_def by blast
    ultimately have "\<forall>x \<in> snd ` set (AList.delete k m). x \<noteq> 0 \<and> is_i64 x" by blast
    with distinct_delete [OF ok, of k] show ?thesis
      unfolding adjustments_normal_def set_or_drop_def True by (simp only: if_True simp_thms)
  next
    case False
    have "set (map_put k v m) \<subseteq> insert (k, v) (set m)" by (induction m) auto
    then have "snd ` set (map_put k v m) \<subseteq> insert v (snd ` set m)" by auto
    moreover have "\<forall>x \<in> snd ` set m. x \<noteq> 0 \<and> is_i64 x" using assms(1) unfolding adjustments_normal_def by blast
    ultimately have "\<forall>x \<in> snd ` set (map_put k v m). x \<noteq> 0 \<and> is_i64 x" using False assms(2) by blast
    with distinct_update [OF ok, of k v] False show ?thesis
      unfolding adjustments_normal_def set_or_drop_def by (simp only: if_False simp_thms)
  qed
qed

lemma normal_get: "adjustments_normal m \<Longrightarrow> is_i64 (map_get 0 m k)"
  by (cases "map_of m k") (auto simp: map_get_def adjustments_normal_def dest!: map_of_SomeD)

text \<open>The stored adjustments of a budget stay in normal form (each period once, never zero, within
int64): an adjustment that succeeds changes its own period's amount, and the sum over all periods, by
exactly the delta, no other period, and the copyable top-ups only when it is one; so the two legs of a
move change the total over both budgets by nothing.\<close>

theorem adjustments_stay_normal:
  assumes "adjustments_normal (b_PeriodBoosts b)" "adjustments_normal (b_PeriodTopups b)" "is_i64 delta"
    and "withPeriodAdjustment Format b start delta copyable = Inr b'"
  shows "adjustments_normal (b_PeriodBoosts b') \<and> adjustments_normal (b_PeriodTopups b') \<and>
    map_get 0 (b_PeriodBoosts b') i = map_get 0 (b_PeriodBoosts b) i + (if i = Format start then delta else 0) \<and>
    sum_list (map snd (b_PeriodBoosts b')) = sum_list (map snd (b_PeriodBoosts b)) + delta \<and>
    sum_list (map snd (b_PeriodTopups b')) = sum_list (map snd (b_PeriodTopups b)) + (if copyable then delta else 0) \<and>
    b_Limit b' = b_Limit b"
  using assms normal_get [OF assms(1), of "Format start"] normal_get [OF assms(2), of "Format start"]
  by (auto simp: withPeriodAdjustment_def Let_def Add_exact set_or_drop_facts split: if_splits)

subsection \<open>What a chain carries\<close>

definition surplus :: "RolloverPeriod \<Rightarrow> int" where
  "surplus p = Amount (rp_Base p) - Amount (rp_Spend p)"

definition period_i64 :: "RolloverPeriod \<Rightarrow> bool" where
  "period_i64 p \<longleftrightarrow> is_i64 (Amount (rp_Base p)) \<and> is_i64 (Amount (rp_Spend p))"

lemma Money_Mul_eq:
  "Money_Mul m f = (if is_i64 (Amount m * f) then Inr \<lparr>Amount = Amount m * f, Currency = Currency m\<rparr> else Inl ErrOverflow)"
  unfolding Money_Mul_def Money_MulDiv_def Mul_def [symmetric] Mul_exact by simp

lemma rollover_Inr: "rollover_money r = Inr v \<longleftrightarrow> r = Inr v"
  by (cases r) simp_all

lemma carry_in_amount:
  assumes "carry_in capPeriods prev p = Inr c"
  shows "Amount c \<le> (case prev of None \<Rightarrow> 0 | Some (_, m) \<Rightarrow> Amount m)"
    "capPeriods \<le> 0 \<Longrightarrow> Amount c = (case prev of None \<Rightarrow> 0 | Some (_, m) \<Rightarrow> Amount m)"
    "(case prev of None \<Rightarrow> True | Some (_, m) \<Rightarrow> is_i64 (Amount m)) \<Longrightarrow> is_i64 (Amount c)"
  using assms
  by (auto simp: carry_in_def Zero_def Money_Mul_eq split: option.splits prod.splits if_splits)

definition chain_link :: "RolloverPeriod \<Rightarrow> RolloverPeriodState \<Rightarrow> bool" where
  "chain_link p s \<longleftrightarrow> rs_Start s = rp_Start p \<and> rs_Base s = rp_Base p \<and> rs_Spend s = rp_Spend p \<and>
     Amount (rs_EffectiveCap s) = Amount (rp_Base p) + Amount (rs_CarryIn s) \<and>
     Amount (rs_CarryOut s) = Amount (rs_EffectiveCap s) - Amount (rp_Spend p)"

lemma chain_loop_facts:
  assumes "chain_loop capPeriods prev ps = Inr out" "list_all period_i64 ps"
    "case prev of None \<Rightarrow> True | Some (_, m) \<Rightarrow> is_i64 (Amount m)"
  shows "list_all2 chain_link ps out \<and> sorted_wrt (<) (map rp_Start ps) \<and>
    (case prev of None \<Rightarrow> True | Some (t, _) \<Rightarrow> list_all (\<lambda>p. t < rp_Start p) ps) \<and>
    (ps \<noteq> [] \<longrightarrow> (let total = (case prev of None \<Rightarrow> 0 | Some (_, m) \<Rightarrow> Amount m) + sum_list (map surplus ps) in
       Amount (rs_CarryOut (last out)) \<le> total \<and> (capPeriods \<le> 0 \<longrightarrow> Amount (rs_CarryOut (last out)) = total)))"
  using assms
proof (induction ps arbitrary: prev out)
  case (Cons p ps)
  obtain c effective carryOut rest where r:
    "case prev of None \<Rightarrow> True | Some (t, _) \<Rightarrow> t < rp_Start p"
    "carry_in capPeriods prev p = Inr c" "Money_Add (rp_Base p) c = Inr effective"
    "Money_Sub effective (rp_Spend p) = Inr carryOut"
    "chain_loop capPeriods (Some (rp_Start p, carryOut)) ps = Inr rest"
    "out = \<lparr>rs_Start = rp_Start p, rs_Base = rp_Base p, rs_CarryIn = c, rs_EffectiveCap = effective,
        rs_Spend = rp_Spend p, rs_CarryOut = carryOut\<rparr> # rest"
    using Cons.prems(1)
    by (auto simp: bindE_Inr_iff rollover_Inr split: if_splits option.splits)
  have i64: "is_i64 (Amount (rp_Base p))" "is_i64 (Amount (rp_Spend p))" "list_all period_i64 ps"
    using Cons.prems(2) by (auto simp: period_i64_def [of p])
  note c = carry_in_amount [OF r(2)]
  have e: "Amount effective = Amount (rp_Base p) + Amount c" "is_i64 (Amount effective)"
    using r(3) i64(1) c(3) [OF Cons.prems(3)] by (auto simp: Money_Add_eq split: if_splits)
  have o: "Amount carryOut = Amount effective - Amount (rp_Spend p)" "is_i64 (Amount carryOut)"
    using r(4) i64(2) e(2) by (auto simp: Money_Sub_eq split: if_splits)
  note IH = Cons.IH [OF r(5) i64(3)]
  have IH': "list_all2 chain_link ps rest" "sorted_wrt (<) (map rp_Start ps)" "list_all (\<lambda>q. rp_Start p < rp_Start q) ps"
    "ps \<noteq> [] \<Longrightarrow> Amount (rs_CarryOut (last rest)) \<le> Amount carryOut + sum_list (map surplus ps)"
    "ps \<noteq> [] \<Longrightarrow> capPeriods \<le> 0 \<Longrightarrow> Amount (rs_CarryOut (last rest)) = Amount carryOut + sum_list (map surplus ps)"
    using IH o(2) by (simp_all add: Let_def)
  have rest: "rest = [] \<longleftrightarrow> ps = []" using IH'(1) by (cases ps) auto
  have later: "case prev of None \<Rightarrow> True | Some (t, _) \<Rightarrow> list_all (\<lambda>q. t < rp_Start q) (p # ps)"
    using r(1) IH'(3) by (cases prev) (auto simp: list_all_iff)
  show ?case
    unfolding r(6) using IH' later c(1,2) e(1) o(1) rest
    by (cases "ps = []") (auto simp: chain_link_def [of p] surplus_def [of p] Let_def list_all_iff)
qed (simp split: option.split)

text \<open>C40: A rollover chain that is built has one link per period, in strictly increasing order, each
with its effective cap the base plus what was carried in and its carry-out the cap less the spending;
what the last period carries out is at most everything budgeted less everything spent, since a ceiling
only drops surplus, and exactly that when no ceiling applies.\<close>

theorem rollover_chain_conserves:
  assumes "BuildRolloverChain ps capPeriods = Inr out" "list_all period_i64 ps" "ps \<noteq> []"
  shows "list_all2 chain_link ps out \<and> sorted_wrt (<) (map rp_Start ps) \<and>
    Amount (rs_CarryOut (last out)) \<le> sum_list (map surplus ps) \<and>
    (capPeriods \<le> 0 \<longrightarrow> Amount (rs_CarryOut (last out)) = sum_list (map surplus ps))"
  using chain_loop_facts [OF assms(1) [unfolded BuildRolloverChain_def] assms(2)] assms(3) by (simp add: Let_def)

subsection \<open>The properties at concrete inputs\<close>

abbreviation usd :: "int \<Rightarrow> Money" where "usd n \<equiv> \<lparr>Amount = n, Currency = ''USD''\<rparr>"

definition sample_budget :: "string \<Rightarrow> int \<Rightarrow> Budget" where
  "sample_budget i n = \<lparr>b_ID = i, b_Name = i, b_Scope = [], b_OwnerID = [], b_CategoryID = [], b_Period = ''monthly'',
     b_Limit = usd n, b_Rollover = False, b_RolloverStart = zero_time, b_LimitHistory = [], b_Methodology = [],
     b_Custom = [], b_VarName = [], b_RecurringCover = None, b_CoveredAt = zero_time, b_CategoryIDs = [],
     b_TrackedTags = [], b_Notes = [], b_PeriodBoosts = [(''2026-01-01'', 5)], b_PeriodTopups = [], b_PeriodNotes = [],
     b_TargetKind = [], b_TargetAmount = usd 0, b_TargetDate = zero_time, b_LinkedGoalID = [], b_Direction = [],
     b_RolloverCapPeriods = 0, b_TargetSnoozedUntil = zero_time\<rparr>"

theorem Transfer_balanced_witness:
  "\<exists>r. Transfer (sample_budget ''a'' 100) (sample_budget ''b'' 50) (usd 30) False = Inr r"
  using Transfer_balanced [of "sample_budget ''a'' 100" "sample_budget ''b'' 50" "usd 30" False]
  by (simp add: sample_budget_def is_i64_def)

definition moved_budget :: Budget where
  "moved_budget = (sample_budget ''a'' 100)\<lparr>b_PeriodBoosts := []\<rparr>"

theorem adjustments_stay_normal_witness:
  "adjustments_normal (b_PeriodBoosts moved_budget) \<and> sum_list (map snd (b_PeriodBoosts moved_budget)) = 5 + - 5"
proof -
  have "withPeriodAdjustment (\<lambda>_. ''2026-01-01'') (sample_budget ''a'' 100) 0 (- 5) False = Inr moved_budget"
    by (simp add: withPeriodAdjustment_def moved_budget_def sample_budget_def Let_def Add_exact is_i64_def
        set_or_drop_def AList.delete_eq map_get_def)
  from adjustments_stay_normal [OF _ _ _ this, of "[]"] show ?thesis
    by (simp add: sample_budget_def adjustments_normal_def is_i64_def)
qed

definition sample_periods :: "RolloverPeriod list" where
  "sample_periods = [\<lparr>rp_Start = 1, rp_Base = usd 100, rp_Spend = usd 70\<rparr>, \<lparr>rp_Start = 2, rp_Base = usd 100, rp_Spend = usd 150\<rparr>]"

theorem rollover_chain_conserves_witness:
  "\<exists>out. BuildRolloverChain sample_periods 0 = Inr out \<and> Amount (rs_CarryOut (last out)) = - 20"
proof -
  obtain out where out: "BuildRolloverChain sample_periods 0 = Inr out"
    by (simp add: BuildRolloverChain_def sample_periods_def carry_in_def Zero_def normalizeCode_def trim_space_id
        is_graph_def to_upper_def to_upper_char_def Money_Add_eq Money_Sub_eq is_i64_def)
  have "list_all period_i64 sample_periods" "sample_periods \<noteq> []" "sum_list (map surplus sample_periods) = - 20"
    by (simp_all add: sample_periods_def period_i64_def surplus_def is_i64_def)
  with rollover_chain_conserves [OF out] out show ?thesis by auto
qed

end
