(* ===== verification/RefreshSessions.thy ===== *)
theory RefreshSessions
  imports Domain
begin

text \<open>
  The server's sign-in sessions: the table \<open>refresh_tokens\<close> of \<open>internal/server/repository.go\<close> with
  its statements, and the handler \<open>authServer.RefreshToken\<close> of \<open>authservice.go\<close> that rotates a
  refresh token, lets the same device retry for ten seconds, and turns out a whole family of tokens
  on any other reuse. Shows that a token is spent at most once under every order of requests, that a
  family has at most one live token, that reuse ends the family for good, and that a retry returns
  the very token the lost answer carried.
\<close>

subsection \<open>The table\<close>

text \<open>An empty text in the columns \<open>used_at\<close> and \<open>revoked_at\<close> is \<open>None\<close>, read as the zero time.\<close>

record RefreshSession =
  rs_JTI :: string
  rs_FamilyID :: string
  rs_UserID :: string
  rs_TokenHash :: string
  rs_DeviceLabel :: string
  rs_ExpiresAt :: time
  rs_UsedAt :: "time option"
  rs_RevokedAt :: "time option"
  rs_SuccessorJTI :: string
  rs_RotationBinding :: string

definition zero_session :: RefreshSession where
  "zero_session = \<lparr>rs_JTI = [], rs_FamilyID = [], rs_UserID = [], rs_TokenHash = [], rs_DeviceLabel = [],
     rs_ExpiresAt = zero_time, rs_UsedAt = None, rs_RevokedAt = None, rs_SuccessorJTI = [], rs_RotationBinding = []\<rparr>"

type_synonym token_table = "RefreshSession list"

datatype session_error = ErrSessionFields | ErrSuccessorIncomplete | ErrDuplicateToken | ErrReadClaimed

abbreviation blank :: "string \<Rightarrow> bool" where
  "blank s \<equiv> trim_space s = []"

text \<open>
  Times are stored as texts in the layout \<open>time.RFC3339Nano\<close>, whose fraction of a second loses its
  trailing zeros, and SQL compares the texts. Up to the second the layout has a fixed width (years
  1 to 9999), so the order of two texts is that of the seconds, then that of what follows them.
\<close>

definition nine_digits :: "int \<Rightarrow> string" where
  "nine_digits n = map (\<lambda>k. char_of (48 + n div 10 ^ k mod 10)) (rev [0..<9])"

definition fraction_text :: "int \<Rightarrow> string" where
  "fraction_text ns =
     (if ns = 0 then [] else CHR ''.'' # rev (dropWhile (\<lambda>c. c = CHR ''0'') (rev (nine_digits ns)))) @ ''Z''"

definition text_after :: "time \<Rightarrow> time \<Rightarrow> bool" where
  "text_after a b \<longleftrightarrow> b div 10 ^ 9 < a div 10 ^ 9 \<or>
     b div 10 ^ 9 = a div 10 ^ 9 \<and> fraction_text (b mod 10 ^ 9) < fraction_text (a mod 10 ^ 9)"

definition sql_update :: "('r \<Rightarrow> bool) \<Rightarrow> ('r \<Rightarrow> 'r) \<Rightarrow> 'r list \<Rightarrow> 'r list" where
  "sql_update P f rows = map (\<lambda>r. if P r then f r else r) rows"

definition row_of :: "token_table \<Rightarrow> string \<Rightarrow> RefreshSession option" where
  "row_of tbl jti = find (\<lambda>r. rs_JTI r = jti) tbl"

definition insert_token :: "RefreshSession \<Rightarrow> token_table \<Rightarrow> token_table option" where
  "insert_token s tbl = (if row_of tbl (rs_JTI s) \<noteq> None then None
     else Some (tbl @ [s\<lparr>rs_UsedAt := None, rs_RevokedAt := None, rs_SuccessorJTI := [], rs_RotationBinding := []\<rparr>]))"

definition PutRefreshSession :: "RefreshSession \<Rightarrow> token_table \<Rightarrow> session_error option \<times> token_table" where
  "PutRefreshSession s tbl =
     (if blank (rs_JTI s) \<or> blank (rs_FamilyID s) \<or> blank (rs_UserID s) \<or> blank (rs_TokenHash s) \<or> rs_ExpiresAt s = zero_time
      then (Some ErrSessionFields, tbl)
      else case insert_token s tbl of None \<Rightarrow> (Some ErrDuplicateToken, tbl) | Some tbl' \<Rightarrow> (None, tbl'))"

definition claimable :: "string \<Rightarrow> string \<Rightarrow> time \<Rightarrow> RefreshSession \<Rightarrow> bool" where
  "claimable jti h now r \<longleftrightarrow> rs_JTI r = jti \<and> rs_TokenHash r = h \<and> rs_UsedAt r = None \<and> rs_RevokedAt r = None \<and>
     text_after (rs_ExpiresAt r) now"

definition claim :: "time \<Rightarrow> string \<Rightarrow> string \<Rightarrow> RefreshSession \<Rightarrow> RefreshSession" where
  "claim now succ binding r = r\<lparr>rs_UsedAt := Some now, rs_SuccessorJTI := succ, rs_RotationBinding := binding\<rparr>"

definition inherit :: "RefreshSession \<Rightarrow> RefreshSession \<Rightarrow> RefreshSession" where
  "inherit s session = s\<lparr>rs_FamilyID := rs_FamilyID session, rs_UserID := rs_UserID session,
     rs_DeviceLabel := (if rs_DeviceLabel s = [] then rs_DeviceLabel session else rs_DeviceLabel s)\<rparr>"

definition RotateRefreshSessionBound ::
  "string \<Rightarrow> string \<Rightarrow> string \<Rightarrow> time \<Rightarrow> RefreshSession \<Rightarrow> token_table \<Rightarrow>
     (session_error + RefreshSession \<times> bool) \<times> token_table" where
  "RotateRefreshSessionBound jti h binding now s tbl =
     (if blank jti \<or> blank h then (Inl ErrSessionFields, tbl)
      else if blank (rs_JTI s) \<or> blank (rs_TokenHash s) \<or> rs_ExpiresAt s = zero_time then (Inl ErrSuccessorIncomplete, tbl)
      else if [r \<leftarrow> tbl. claimable jti h now r] = [] then
        (case row_of tbl jti of None \<Rightarrow> (Inr (zero_session, False), tbl) | Some r \<Rightarrow> (Inr (r, False), tbl))
      else let tx = sql_update (claimable jti h now) (claim now (rs_JTI s) binding) tbl
        in case row_of tx jti of None \<Rightarrow> (Inl ErrReadClaimed, tbl)
         | Some session \<Rightarrow> (case insert_token (inherit s session) tx of
             None \<Rightarrow> (Inl ErrDuplicateToken, tbl)
           | Some tx' \<Rightarrow> (Inr (session, True), tx')))"

definition RotateRefreshSession ::
  "string \<Rightarrow> string \<Rightarrow> time \<Rightarrow> RefreshSession \<Rightarrow> token_table \<Rightarrow> (session_error + RefreshSession \<times> bool) \<times> token_table" where
  "RotateRefreshSession jti h now s tbl = RotateRefreshSessionBound jti h [] now s tbl"

definition GetRefreshSession :: "token_table \<Rightarrow> string \<Rightarrow> RefreshSession option" where
  "GetRefreshSession tbl jti = row_of tbl jti"

definition ConsumeRefreshSession ::
  "string \<Rightarrow> string \<Rightarrow> time \<Rightarrow> token_table \<Rightarrow> (session_error + RefreshSession \<times> bool) \<times> token_table" where
  "ConsumeRefreshSession jti h now tbl =
     (if blank jti \<or> blank h then (Inl ErrSessionFields, tbl)
      else case row_of tbl jti of None \<Rightarrow> (Inr (zero_session, False), tbl)
       | Some session \<Rightarrow>
           if rs_TokenHash session \<noteq> h \<or> rs_UsedAt session \<noteq> None \<or> rs_RevokedAt session \<noteq> None \<or> \<not> now < rs_ExpiresAt session
           then (Inr (session, False), tbl)
           else (Inr (session\<lparr>rs_UsedAt := Some now\<rparr>, True),
                 sql_update (\<lambda>r. rs_JTI r = jti) (\<lambda>r. r\<lparr>rs_UsedAt := Some now\<rparr>) tbl))"

definition revoke_where :: "(RefreshSession \<Rightarrow> bool) \<Rightarrow> time \<Rightarrow> token_table \<Rightarrow> bool \<times> token_table" where
  "revoke_where P now tbl =
     ([r \<leftarrow> tbl. P r \<and> rs_RevokedAt r = None] \<noteq> [],
      sql_update (\<lambda>r. P r \<and> rs_RevokedAt r = None) (\<lambda>r. r\<lparr>rs_RevokedAt := Some now\<rparr>) tbl)"

definition RevokeRefreshSessionFamily :: "string \<Rightarrow> time \<Rightarrow> token_table \<Rightarrow> session_error option \<times> token_table" where
  "RevokeRefreshSessionFamily family now tbl =
     (if blank family then (Some ErrSessionFields, tbl)
      else (None, snd (revoke_where (\<lambda>r. rs_FamilyID r = family) now tbl)))"

definition RevokeRefreshSessionFamilyForUser ::
  "string \<Rightarrow> string \<Rightarrow> time \<Rightarrow> token_table \<Rightarrow> (session_error + bool) \<times> token_table" where
  "RevokeRefreshSessionFamilyForUser user family now tbl =
     (if blank user \<or> blank family then (Inl ErrSessionFields, tbl)
      else let (affected, tbl') =
          revoke_where (\<lambda>r. rs_UserID r = trim_space user \<and> rs_FamilyID r = trim_space family) now tbl
        in (Inr affected, tbl'))"

definition RevokeRefreshSessionsForUser :: "string \<Rightarrow> time \<Rightarrow> token_table \<Rightarrow> session_error option \<times> token_table" where
  "RevokeRefreshSessionsForUser user now tbl =
     (if blank user then (Some ErrSessionFields, tbl)
      else (None, snd (revoke_where (\<lambda>r. rs_UserID r = user) now tbl)))"

subsection \<open>The refresh handler\<close>

text \<open>
  Signing and verifying a token (base64, JSON and HMAC under the configured keys) and its SHA-256
  digest are the functions of \<open>session_crypto\<close>: \<open>sc_decode\<close> gives the claims of a token whose
  signature verifies, \<open>sc_sign\<close> the token of given claims.
\<close>

record sessionClaims =
  cl_Sub :: string
  cl_Type :: string
  cl_Exp :: int
  cl_JTI :: string
  cl_Family :: string

record session_crypto =
  sc_decode :: "string \<Rightarrow> sessionClaims option"
  sc_sign :: "sessionClaims \<Rightarrow> string"
  sc_hash :: "string \<Rightarrow> string"
  sc_configured :: bool

definition second :: int where "second = 10 ^ 9"
definition unix_seconds :: "time \<Rightarrow> int" where "unix_seconds t = t div second"
definition sessionAccessTTL :: int where "sessionAccessTTL = 15 * 60 * second"
definition sessionRefreshTTL :: int where "sessionRefreshTTL = 30 * 24 * 3600 * second"
definition refreshReuseGrace :: int where "refreshReuseGrace = 10 * second"

definition verifySessionClaims :: "session_crypto \<Rightarrow> string \<Rightarrow> string \<Rightarrow> time \<Rightarrow> sessionClaims option" where
  "verifySessionClaims C token typ now = (case sc_decode C token of None \<Rightarrow> None
     | Some claims \<Rightarrow>
         if cl_Type claims \<noteq> typ \<or> blank (cl_Sub claims) \<or> cl_Exp claims \<le> unix_seconds now then None else Some claims)"

definition issueSessionTokenWithClaims :: "session_crypto \<Rightarrow> sessionClaims \<Rightarrow> string option" where
  "issueSessionTokenWithClaims C claims =
     (if blank (cl_Sub claims) \<or> \<not> sc_configured C then None else Some (sc_sign C claims))"

definition refresh_claims :: "RefreshSession \<Rightarrow> sessionClaims" where
  "refresh_claims s = \<lparr>cl_Sub = rs_UserID s, cl_Type = ''refresh'', cl_Exp = unix_seconds (rs_ExpiresAt s),
     cl_JTI = rs_JTI s, cl_Family = rs_FamilyID s\<rparr>"

definition access_claims :: "string \<Rightarrow> string \<Rightarrow> time \<Rightarrow> sessionClaims" where
  "access_claims user jti now = \<lparr>cl_Sub = user, cl_Type = ''access'', cl_Exp = unix_seconds (now + sessionAccessTTL),
     cl_JTI = jti, cl_Family = []\<rparr>"

definition makeRefreshSuccessor ::
  "session_crypto \<Rightarrow> string \<Rightarrow> string \<Rightarrow> string \<Rightarrow> time \<Rightarrow> string \<Rightarrow> RefreshSession option" where
  "makeRefreshSuccessor C user family jti now label =
     map_option (\<lambda>refresh. zero_session\<lparr>rs_JTI := jti, rs_FamilyID := family, rs_UserID := user,
         rs_TokenHash := sc_hash C refresh, rs_DeviceLabel := label, rs_ExpiresAt := now + sessionRefreshTTL\<rparr>)
       (issueSessionTokenWithClaims C \<lparr>cl_Sub = user, cl_Type = ''refresh'', cl_Exp = unix_seconds (now + sessionRefreshTTL),
          cl_JTI = jti, cl_Family = family\<rparr>)"

record TokenPair =
  tp_AccessToken :: string
  tp_RefreshToken :: string
  tp_ExpiresInSeconds :: int
  tp_DeviceID :: string

definition pair_of :: "session_crypto \<Rightarrow> sessionClaims \<Rightarrow> RefreshSession \<Rightarrow> TokenPair option" where
  "pair_of C access s = (case issueSessionTokenWithClaims C access of None \<Rightarrow> None
     | Some a \<Rightarrow> map_option (\<lambda>refresh. \<lparr>tp_AccessToken = a, tp_RefreshToken = refresh,
           tp_ExpiresInSeconds = sessionAccessTTL div second, tp_DeviceID = rs_FamilyID s\<rparr>)
         (issueSessionTokenWithClaims C (refresh_claims s)))"

definition tokenPairFromSuccessor :: "session_crypto \<Rightarrow> RefreshSession \<Rightarrow> time \<Rightarrow> TokenPair option" where
  "tokenPairFromSuccessor C s issuedAt = pair_of C (access_claims (rs_UserID s) [] issuedAt) s"

text \<open>\<open>Some None\<close>: no pair to grant; \<open>None\<close>: signing failed or the token is not the one stored.\<close>

definition refreshSuccessorPair ::
  "session_crypto \<Rightarrow> token_table \<Rightarrow> string \<Rightarrow> RefreshSession \<Rightarrow> time \<Rightarrow> TokenPair option option" where
  "refreshSuccessorPair C tbl accessID consumed now = (case GetRefreshSession tbl (rs_SuccessorJTI consumed) of
       None \<Rightarrow> Some None
     | Some s \<Rightarrow>
         if rs_UsedAt s \<noteq> None \<or> rs_RevokedAt s \<noteq> None then Some None
         else case pair_of C (access_claims (rs_UserID s) accessID now) s of
             None \<Rightarrow> None
           | Some p \<Rightarrow> if sc_hash C (tp_RefreshToken p) \<noteq> rs_TokenHash s then None else Some (Some p))"

definition in_grace :: "string \<Rightarrow> string \<Rightarrow> time \<Rightarrow> RefreshSession \<Rightarrow> bool" where
  "in_grace presented binding now s \<longleftrightarrow>
     rs_TokenHash s = presented \<and> binding \<noteq> [] \<and> rs_RotationBinding s = binding \<and>
     (case rs_UsedAt s of None \<Rightarrow> False
      | Some used \<Rightarrow> rs_SuccessorJTI s \<noteq> [] \<and> 0 \<le> now - used \<and> now - used \<le> refreshReuseGrace) \<and>
     rs_RevokedAt s = None"

text \<open>The codes of the handler's errors; \<open>rq_successor\<close> and \<open>rq_access\<close> are the ids drawn at random.\<close>

datatype rpc_error = InvalidArgument | Unauthenticated | Internal | PermissionDenied | NotFound

record refresh_request =
  rq_token :: string
  rq_binding :: string
  rq_now :: time
  rq_successor :: string
  rq_access :: string

definition RefreshToken ::
  "session_crypto \<Rightarrow> (string \<Rightarrow> bool) \<Rightarrow> refresh_request \<Rightarrow> token_table \<Rightarrow> (rpc_error + TokenPair) \<times> token_table" where
  "RefreshToken C suspended q tbl =
     (let token = trim_space (rq_token q); now = rq_now q; presented = sc_hash C token; binding = rq_binding q in
      if token = [] then (Inl InvalidArgument, tbl)
      else case verifySessionClaims C token ''refresh'' now of None \<Rightarrow> (Inl Unauthenticated, tbl)
      | Some claims \<Rightarrow>
          if blank (cl_JTI claims) \<or> blank (cl_Family claims) then (Inl Unauthenticated, tbl)
          else case makeRefreshSuccessor C (cl_Sub claims) (cl_Family claims) (rq_successor q) now [] of
            None \<Rightarrow> (Inl Internal, tbl)
          | Some s \<Rightarrow>
              (case RotateRefreshSessionBound (cl_JTI claims) presented binding now s tbl of
                 (Inl e, tbl') \<Rightarrow> (Inl Internal, tbl')
               | (Inr (session, True), tbl') \<Rightarrow>
                   if suspended (rs_UserID session)
                   then (Inl PermissionDenied, snd (RevokeRefreshSessionFamily (rs_FamilyID session) now tbl'))
                   else (case tokenPairFromSuccessor C s (now div second * second) of
                           None \<Rightarrow> (Inl Internal, tbl') | Some p \<Rightarrow> (Inr p, tbl'))
               | (Inr (session, False), tbl') \<Rightarrow>
                   let refuse = (Inl Unauthenticated, snd (RevokeRefreshSessionFamily (rs_FamilyID session) now tbl')) in
                   if in_grace presented binding now session then
                     (case refreshSuccessorPair C tbl' (rq_access q) session now of
                        None \<Rightarrow> (Inl Internal, tbl')
                      | Some None \<Rightarrow> refuse
                      | Some (Some p) \<Rightarrow>
                          if suspended (rs_UserID session)
                          then (Inl PermissionDenied, snd (RevokeRefreshSessionFamily (rs_FamilyID session) now tbl'))
                          else (Inr p, tbl'))
                   else refuse))"

text \<open>A new family at sign-in; \<open>family0\<close> and \<open>jti\<close> are drawn at random.\<close>

definition issueStoredSessionPair ::
  "session_crypto \<Rightarrow> string \<Rightarrow> time \<Rightarrow> string \<Rightarrow> string \<Rightarrow> string \<Rightarrow> string \<Rightarrow> token_table \<Rightarrow>
     (string \<times> string) option \<times> token_table" where
  "issueStoredSessionPair C user now family label family0 jti tbl =
     (let fam = (if trim_space family = [] then family0 else trim_space family) in
      case issueSessionTokenWithClaims C (access_claims user [] now) of None \<Rightarrow> (None, tbl)
      | Some access \<Rightarrow>
          (case makeRefreshSuccessor C user fam jti now (trim_space label) of None \<Rightarrow> (None, tbl)
           | Some s \<Rightarrow> (case PutRefreshSession s tbl of
               (Some e, tbl') \<Rightarrow> (None, tbl')
             | (None, tbl') \<Rightarrow> (map_option (\<lambda>refresh. (access, refresh)) (issueSessionTokenWithClaims C (refresh_claims s)), tbl'))))"

definition Logout :: "session_crypto \<Rightarrow> string \<Rightarrow> time \<Rightarrow> token_table \<Rightarrow> (rpc_error + bool) \<times> token_table" where
  "Logout C token now tbl =
     (if blank token then (Inl InvalidArgument, tbl)
      else case verifySessionClaims C (trim_space token) ''refresh'' now of None \<Rightarrow> (Inr False, tbl)
      | Some claims \<Rightarrow>
          if blank (cl_Family claims) then (Inr False, tbl)
          else case RevokeRefreshSessionFamilyForUser (cl_Sub claims) (cl_Family claims) now tbl of
              (Inl e, tbl') \<Rightarrow> (Inl Internal, tbl')
            | (Inr revoked, tbl') \<Rightarrow> (Inr revoked, tbl'))"

definition RevokeDevice :: "string \<Rightarrow> string \<Rightarrow> time \<Rightarrow> token_table \<Rightarrow> (rpc_error + bool) \<times> token_table" where
  "RevokeDevice user family now tbl =
     (if blank user then (Inl Unauthenticated, tbl)
      else if blank family then (Inl InvalidArgument, tbl)
      else case RevokeRefreshSessionFamilyForUser user (trim_space family) now tbl of
          (Inl e, tbl') \<Rightarrow> (Inl Internal, tbl')
        | (Inr revoked, tbl') \<Rightarrow> (if revoked then Inr True else Inl NotFound, tbl'))"

subsection \<open>Any order of requests\<close>

text \<open>
  Each statement or transaction on the table is atomic, so any number of concurrent requests is some
  sequence of these operations. \<open>run_ops\<close> also lists the tokens spent, one entry for each operation
  that answers its caller that the token was good.
\<close>

datatype session_op =
    PutOp RefreshSession
  | RotateOp string string string time RefreshSession
  | ConsumeOp string string time
  | FamilyOp string time
  | UserFamilyOp string string time
  | UserOp string time

definition spent_by :: "string \<Rightarrow> (session_error + RefreshSession \<times> bool) \<Rightarrow> string list" where
  "spent_by jti res = (case res of Inr (s, True) \<Rightarrow> [jti] | _ \<Rightarrow> [])"

fun apply_op :: "session_op \<Rightarrow> token_table \<Rightarrow> string list \<times> token_table" where
  "apply_op (PutOp s) tbl = ([], snd (PutRefreshSession s tbl))"
| "apply_op (RotateOp jti h b now s) tbl = apfst (spent_by jti) (RotateRefreshSessionBound jti h b now s tbl)"
| "apply_op (ConsumeOp jti h now) tbl = apfst (spent_by jti) (ConsumeRefreshSession jti h now tbl)"
| "apply_op (FamilyOp f now) tbl = ([], snd (RevokeRefreshSessionFamily f now tbl))"
| "apply_op (UserFamilyOp u f now) tbl = ([], snd (RevokeRefreshSessionFamilyForUser u f now tbl))"
| "apply_op (UserOp u now) tbl = ([], snd (RevokeRefreshSessionsForUser u now tbl))"

fun run_ops :: "session_op list \<Rightarrow> token_table \<Rightarrow> string list \<times> token_table" where
  "run_ops [] tbl = ([], tbl)"
| "run_ops (p # ps) tbl = (let (spent, tbl') = apply_op p tbl; (spent', tbl'') = run_ops ps tbl' in (spent @ spent', tbl''))"

subsection \<open>Rows under statements\<close>

abbreviation keyed :: "token_table \<Rightarrow> bool" where
  "keyed tbl \<equiv> distinct (map rs_JTI tbl)"

lemma row_of_Nil [simp]: "row_of [] j = None"
  by (simp add: row_of_def)

lemma row_of_Cons: "row_of (r # tbl) j = (if rs_JTI r = j then Some r else row_of tbl j)"
  by (simp add: row_of_def)

lemma row_of_append: "row_of (tbl @ tbl') j = (case row_of tbl j of None \<Rightarrow> row_of tbl' j | Some r \<Rightarrow> Some r)"
  by (induction tbl) (simp_all add: row_of_Cons)

lemma row_of_SomeD: "row_of tbl j = Some r \<Longrightarrow> r \<in> set tbl \<and> rs_JTI r = j"
  by (induction tbl) (auto simp: row_of_Cons split: if_splits)

lemma row_of_None_iff: "row_of tbl j = None \<longleftrightarrow> j \<notin> rs_JTI ` set tbl"
  by (induction tbl) (auto simp: row_of_Cons)

lemma row_of_keyed: "keyed tbl \<Longrightarrow> r \<in> set tbl \<Longrightarrow> row_of tbl (rs_JTI r) = Some r"
  by (induction tbl) (auto simp: row_of_Cons)

lemma row_of_update:
  "(\<And>r. rs_JTI (f r) = rs_JTI r) \<Longrightarrow>
     row_of (sql_update P f tbl) j = map_option (\<lambda>r. if P r then f r else r) (row_of tbl j)"
  by (induction tbl) (auto simp: row_of_Cons sql_update_def)

lemma keyed_update: "(\<And>r. rs_JTI (f r) = rs_JTI r) \<Longrightarrow> keyed (sql_update P f tbl) \<longleftrightarrow> keyed tbl"
  by (simp add: sql_update_def comp_def if_distrib cong: if_cong)

lemma set_update: "set (sql_update P f tbl) = (\<lambda>r. if P r then f r else r) ` set tbl"
  by (simp add: sql_update_def)

lemma insert_token_Some:
  "insert_token s tbl = Some tbl' \<longleftrightarrow> row_of tbl (rs_JTI s) = None \<and>
     tbl' = tbl @ [s\<lparr>rs_UsedAt := None, rs_RevokedAt := None, rs_SuccessorJTI := [], rs_RotationBinding := []\<rparr>]"
  by (auto simp: insert_token_def)

definition new_row :: "RefreshSession \<Rightarrow> RefreshSession" where
  "new_row s = s\<lparr>rs_UsedAt := None, rs_RevokedAt := None, rs_SuccessorJTI := [], rs_RotationBinding := []\<rparr>"

lemma new_row_simps [simp]:
  "rs_JTI (new_row s) = rs_JTI s" "rs_FamilyID (new_row s) = rs_FamilyID s" "rs_UserID (new_row s) = rs_UserID s"
  "rs_TokenHash (new_row s) = rs_TokenHash s" "rs_UsedAt (new_row s) = None" "rs_RevokedAt (new_row s) = None"
  "rs_ExpiresAt (new_row s) = rs_ExpiresAt s"
  by (simp_all add: new_row_def)

lemma inherit_simps [simp]:
  "rs_JTI (inherit s r) = rs_JTI s" "rs_FamilyID (inherit s r) = rs_FamilyID r" "rs_UserID (inherit s r) = rs_UserID r"
  "rs_TokenHash (inherit s r) = rs_TokenHash s" "rs_ExpiresAt (inherit s r) = rs_ExpiresAt s"
  by (simp_all add: inherit_def)

lemma claim_simps [simp]:
  "rs_JTI (claim now j b r) = rs_JTI r" "rs_FamilyID (claim now j b r) = rs_FamilyID r"
  "rs_UserID (claim now j b r) = rs_UserID r" "rs_TokenHash (claim now j b r) = rs_TokenHash r"
  "rs_UsedAt (claim now j b r) = Some now" "rs_RevokedAt (claim now j b r) = rs_RevokedAt r"
  "rs_SuccessorJTI (claim now j b r) = j" "rs_RotationBinding (claim now j b r) = b"
  by (simp_all add: claim_def)

text \<open>A rotation leaves the table alone or claims one row and appends its successor.\<close>

definition rotated :: "string \<Rightarrow> string \<Rightarrow> time \<Rightarrow> RefreshSession \<Rightarrow> RefreshSession \<Rightarrow> token_table \<Rightarrow> token_table" where
  "rotated h b now s r tbl = sql_update (claimable (rs_JTI r) h now) (claim now (rs_JTI s) b) tbl @
     [new_row (inherit s (claim now (rs_JTI s) b r))]"

lemma Rotate_cases:
  assumes "keyed tbl" "RotateRefreshSessionBound jti h b now s tbl = (res, tbl')"
  obtains (kept) "tbl' = tbl" "spent_by jti res = []"
  | (rotates) r where "row_of tbl jti = Some r" "claimable jti h now r" "row_of tbl (rs_JTI s) = None"
      "res = Inr (claim now (rs_JTI s) b r, True)" "tbl' = rotated h b now s r tbl"
proof (cases "tbl' = tbl \<and> spent_by jti res = []")
  case True with kept show ?thesis by blast
next
  case False
  let ?tx = "sql_update (claimable jti h now) (claim now (rs_JTI s) b) tbl"
  from False assms(2) have ne: "[r \<leftarrow> tbl. claimable jti h now r] \<noteq> []"
    by (auto simp: RotateRefreshSessionBound_def spent_by_def split: if_splits option.splits)
  then obtain r where r: "r \<in> set tbl" "claimable jti h now r" by (auto simp: filter_empty_conv)
  with row_of_keyed [OF assms(1) r(1)] have row: "row_of tbl jti = Some r" by (simp add: claimable_def)
  then have tx: "row_of ?tx jti = Some (claim now (rs_JTI s) b r)" using r(2) by (simp add: row_of_update)
  from False assms(2) ne tx obtain tx' where ins: "insert_token (inherit s (claim now (rs_JTI s) b r)) ?tx = Some tx'"
    and res: "res = Inr (claim now (rs_JTI s) b r, True)" "tbl' = tx'"
    by (auto simp: RotateRefreshSessionBound_def spent_by_def Let_def split: if_splits option.splits)
  from r(2) have j: "rs_JTI r = jti" by (simp add: claimable_def)
  show ?thesis
    by (rule rotates [OF row r(2) _ res(1)])
      (use ins j in \<open>simp_all add: insert_token_Some row_of_update res(2) rotated_def new_row_def\<close>)
qed

lemma Consume_cases:
  assumes "ConsumeRefreshSession jti h now tbl = (res, tbl')"
  obtains (kept) "tbl' = tbl" "spent_by jti res = []"
  | (consumes) r where "row_of tbl jti = Some r" "rs_UsedAt r = None" "rs_RevokedAt r = None" "spent_by jti res = [jti]"
      "tbl' = sql_update (\<lambda>r. rs_JTI r = jti) (\<lambda>r. r\<lparr>rs_UsedAt := Some now\<rparr>) tbl"
proof (cases "row_of tbl jti")
  case None
  with assms show ?thesis by (intro kept) (auto simp: ConsumeRefreshSession_def spent_by_def split: if_splits)
next
  case (Some r)
  show ?thesis
  proof (cases "blank jti \<or> blank h \<or> rs_TokenHash r \<noteq> h \<or> rs_UsedAt r \<noteq> None \<or> rs_RevokedAt r \<noteq> None \<or> \<not> now < rs_ExpiresAt r")
    case True
    with assms Some show ?thesis by (intro kept) (auto simp: ConsumeRefreshSession_def spent_by_def split: if_splits)
  next
    case False
    with assms Some have "res = Inr (r\<lparr>rs_UsedAt := Some now\<rparr>, True)"
      "tbl' = sql_update (\<lambda>r. rs_JTI r = jti) (\<lambda>r. r\<lparr>rs_UsedAt := Some now\<rparr>) tbl"
      by (simp_all add: ConsumeRefreshSession_def)
    with False Some show ?thesis by (intro consumes [of r]) (auto simp: spent_by_def)
  qed
qed

text \<open>Every operation that is not a rotation, a consumption or a sign-in revokes the rows of some kind, or nothing.\<close>

definition revoked_where :: "(RefreshSession \<Rightarrow> bool) \<Rightarrow> time \<Rightarrow> token_table \<Rightarrow> token_table" where
  "revoked_where P now tbl = sql_update (\<lambda>r. P r \<and> rs_RevokedAt r = None) (\<lambda>r. r\<lparr>rs_RevokedAt := Some now\<rparr>) tbl"

lemma revoke_ops:
  "apply_op (FamilyOp f now) tbl = ([], revoked_where (\<lambda>r. \<not> blank f \<and> rs_FamilyID r = f) now tbl)"
  "apply_op (UserFamilyOp u f now) tbl = ([], revoked_where (\<lambda>r. \<not> blank u \<and> \<not> blank f \<and>
     rs_UserID r = trim_space u \<and> rs_FamilyID r = trim_space f) now tbl)"
  "apply_op (UserOp u now) tbl = ([], revoked_where (\<lambda>r. \<not> blank u \<and> rs_UserID r = u) now tbl)"
  by (simp_all add: RevokeRefreshSessionFamily_def RevokeRefreshSessionFamilyForUser_def RevokeRefreshSessionsForUser_def
      revoke_where_def revoked_where_def sql_update_def)

lemma op_cases [consumes 2, case_names keep put rotate consume revoke]:
  assumes op: "apply_op p tbl = (sp, tbl')" and k: "keyed tbl"
    and keep: "tbl' = tbl \<Longrightarrow> sp = [] \<Longrightarrow> thesis"
    and put: "\<And>s. p = PutOp s \<Longrightarrow> row_of tbl (rs_JTI s) = None \<Longrightarrow> tbl' = tbl @ [new_row s] \<Longrightarrow> sp = [] \<Longrightarrow> thesis"
    and rotate: "\<And>h b now s r. row_of tbl (rs_JTI r) = Some r \<Longrightarrow> claimable (rs_JTI r) h now r \<Longrightarrow>
      row_of tbl (rs_JTI s) = None \<Longrightarrow> tbl' = rotated h b now s r tbl \<Longrightarrow> sp = [rs_JTI r] \<Longrightarrow> thesis"
    and consume: "\<And>jti now r. row_of tbl jti = Some r \<Longrightarrow> rs_UsedAt r = None \<Longrightarrow> rs_RevokedAt r = None \<Longrightarrow>
      tbl' = sql_update (\<lambda>r. rs_JTI r = jti) (\<lambda>r. r\<lparr>rs_UsedAt := Some now\<rparr>) tbl \<Longrightarrow> sp = [jti] \<Longrightarrow> thesis"
    and revoke: "\<And>P now. tbl' = revoked_where P now tbl \<Longrightarrow> sp = [] \<Longrightarrow> thesis"
  shows thesis
proof (cases p)
  case (PutOp s)
  with op show thesis
    by (auto simp: PutRefreshSession_def insert_token_Some new_row_def [symmetric] split: if_splits option.splits
        intro: keep put)
next
  case (RotateOp jti h b now s)
  with op obtain res where res: "RotateRefreshSessionBound jti h b now s tbl = (res, tbl')" and sp: "sp = spent_by jti res"
    by (auto simp: apfst_def map_prod_def split: prod.splits)
  from k res show thesis
  proof (cases rule: Rotate_cases)
    case kept with sp keep show thesis by blast
  next
    case (rotates r)
    then have "rs_JTI r = jti" by (simp add: claimable_def)
    with rotates sp rotate [of r h now s b] show thesis by (simp add: spent_by_def)
  qed
next
  case (ConsumeOp jti h now)
  with op obtain res where res: "ConsumeRefreshSession jti h now tbl = (res, tbl')" and sp: "sp = spent_by jti res"
    by (auto simp: apfst_def map_prod_def split: prod.splits)
  from res show thesis
    by (cases rule: Consume_cases) (use sp keep consume in auto)
next
  case (FamilyOp f now) with op show thesis by (auto simp: revoke_ops simp del: apply_op.simps intro: revoke)
next
  case (UserFamilyOp u f now) with op show thesis by (auto simp: revoke_ops simp del: apply_op.simps intro: revoke)
next
  case (UserOp u now) with op show thesis by (auto simp: revoke_ops simp del: apply_op.simps intro: revoke)
qed

lemma run_ops_append:
  "run_ops (ps @ qs) tbl = (let (a, tbl') = run_ops ps tbl; (b, tbl'') = run_ops qs tbl' in (a @ b, tbl''))"
  by (induction ps arbitrary: tbl) (auto simp: Let_def split: prod.splits)

lemma set_rotated:
  "r0 \<in> set (rotated h b now s r tbl) \<longleftrightarrow> r0 = new_row (inherit s (claim now (rs_JTI s) b r)) \<or>
     (\<exists>r1 \<in> set tbl. r0 = (if claimable (rs_JTI r) h now r1 then claim now (rs_JTI s) b r1 else r1))"
  by (auto simp: rotated_def set_update)

lemma keyed_rotated: "keyed tbl \<Longrightarrow> row_of tbl (rs_JTI s) = None \<Longrightarrow> keyed (rotated h b now s r tbl)"
  by (auto simp: rotated_def keyed_update row_of_None_iff set_update image_iff)

lemma keyed_revoked: "keyed (revoked_where P now tbl) \<longleftrightarrow> keyed tbl"
  by (simp add: revoked_where_def keyed_update)

lemma row_of_revoked:
  "row_of (revoked_where P now tbl) j =
     map_option (\<lambda>r. if P r \<and> rs_RevokedAt r = None then r\<lparr>rs_RevokedAt := Some now\<rparr> else r) (row_of tbl j)"
  by (simp add: revoked_where_def row_of_update)

lemma keyed_op: "keyed tbl \<Longrightarrow> apply_op p tbl = (sp, tbl') \<Longrightarrow> keyed tbl'"
  by (erule op_cases) (auto simp: keyed_update keyed_rotated keyed_revoked row_of_None_iff)

subsection \<open>A token is spent at most once\<close>

definition spent_rows :: "string list \<Rightarrow> token_table \<Rightarrow> bool" where
  "spent_rows sp tbl \<longleftrightarrow> distinct sp \<and> (\<forall>j \<in> set sp. \<exists>r. row_of tbl j = Some r \<and> rs_UsedAt r \<noteq> None)"

lemma used_stays:
  assumes "apply_op p tbl = (sp, tbl')" "keyed tbl" "row_of tbl j = Some r" "rs_UsedAt r \<noteq> None"
  shows "\<exists>r'. row_of tbl' j = Some r' \<and> rs_UsedAt r' \<noteq> None"
  using assms(1,2)
  by (cases rule: op_cases) (use assms(3,4) in \<open>auto simp: row_of_append row_of_update row_of_revoked rotated_def\<close>)

lemma op_spends_unused:
  assumes "apply_op p tbl = (sp, tbl')" "keyed tbl"
  shows "distinct sp \<and> (\<forall>j \<in> set sp. (\<exists>r. row_of tbl j = Some r \<and> rs_UsedAt r = None) \<and>
    (\<exists>r. row_of tbl' j = Some r \<and> rs_UsedAt r \<noteq> None))"
  using assms
  by (cases rule: op_cases) (auto simp: row_of_append row_of_update row_of_revoked rotated_def claimable_def dest: row_of_SomeD)

lemma run_ops_spends:
  "keyed tbl \<Longrightarrow> spent_rows sp tbl \<Longrightarrow> run_ops ps tbl = (sp', tbl') \<Longrightarrow> spent_rows (sp @ sp') tbl' \<and> keyed tbl'"
proof (induction ps arbitrary: tbl sp sp' tbl')
  case (Cons p ps)
  obtain s1 tbl1 where op: "apply_op p tbl = (s1, tbl1)" by fastforce
  obtain s2 tbl2 where run: "run_ops ps tbl1 = (s2, tbl2)" by fastforce
  have "set sp \<inter> set s1 = {}"
    using Cons.prems(2) op_spends_unused [OF op Cons.prems(1)] unfolding spent_rows_def by fastforce
  then have "spent_rows (sp @ s1) tbl1"
    using Cons.prems(2) op_spends_unused [OF op Cons.prems(1)] used_stays [OF op Cons.prems(1)]
    by (auto simp: spent_rows_def)
  from Cons.IH [OF keyed_op [OF Cons.prems(1) op] this run] Cons.prems(3) op run show ?case by simp
qed simp

lemma keyed_run: "keyed tbl \<Longrightarrow> keyed (snd (run_ops ps tbl))"
  using run_ops_spends [of tbl "[]"] by (cases "run_ops ps tbl") (auto simp: spent_rows_def)

text \<open>C5: In any sequence of sign-ins, rotations, consumptions and revocations, in whatever order
  concurrent requests reach the table, no refresh token is accepted twice.\<close>
theorem refresh_token_spent_once: "distinct (fst (run_ops ops []))"
proof -
  obtain sp tbl where "run_ops ops [] = (sp, tbl)" by fastforce
  with run_ops_spends [of "[]" "[]"] show ?thesis by (auto simp: spent_rows_def)
qed

subsection \<open>One live token per family\<close>

definition live :: "RefreshSession \<Rightarrow> bool" where
  "live r \<longleftrightarrow> rs_UsedAt r = None \<and> rs_RevokedAt r = None"

definition live_of :: "string \<Rightarrow> token_table \<Rightarrow> RefreshSession list" where
  "live_of f tbl = [r \<leftarrow> tbl. rs_FamilyID r = f \<and> live r]"

text \<open>Sign-ins draw a family that no row of the table has.\<close>

fun families_fresh :: "session_op list \<Rightarrow> token_table \<Rightarrow> bool" where
  "families_fresh [] tbl = True"
| "families_fresh (p # ps) tbl =
     ((case p of PutOp s \<Rightarrow> [r \<leftarrow> tbl. rs_FamilyID r = rs_FamilyID s] = [] | _ \<Rightarrow> True) \<and>
      families_fresh ps (snd (apply_op p tbl)))"

lemma live_update_le:
  assumes "\<And>r. rs_FamilyID (g r) = rs_FamilyID r" "\<And>r. live (g r) \<Longrightarrow> live r"
  shows "length (live_of f (sql_update P g tbl)) \<le> length (live_of f tbl)"
  by (induction tbl) (auto simp: live_of_def sql_update_def assms dest: assms(2))

lemma live_update_strict:
  assumes "\<And>r. rs_FamilyID (g r) = rs_FamilyID r" "\<And>r. live (g r) \<Longrightarrow> live r"
    "r \<in> set tbl" "P r" "live r" "rs_FamilyID r = f" "\<not> live (g r)"
  shows "length (live_of f (sql_update P g tbl)) < length (live_of f tbl)"
  using assms(3)
proof (induction tbl)
  case (Cons r0 tbl)
  have "length (live_of f (sql_update P g tbl)) \<le> length (live_of f tbl)"
    by (rule live_update_le) (simp_all add: assms)
  with Cons assms(4-7) show ?case by (auto simp: live_of_def sql_update_def assms(1) dest: assms(2))
qed simp

lemma live_append: "live_of f (tbl @ tbl') = live_of f tbl @ live_of f tbl'"
  by (simp add: live_of_def)

lemma live_op:
  assumes op: "apply_op p tbl = (sp, tbl')" and k: "keyed tbl" and le: "length (live_of f tbl) \<le> 1"
    and fresh: "families_fresh (p # ps) tbl"
  shows "length (live_of f tbl') \<le> 1"
  using op k
proof (cases rule: op_cases)
  case keep with le show ?thesis by simp
next
  case (put s)
  with fresh have "[r \<leftarrow> tbl. rs_FamilyID r = rs_FamilyID s] = []" by simp
  then have "rs_FamilyID s = f \<Longrightarrow> live_of f tbl = []" by (auto simp: live_of_def filter_empty_conv)
  moreover have "live_of f [new_row s] = (if rs_FamilyID s = f then [new_row s] else [])"
    by (simp add: live_of_def live_def)
  ultimately show ?thesis using put(3) le by (simp add: live_append split: if_splits)
next
  case (rotate h b now s r)
  have live: "live r" "r \<in> set tbl"
    using rotate(2) row_of_SomeD [OF rotate(1)] by (simp_all add: claimable_def live_def)
  let ?u = "live_of f (sql_update (claimable (rs_JTI r) h now) (claim now (rs_JTI s) b) tbl)"
  have "length ?u \<le> length (live_of f tbl)"
    by (rule live_update_le) (simp_all add: live_def)
  moreover have "length ?u < length (live_of f tbl)" if "rs_FamilyID r = f"
    using that live rotate(2) by (intro live_update_strict [where r = r]) (simp_all add: live_def)
  moreover have "length (live_of f [new_row (inherit s (claim now (rs_JTI s) b r))]) = (if rs_FamilyID r = f then 1 else 0)"
    by (simp add: live_of_def live_def)
  ultimately have "length ?u + length (live_of f [new_row (inherit s (claim now (rs_JTI s) b r))]) \<le> 1"
    using le by (cases "rs_FamilyID r = f") (simp_all del: length_0_conv)
  then show ?thesis by (simp add: rotate(4) rotated_def live_append)
next
  case (consume jti now r)
  have "length (live_of f tbl') \<le> length (live_of f tbl)"
    unfolding consume(4) by (rule live_update_le) (simp_all add: live_def)
  with le show ?thesis by simp
next
  case (revoke P now)
  have "length (live_of f tbl') \<le> length (live_of f tbl)"
    unfolding revoke(1) revoked_where_def by (rule live_update_le) (simp_all add: live_def)
  with le show ?thesis by simp
qed

lemma live_run:
  "keyed tbl \<Longrightarrow> length (live_of f tbl) \<le> 1 \<Longrightarrow> families_fresh ps tbl \<Longrightarrow> length (live_of f (snd (run_ops ps tbl))) \<le> 1"
proof (induction ps arbitrary: tbl)
  case (Cons p ps)
  obtain sp tbl1 where op: "apply_op p tbl = (sp, tbl1)" by fastforce
  from Cons.IH [OF keyed_op [OF Cons.prems(1) op] live_op [OF op Cons.prems]] Cons.prems(3) op
  show ?case by (simp add: Let_def case_prod_unfold)
qed simp

text \<open>C7: As long as every sign-in draws a new family, a family never has two live tokens: at any
  moment at most one of its refresh tokens can be rotated.\<close>
theorem one_live_token_per_family:
  assumes "families_fresh ops []"
  shows "length (live_of f (snd (run_ops ops []))) \<le> 1"
  by (rule live_run [OF _ _ assms]) (simp_all add: live_of_def)

definition sample_token :: "string \<Rightarrow> string \<Rightarrow> RefreshSession" where
  "sample_token jti h = zero_session\<lparr>rs_JTI := jti, rs_FamilyID := ''fam'', rs_UserID := ''u'', rs_TokenHash := h,
     rs_ExpiresAt := 100 * second\<rparr>"

definition sample_ops :: "session_op list" where
  "sample_ops = [PutOp (sample_token ''a'' ''ha''), RotateOp ''a'' ''ha'' [] second (sample_token ''b'' ''hb''),
     RotateOp ''a'' ''ha'' [] second (sample_token ''c'' ''hc'')]"

lemmas sample_eval = trim_space_id is_graph_def Let_def PutRefreshSession_def insert_token_def row_of_def
  RotateRefreshSessionBound_def claimable_def claim_def inherit_def sql_update_def spent_by_def text_after_def
  second_def zero_session_def zero_time_def sample_token_def

lemma one_live_token_per_family_witness:
  "families_fresh sample_ops [] \<and> length (live_of ''fam'' (snd (run_ops sample_ops []))) \<le> 1 \<and>
   map rs_JTI (live_of ''fam'' (snd (run_ops sample_ops []))) = [''b'']"
proof -
  have "families_fresh sample_ops []" by (simp add: sample_eval sample_ops_def)
  moreover have "map rs_JTI (live_of ''fam'' (snd (run_ops sample_ops []))) = [''b'']"
    by (simp add: sample_eval sample_ops_def live_of_def live_def)
  ultimately show ?thesis using one_live_token_per_family by simp
qed

subsection \<open>Reuse ends the family\<close>

definition dead :: "string \<Rightarrow> token_table \<Rightarrow> bool" where
  "dead f tbl \<longleftrightarrow> (\<forall>r \<in> set tbl. rs_FamilyID r = f \<longrightarrow> rs_RevokedAt r \<noteq> None)"

definition signs_in :: "string \<Rightarrow> session_op \<Rightarrow> bool" where
  "signs_in f p = (case p of PutOp s \<Rightarrow> rs_FamilyID s = f | _ \<Rightarrow> False)"

lemma dead_op:
  assumes "apply_op p tbl = (sp, tbl')" "keyed tbl" "dead f tbl" "\<not> signs_in f p"
  shows "dead f tbl'"
  using assms(1,2)
proof (cases rule: op_cases)
  case (rotate h b now s r)
  from rotate(2) have "rs_RevokedAt r = None" by (simp add: claimable_def)
  with assms(3) row_of_SomeD [OF rotate(1)] have "rs_FamilyID r \<noteq> f" by (auto simp: dead_def)
  with assms(3) show ?thesis by (auto simp: dead_def rotate(4) set_rotated)
qed (use assms(3,4) in \<open>auto simp: dead_def signs_in_def set_update revoked_where_def\<close>)

lemma dead_run:
  "keyed tbl \<Longrightarrow> dead f tbl \<Longrightarrow> filter (signs_in f) ps = [] \<Longrightarrow> dead f (snd (run_ops ps tbl))"
proof (induction ps arbitrary: tbl)
  case (Cons p ps)
  obtain sp tbl1 where op: "apply_op p tbl = (sp, tbl1)" by fastforce
  from Cons.prems(3) have "\<not> signs_in f p" "filter (signs_in f) ps = []" by (simp_all split: if_splits)
  with Cons.IH [OF keyed_op [OF Cons.prems(1) op] dead_op [OF op Cons.prems(1,2)]] op
  show ?case by (simp add: Let_def case_prod_unfold)
qed simp

lemma family_stays:
  assumes "apply_op p tbl = (sp, tbl')" "keyed tbl" "row_of tbl j = Some r"
  shows "\<exists>r'. row_of tbl' j = Some r' \<and> rs_FamilyID r' = rs_FamilyID r"
  using assms(1,2)
  by (cases rule: op_cases) (use assms(3) in \<open>auto simp: row_of_append row_of_update row_of_revoked rotated_def\<close>)

lemma family_stays_run:
  "keyed tbl \<Longrightarrow> row_of tbl j = Some r \<Longrightarrow> \<exists>r'. row_of (snd (run_ops ps tbl)) j = Some r' \<and> rs_FamilyID r' = rs_FamilyID r"
proof (induction ps arbitrary: tbl r)
  case (Cons p ps)
  obtain sp tbl1 where op: "apply_op p tbl = (sp, tbl1)" by fastforce
  obtain r1 where "row_of tbl1 j = Some r1" "rs_FamilyID r1 = rs_FamilyID r" using family_stays [OF op Cons.prems] by blast
  with Cons.IH [OF keyed_op [OF Cons.prems(1) op]] op show ?case by (fastforce simp: Let_def case_prod_unfold)
qed simp

lemma dead_unspent_op:
  assumes "apply_op p tbl = (sp, tbl')" "keyed tbl" "dead f tbl" "j \<in> set sp"
  shows "\<exists>r. row_of tbl j = Some r \<and> rs_FamilyID r \<noteq> f"
  using assms(1,2)
proof (cases rule: op_cases)
  case (rotate h b now s r)
  then have "rs_RevokedAt r = None" by (simp add: claimable_def)
  with assms(3,4) rotate row_of_SomeD [OF rotate(1)] show ?thesis by (auto simp: dead_def)
next
  case (consume jti now r)
  with assms(3,4) row_of_SomeD [OF consume(1)] show ?thesis by (auto simp: dead_def)
qed (use assms(4) in auto)

lemma dead_unspent:
  "keyed tbl \<Longrightarrow> dead f tbl \<Longrightarrow> filter (signs_in f) ps = [] \<Longrightarrow> j \<in> set (fst (run_ops ps tbl)) \<Longrightarrow>
     \<exists>r. row_of (snd (run_ops ps tbl)) j = Some r \<and> rs_FamilyID r \<noteq> f"
proof (induction ps arbitrary: tbl)
  case (Cons p ps)
  obtain sp tbl1 where op: "apply_op p tbl = (sp, tbl1)" by fastforce
  from Cons.prems(3) have p: "\<not> signs_in f p" and ps: "filter (signs_in f) ps = []" by (simp_all split: if_splits)
  from keyed_op [OF Cons.prems(1) op] dead_op [OF op Cons.prems(1,2) p] have 1: "keyed tbl1" "dead f tbl1" .
  show ?case
  proof (cases "j \<in> set sp")
    case True
    with dead_unspent_op [OF op Cons.prems(1,2)] obtain r where "row_of tbl j = Some r" "rs_FamilyID r \<noteq> f" by blast
    with family_stays_run [OF Cons.prems(1), of j r "p # ps"] show ?thesis by auto
  next
    case False
    with Cons.prems(4) op have "j \<in> set (fst (run_ops ps tbl1))" by (simp add: Let_def case_prod_unfold)
    from Cons.IH [OF 1 ps this] op show ?thesis by (simp add: Let_def case_prod_unfold)
  qed
qed simp

lemma dead_revoked: "\<not> blank f \<Longrightarrow> dead f (snd (RevokeRefreshSessionFamily f now tbl))"
  unfolding dead_def
proof
  fix r' assume "\<not> blank f" "r' \<in> set (snd (RevokeRefreshSessionFamily f now tbl))"
  then obtain r where "r' = (if rs_FamilyID r = f \<and> rs_RevokedAt r = None then r\<lparr>rs_RevokedAt := Some now\<rparr> else r)"
    by (auto simp only: RevokeRefreshSessionFamily_def revoke_where_def set_update if_False snd_conv image_iff)
  then show "rs_FamilyID r' = f \<longrightarrow> rs_RevokedAt r' \<noteq> None" by simp
qed

text \<open>A row that cannot be claimed is handed back unchanged.\<close>

lemma unclaimable_filter:
  "keyed tbl \<Longrightarrow> row_of tbl jti = Some r \<Longrightarrow> \<not> claimable jti h now r \<Longrightarrow> [r \<leftarrow> tbl. claimable jti h now r] = []"
  using row_of_keyed [of tbl] by (auto simp: filter_empty_conv claimable_def)

lemma Rotate_unclaimable:
  assumes "keyed tbl" "row_of tbl jti = Some r" "\<not> claimable jti h now r"
  shows "RotateRefreshSessionBound jti h b now s tbl \<in>
    {(Inr (r, False), tbl), (Inl ErrSessionFields, tbl), (Inl ErrSuccessorIncomplete, tbl)}"
  using unclaimable_filter [OF assms] assms(2) by (simp add: RotateRefreshSessionBound_def)

lemma Refresh_revoked:
  assumes "keyed tbl" "verifySessionClaims C (trim_space (rq_token q)) ''refresh'' (rq_now q) = Some claims"
    "row_of tbl (cl_JTI claims) = Some r" "rs_RevokedAt r \<noteq> None"
  shows "\<exists>e. fst (RefreshToken C suspended q tbl) = Inl e"
proof (cases "trim_space (rq_token q) = [] \<or> blank (cl_JTI claims) \<or> blank (cl_Family claims) \<or>
    makeRefreshSuccessor C (cl_Sub claims) (cl_Family claims) (rq_successor q) (rq_now q) [] = None")
  case True
  with assms(2) show ?thesis by (auto simp: RefreshToken_def Let_def split: option.splits)
next
  case False
  then obtain s where s: "makeRefreshSuccessor C (cl_Sub claims) (cl_Family claims) (rq_successor q) (rq_now q) [] = Some s"
    by auto
  have "\<not> in_grace h b now r" for h b now using assms(4) by (simp add: in_grace_def)
  moreover have "\<not> claimable (cl_JTI claims) h now r" for h now using assms(4) by (simp add: claimable_def)
  ultimately show ?thesis
    using False s assms(2) Rotate_unclaimable [where h = "sc_hash C (trim_space (rq_token q))" and now = "rq_now q" and b = "rq_binding q"
        and s = s, OF assms(1,3)]
    by (auto simp: RefreshToken_def Let_def)
qed

text \<open>The request gets past the checks of its form: the table decides.\<close>

definition admitted :: "session_crypto \<Rightarrow> refresh_request \<Rightarrow> sessionClaims \<Rightarrow> bool" where
  "admitted C q claims \<longleftrightarrow> trim_space (rq_token q) \<noteq> [] \<and>
     verifySessionClaims C (trim_space (rq_token q)) ''refresh'' (rq_now q) = Some claims \<and>
     \<not> blank (cl_JTI claims) \<and> \<not> blank (cl_Family claims) \<and> \<not> blank (sc_hash C (trim_space (rq_token q))) \<and>
     \<not> blank (rq_successor q) \<and> sc_configured C \<and> rq_now q + sessionRefreshTTL \<noteq> zero_time \<and>
     \<not> blank (sc_hash C (sc_sign C \<lparr>cl_Sub = cl_Sub claims, cl_Type = ''refresh'',
        cl_Exp = unix_seconds (rq_now q + sessionRefreshTTL), cl_JTI = rq_successor q, cl_Family = cl_Family claims\<rparr>))"

definition successor_of :: "session_crypto \<Rightarrow> refresh_request \<Rightarrow> sessionClaims \<Rightarrow> RefreshSession" where
  "successor_of C q claims = zero_session\<lparr>rs_JTI := rq_successor q, rs_FamilyID := cl_Family claims, rs_UserID := cl_Sub claims,
     rs_TokenHash := sc_hash C (sc_sign C \<lparr>cl_Sub = cl_Sub claims, cl_Type = ''refresh'',
        cl_Exp = unix_seconds (rq_now q + sessionRefreshTTL), cl_JTI = rq_successor q, cl_Family = cl_Family claims\<rparr>),
     rs_ExpiresAt := rq_now q + sessionRefreshTTL\<rparr>"

lemma admitted_sub: "admitted C q claims \<Longrightarrow> \<not> blank (cl_Sub claims)"
  by (auto simp: admitted_def verifySessionClaims_def split: option.splits if_splits)

lemma admitted_successor:
  assumes "admitted C q claims"
  shows "makeRefreshSuccessor C (cl_Sub claims) (cl_Family claims) (rq_successor q) (rq_now q) [] = Some (successor_of C q claims)"
proof -
  from assms have "sc_configured C" by (simp add: admitted_def)
  with admitted_sub [OF assms] show ?thesis
    by (simp add: makeRefreshSuccessor_def issueSessionTokenWithClaims_def successor_of_def zero_session_def)
qed

lemma admitted_fields:
  assumes "admitted C q claims"
  shows "\<not> blank (cl_JTI claims)" "\<not> blank (sc_hash C (trim_space (rq_token q)))"
    "\<not> blank (rs_JTI (successor_of C q claims))" "\<not> blank (rs_TokenHash (successor_of C q claims))"
    "rs_ExpiresAt (successor_of C q claims) \<noteq> zero_time"
  using assms by (simp_all add: admitted_def successor_of_def)

lemma Refresh_unclaimable:
  assumes "keyed tbl" "admitted C q claims" "row_of tbl (cl_JTI claims) = Some r" "rs_UsedAt r \<noteq> None"
    "\<not> in_grace (sc_hash C (trim_space (rq_token q))) (rq_binding q) (rq_now q) r"
  shows "RefreshToken C suspended q tbl =
    (Inl Unauthenticated, snd (RevokeRefreshSessionFamily (rs_FamilyID r) (rq_now q) tbl))"
proof -
  have no: "\<not> claimable (cl_JTI claims) h now r" for h now using assms(4) by (simp add: claimable_def)
  have "RotateRefreshSessionBound (cl_JTI claims) (sc_hash C (trim_space (rq_token q))) (rq_binding q) (rq_now q)
      (successor_of C q claims) tbl = (Inr (r, False), tbl)"
    using unclaimable_filter [OF assms(1,3) no] assms(3) admitted_fields [OF assms(2)]
    by (simp add: RotateRefreshSessionBound_def)
  with assms(2,5) admitted_successor [OF assms(2)] show ?thesis
    by (simp add: RefreshToken_def Let_def admitted_def)
qed

definition of_family :: "string \<Rightarrow> token_table \<Rightarrow> string \<Rightarrow> bool" where
  "of_family f tbl jti = (case row_of tbl jti of None \<Rightarrow> False | Some r \<Rightarrow> rs_FamilyID r = f)"

text \<open>C6: Presenting a spent refresh token outside the grace of its own device is refused and ends
  the family: whatever happens afterwards, short of a sign-in into the same family, every row of the
  family stays revoked, none of its tokens is spent again, and a request with any of them is refused.\<close>
theorem reuse_ends_family:
  assumes "keyed tbl" "admitted C q claims" "row_of tbl (cl_JTI claims) = Some r" "rs_UsedAt r \<noteq> None"
    "\<not> in_grace (sc_hash C (trim_space (rq_token q))) (rq_binding q) (rq_now q) r"
    "\<not> blank (rs_FamilyID r)" "filter (signs_in (rs_FamilyID r)) later = []"
    "RefreshToken C suspended q tbl = (answer, tbl')" "run_ops later tbl' = (spent, tbl'')"
    "verifySessionClaims C (trim_space (rq_token q')) ''refresh'' (rq_now q') = Some claims'"
    "of_family (rs_FamilyID r) tbl'' (cl_JTI claims')"
  shows "answer = Inl Unauthenticated \<and> [r' \<leftarrow> tbl''. rs_FamilyID r' = rs_FamilyID r \<and> rs_RevokedAt r' = None] = [] \<and>
    filter (of_family (rs_FamilyID r) tbl'') spent = [] \<and> (\<exists>e. fst (RefreshToken C suspended' q' tbl'') = Inl e)"
proof -
  from Refresh_unclaimable [OF assms(1-5)] assms(8)
  have 1: "answer = Inl Unauthenticated" "tbl' = snd (RevokeRefreshSessionFamily (rs_FamilyID r) (rq_now q) tbl)" by auto
  have k1: "keyed tbl'"
    using assms(1) by (simp add: 1(2) RevokeRefreshSessionFamily_def revoke_where_def keyed_update)
  have d1: "dead (rs_FamilyID r) tbl'" using dead_revoked [OF assms(6)] by (simp add: 1(2))
  have d2: "dead (rs_FamilyID r) tbl''" using dead_run [OF k1 d1 assms(7)] assms(9) by simp
  have k2: "keyed tbl''" using keyed_run [OF k1, of later] assms(9) by simp
  from assms(11) obtain r' where r': "row_of tbl'' (cl_JTI claims') = Some r'" "rs_FamilyID r' = rs_FamilyID r"
    by (auto simp: of_family_def split: option.splits)
  with d2 row_of_SomeD [OF r'(1)] have "rs_RevokedAt r' \<noteq> None" by (auto simp: dead_def)
  from Refresh_revoked [OF k2 assms(10) r'(1) this] have "\<exists>e. fst (RefreshToken C suspended' q' tbl'') = Inl e" .
  moreover have "filter (of_family (rs_FamilyID r) tbl'') spent = []"
    using dead_unspent [OF k1 d1 assms(7)] assms(9) by (fastforce simp: filter_empty_conv of_family_def)
  ultimately show ?thesis using 1(1) d2 by (auto simp: dead_def filter_empty_conv)
qed

definition sample_crypto :: session_crypto where
  "sample_crypto = \<lparr>sc_decode = (\<lambda>t. Some \<lparr>cl_Sub = ''u'', cl_Type = ''refresh'', cl_Exp = 90, cl_JTI = t, cl_Family = ''fam''\<rparr>),
     sc_sign = cl_JTI, sc_hash = (\<lambda>t. CHR ''h'' # t), sc_configured = True\<rparr>"

definition sample_request :: "string \<Rightarrow> string \<Rightarrow> int \<Rightarrow> string \<Rightarrow> refresh_request" where
  "sample_request token device sec fresh = \<lparr>rq_token = token, rq_binding = device, rq_now = sec * second, rq_successor = fresh, rq_access = ''x''\<rparr>"

definition sample_claims :: "string \<Rightarrow> sessionClaims" where
  "sample_claims t = \<lparr>cl_Sub = ''u'', cl_Type = ''refresh'', cl_Exp = 90, cl_JTI = t, cl_Family = ''fam''\<rparr>"

definition sample_table :: token_table where
  "sample_table = snd (RefreshToken sample_crypto (\<lambda>_. False) (sample_request ''a'' ''laptop'' 1 ''b'') [sample_token ''a'' ''ha''])"

definition sample_theft :: "(rpc_error + TokenPair) \<times> token_table" where
  "sample_theft = RefreshToken sample_crypto (\<lambda>_. False) (sample_request ''a'' ''thief'' 2 ''c'') sample_table"

definition sample_later :: "session_op list" where
  "sample_later = [RotateOp ''b'' ''hb'' [] (3 * second) (sample_token ''d'' ''hd'')]"

lemmas sample_refresh = sample_eval RefreshToken_def sample_crypto_def sample_request_def sample_claims_def
  verifySessionClaims_def makeRefreshSuccessor_def issueSessionTokenWithClaims_def unix_seconds_def sessionRefreshTTL_def
  sessionAccessTTL_def tokenPairFromSuccessor_def pair_of_def refresh_claims_def access_claims_def in_grace_def
  RevokeRefreshSessionFamily_def revoke_where_def refreshReuseGrace_def

definition spent_row :: RefreshSession where
  "spent_row = claim second ''b'' ''laptop'' (sample_token ''a'' ''ha'')"

definition next_row :: RefreshSession where
  "next_row = (sample_token ''b'' ''hb'')\<lparr>rs_ExpiresAt := second + sessionRefreshTTL\<rparr>"

lemma sample_rotation:
  "RefreshToken sample_crypto (\<lambda>_. False) (sample_request ''a'' ''laptop'' 1 ''b'') [sample_token ''a'' ''ha''] =
     (Inr \<lparr>tp_AccessToken = [], tp_RefreshToken = ''b'', tp_ExpiresInSeconds = 900, tp_DeviceID = ''fam''\<rparr>, [spent_row, next_row])"
  by (simp add: sample_refresh spent_row_def next_row_def)

lemma sample_table_eq: "sample_table = [spent_row, next_row]"
  by (simp add: sample_table_def sample_rotation)

lemma sample_admitted:
  "admitted sample_crypto (sample_request ''a'' ''thief'' 2 ''c'') (sample_claims ''a'')"
  "admitted sample_crypto (sample_request ''a'' ''laptop'' 1 ''b'') (sample_claims ''a'')"
  "admitted sample_crypto (sample_request ''a'' ''laptop'' 9 ''z'') (sample_claims ''a'')"
  by (simp_all add: admitted_def sample_refresh)

lemma sample_theft_eq:
  "sample_theft = (Inl Unauthenticated, [spent_row\<lparr>rs_RevokedAt := Some (2 * second)\<rparr>, next_row\<lparr>rs_RevokedAt := Some (2 * second)\<rparr>])"
  by (simp add: sample_theft_def sample_table_eq sample_refresh spent_row_def next_row_def)

lemma sample_later_eq: "run_ops sample_later (snd sample_theft) = ([], snd sample_theft)"
  by (simp add: sample_theft_eq sample_later_def sample_eval spent_row_def next_row_def)

lemma reuse_ends_family_witness:
  "fst sample_theft = Inl Unauthenticated \<and>
   (\<exists>e. fst (RefreshToken sample_crypto (\<lambda>_. False) (sample_request ''b'' ''laptop'' 4 ''e'')
      (snd (run_ops sample_later (snd sample_theft)))) = Inl e)"
proof -
  have keyed: "keyed sample_table" by (simp add: sample_table_eq spent_row_def next_row_def sample_token_def)
  have row: "row_of sample_table (cl_JTI (sample_claims ''a'')) = Some spent_row" "rs_FamilyID spent_row = ''fam''"
    "rs_UsedAt spent_row \<noteq> None"
    by (simp_all add: sample_table_eq spent_row_def sample_token_def row_of_def sample_claims_def)
  have grace: "\<not> in_grace (sc_hash sample_crypto (trim_space (rq_token (sample_request ''a'' ''thief'' 2 ''c''))))
      (rq_binding (sample_request ''a'' ''thief'' 2 ''c'')) (rq_now (sample_request ''a'' ''thief'' 2 ''c'')) spent_row"
    by (simp add: sample_refresh spent_row_def)
  have later: "filter (signs_in ''fam'') sample_later = []" by (simp add: sample_later_def signs_in_def)
  have claims: "verifySessionClaims sample_crypto (trim_space (rq_token (sample_request ''b'' ''laptop'' 4 ''e''))) ''refresh''
      (rq_now (sample_request ''b'' ''laptop'' 4 ''e'')) = Some (sample_claims ''b'')" by (simp add: sample_refresh)
  have fam: "of_family ''fam'' (snd sample_theft) (cl_JTI (sample_claims ''b''))"
    by (simp add: sample_theft_eq of_family_def row_of_def spent_row_def next_row_def sample_token_def sample_claims_def)
  have eq: "RefreshToken sample_crypto (\<lambda>_. False) (sample_request ''a'' ''thief'' 2 ''c'') sample_table = (fst sample_theft, snd sample_theft)"
    by (simp add: sample_theft_def)
  have blank: "\<not> blank ''fam''" by (simp add: trim_space_id is_graph_def)
  show ?thesis
    using reuse_ends_family [where tbl = sample_table and q = "sample_request ''a'' ''thief'' 2 ''c''" and
        C = sample_crypto and claims = "sample_claims ''a''" and r = spent_row and later = sample_later and suspended = "\<lambda>_. False" and
        answer = "fst sample_theft" and tbl' = "snd sample_theft" and spent = "[]" and
        tbl'' = "snd sample_theft" and q' = "sample_request ''b'' ''laptop'' 4 ''e''" and
        claims' = "sample_claims ''b''" and suspended' = "\<lambda>_. False"]
      keyed sample_admitted(1) row grace blank later claims fam
    by (simp add: sample_later_eq eq)
qed

subsection \<open>The grace of a lost answer\<close>

lemma claimed_row:
  assumes "keyed tbl" "row_of tbl j = Some r" "claimable j h now r" "row_of tbl (rs_JTI s) = None"
  shows "row_of (rotated h b now s r tbl) j = Some (claim now (rs_JTI s) b r)"
    "row_of (rotated h b now s r tbl) (rs_JTI s) = Some (new_row (inherit s (claim now (rs_JTI s) b r)))"
proof -
  from assms(3) have "rs_JTI r = j" by (simp add: claimable_def)
  with assms show "row_of (rotated h b now s r tbl) j = Some (claim now (rs_JTI s) b r)"
    "row_of (rotated h b now s r tbl) (rs_JTI s) = Some (new_row (inherit s (claim now (rs_JTI s) b r)))"
    by (simp_all add: rotated_def row_of_append row_of_update row_of_Cons)
qed

lemma Refresh_rotates:
  assumes "keyed tbl" "admitted C q claims" "row_of tbl (cl_JTI claims) = Some r"
    "claimable (cl_JTI claims) (sc_hash C (trim_space (rq_token q))) (rq_now q) r" "RefreshToken C suspended q tbl = (Inr p, tbl')"
  shows "tbl' = rotated (sc_hash C (trim_space (rq_token q))) (rq_binding q) (rq_now q) (successor_of C q claims) r tbl"
    "row_of tbl (rq_successor q) = None" "\<not> suspended (rs_UserID r)"
    "tokenPairFromSuccessor C (successor_of C q claims) (rq_now q div second * second) = Some p"
proof -
  let ?s = "successor_of C q claims" and ?h = "sc_hash C (trim_space (rq_token q))"
  obtain res tbl1 where rot: "RotateRefreshSessionBound (cl_JTI claims) ?h (rq_binding q) (rq_now q) ?s tbl = (res, tbl1)"
    by fastforce
  have claim: "res = Inr (claim (rq_now q) (rs_JTI ?s) (rq_binding q) r, True) \<and> row_of tbl (rs_JTI ?s) = None \<and>
      tbl1 = rotated ?h (rq_binding q) (rq_now q) ?s r tbl"
    using assms(1) rot
  proof (cases rule: Rotate_cases)
    case kept
    have "r \<in> set tbl" using row_of_SomeD [OF assms(3)] by simp
    then have "[r \<leftarrow> tbl. claimable (cl_JTI claims) ?h (rq_now q) r] \<noteq> []" using assms(4) by (auto simp: filter_empty_conv)
    with kept rot admitted_fields [OF assms(2)] have "\<exists>e. res = Inl e"
      by (auto simp: RotateRefreshSessionBound_def Let_def spent_by_def split: if_splits option.splits)
    with assms(2,5) rot admitted_successor [OF assms(2)] have False
      by (auto simp: RefreshToken_def Let_def admitted_def)
    then show ?thesis ..
  next
    case (rotates r') with assms(3) show ?thesis by simp
  qed
  with assms(2,5) rot admitted_successor [OF assms(2)]
  have "\<not> suspended (rs_UserID r) \<and> tokenPairFromSuccessor C ?s (rq_now q div second * second) = Some p \<and> tbl' = tbl1"
    by (auto simp: RefreshToken_def Let_def admitted_def split: if_splits option.splits)
  with claim show "tbl' = rotated ?h (rq_binding q) (rq_now q) ?s r tbl"
    "row_of tbl (rq_successor q) = None" "\<not> suspended (rs_UserID r)"
    "tokenPairFromSuccessor C ?s (rq_now q div second * second) = Some p"
    by (simp_all add: successor_of_def)
qed

text \<open>C25: When the answer to a rotation is lost, the same device may present the spent token again
  within ten seconds: it receives the same refresh token as in the lost answer, and the table does
  not change.\<close>
theorem grace_returns_lost_token:
  assumes "keyed tbl" "admitted C q claims" "row_of tbl (cl_JTI claims) = Some r"
    "claimable (cl_JTI claims) (sc_hash C (trim_space (rq_token q))) (rq_now q) r"
    "rs_UserID r = cl_Sub claims" "rs_FamilyID r = cl_Family claims"
    "RefreshToken C suspended q tbl = (Inr p, tbl')"
    "admitted C q' claims" "trim_space (rq_token q') = trim_space (rq_token q)"
    "rq_binding q' = rq_binding q" "rq_binding q \<noteq> []"
    "rq_now q \<le> rq_now q'" "rq_now q' \<le> rq_now q + refreshReuseGrace"
  shows "\<exists>p'. RefreshToken C suspended q' tbl' = (Inr p', tbl') \<and>
    tp_RefreshToken p' = tp_RefreshToken p \<and> tp_DeviceID p' = tp_DeviceID p"
proof -
  let ?s = "successor_of C q claims" and ?h = "sc_hash C (trim_space (rq_token q))"
  let ?r = "claim (rq_now q) (rs_JTI ?s) (rq_binding q) r"
  note rot = Refresh_rotates [OF assms(1-4,7)]
  have none: "row_of tbl (rs_JTI ?s) = None" using rot(2) by (simp add: successor_of_def)
  have rows: "row_of tbl' (cl_JTI claims) = Some ?r" "row_of tbl' (rs_JTI ?s) = Some (new_row (inherit ?s ?r))"
    using claimed_row [OF assms(1,3,4) none] by (simp_all add: rot(1))
  have k': "keyed tbl'" using keyed_rotated [OF assms(1) none] by (simp add: rot(1))
  have no: "\<not> claimable (cl_JTI claims) h now ?r" for h now by (simp add: claimable_def)
  have kept: "RotateRefreshSessionBound (cl_JTI claims) ?h (rq_binding q') (rq_now q') (successor_of C q' claims) tbl' =
      (Inr (?r, False), tbl')"
    using unclaimable_filter [OF k' rows(1) no] rows(1) admitted_fields [OF assms(8)] assms(9)
    by (simp add: RotateRefreshSessionBound_def)
  have "rs_JTI ?s \<noteq> []" using admitted_fields(3) [OF assms(2)] trim_space_id [of "[]"] by auto
  with assms(4,10-13) have grace: "in_grace ?h (rq_binding q) (rq_now q') ?r"
    by (simp add: in_grace_def claimable_def)
  have claims: "refresh_claims (new_row (inherit ?s ?r)) = refresh_claims ?s"
    using assms(5,6) by (simp add: refresh_claims_def successor_of_def)
  have conf: "sc_configured C" using assms(2) by (simp add: admitted_def)
  from rot(4) have p: "tp_RefreshToken p = sc_sign C (refresh_claims ?s)" "tp_DeviceID p = rs_FamilyID ?s"
    by (auto simp: tokenPairFromSuccessor_def pair_of_def issueSessionTokenWithClaims_def split: option.splits if_splits)
  obtain p' where p': "pair_of C (access_claims (rs_UserID (new_row (inherit ?s ?r))) (rq_access q') (rq_now q'))
      (new_row (inherit ?s ?r)) = Some p'" "tp_RefreshToken p' = sc_sign C (refresh_claims ?s)" "tp_DeviceID p' = rs_FamilyID ?s"
    using admitted_sub [OF assms(2)] conf assms(5,6) claims
    by (auto simp: pair_of_def issueSessionTokenWithClaims_def access_claims_def refresh_claims_def successor_of_def)
  have "rs_TokenHash ?s = sc_hash C (sc_sign C (refresh_claims ?s))"
    by (simp add: successor_of_def refresh_claims_def)
  with rows(2) p' have "refreshSuccessorPair C tbl' (rq_access q') ?r (rq_now q') = Some (Some p')"
    by (simp add: refreshSuccessorPair_def GetRefreshSession_def)
  with kept grace rot(3) assms(8,9,10) admitted_successor [OF assms(8)]
  have "RefreshToken C suspended q' tbl' = (Inr p', tbl')"
    by (simp add: RefreshToken_def Let_def admitted_def)
  with p p'(2,3) show ?thesis by simp
qed

lemma grace_returns_lost_token_witness:
  "\<exists>p'. RefreshToken sample_crypto (\<lambda>_. False) (sample_request ''a'' ''laptop'' 9 ''z'') sample_table = (Inr p', sample_table) \<and>
    tp_RefreshToken p' = ''b'' \<and> tp_DeviceID p' = ''fam''"
proof -
  have "keyed [sample_token ''a'' ''ha'']" by simp
  moreover have "row_of [sample_token ''a'' ''ha''] (cl_JTI (sample_claims ''a'')) = Some (sample_token ''a'' ''ha'')"
    by (simp add: sample_token_def row_of_def sample_claims_def)
  moreover have "claimable (cl_JTI (sample_claims ''a'')) (sc_hash sample_crypto (trim_space (rq_token (sample_request ''a'' ''laptop'' 1 ''b''))))
      (rq_now (sample_request ''a'' ''laptop'' 1 ''b'')) (sample_token ''a'' ''ha'')"
    by (simp add: sample_refresh)
  ultimately show ?thesis
    using grace_returns_lost_token [OF _ sample_admitted(2) _ _ _ _ sample_rotation sample_admitted(3)]
    by (simp add: sample_table_eq sample_request_def sample_claims_def sample_token_def refreshReuseGrace_def second_def)
qed

subsection \<open>The text order of times\<close>

text \<open>The order of the stored texts agrees with that of the times as soon as they are a second apart.\<close>

lemma text_after_seconds: "b + second \<le> a \<Longrightarrow> text_after a b"
  using zdiv_mono1 [of "b + second" a second] by (simp add: text_after_def second_def)

lemma text_after_close: "text_after a b \<Longrightarrow> b < a + second"
proof -
  assume "text_after a b"
  then have "b div second \<le> a div second" by (auto simp: text_after_def second_def)
  moreover have "a = 1000000000 * (a div second) + a mod second" "b = 1000000000 * (b div second) + b mod second"
    by (simp_all add: second_def)
  moreover have "0 \<le> a mod second" "b mod second < second" by (simp_all add: second_def)
  moreover have "second = 1000000000" by (simp add: second_def)
  ultimately show ?thesis by linarith
qed

text \<open>Within a second it may be the reverse: a token is still claimed half a second after it expired.\<close>

lemma claimed_after_expiry:
  "claimable ''a'' ''ha'' (100 * second + 500000000) (sample_token ''a'' ''ha'') \<and>
   rs_ExpiresAt (sample_token ''a'' ''ha'') < 100 * second + 500000000"
  by code_simp

end
