(* ===== verification/Walks.thy ===== *)
theory Walks
  imports Go_Prelude
begin

text \<open>
  Depth-first walks over parent and child links, shared by the category tree and the task tree: the
  loop over the children of a node that skips a node already seen, marks it and descends. It ends on
  any links, cycles included, and visits exactly what is reachable, once. Also the stable sort of
  \<open>sort.SliceStable\<close>.
\<close>

subsection \<open>Stable sort\<close>

text \<open>For a strict weak order there is one stable sorted rearrangement: that of stable insertion.\<close>

fun insert_stable :: "('a \<Rightarrow> 'a \<Rightarrow> bool) \<Rightarrow> 'a \<Rightarrow> 'a list \<Rightarrow> 'a list" where
  "insert_stable lt x [] = [x]"
| "insert_stable lt x (y # ys) = (if lt y x then y # insert_stable lt x ys else x # y # ys)"

definition SliceStable :: "('a \<Rightarrow> 'a \<Rightarrow> bool) \<Rightarrow> 'a list \<Rightarrow> 'a list" where
  "SliceStable lt xs = foldr (insert_stable lt) xs []"

lemma mset_insert_stable [simp]: "mset (insert_stable lt x ys) = add_mset x (mset ys)"
  by (induction ys) auto

lemma mset_SliceStable [simp]: "mset (SliceStable lt xs) = mset xs"
  by (induction xs) (simp_all add: SliceStable_def)

lemma SliceStable_Nil [simp]: "SliceStable lt [] = []"
  by (simp add: SliceStable_def)

lemma set_SliceStable [simp]: "set (SliceStable lt xs) = set xs"
  using mset_SliceStable [of lt xs] by (metis set_mset_mset)

lemma sorted_insert_stable:
  assumes "\<And>x y z. \<not> lt y x \<Longrightarrow> \<not> lt z y \<Longrightarrow> \<not> lt z x" "\<And>x y. lt x y \<Longrightarrow> \<not> lt y x"
    "sorted_wrt (\<lambda>x y. \<not> lt y x) ys"
  shows "sorted_wrt (\<lambda>x y. \<not> lt y x) (insert_stable lt x ys)"
  using assms(3)
proof (induction ys)
  case (Cons y ys)
  have "set (insert_stable lt x ys) = insert x (set ys)"
    by (metis mset_insert_stable set_mset_add_mset_insert set_mset_mset)
  moreover have "sorted_wrt (\<lambda>x y. \<not> lt y x) (insert_stable lt x ys)" "sorted_wrt (\<lambda>x y. \<not> lt y x) ys"
    "\<forall>z \<in> set ys. \<not> lt z y"
    using Cons by simp_all
  ultimately show ?case using assms(1) [of y x] assms(2) [of y x] by (cases "lt y x") simp_all
qed simp

lemma sorted_SliceStable:
  assumes "\<And>x y z. \<not> lt y x \<Longrightarrow> \<not> lt z y \<Longrightarrow> \<not> lt z x" "\<And>x y. lt x y \<Longrightarrow> \<not> lt y x"
  shows "sorted_wrt (\<lambda>x y. \<not> lt y x) (SliceStable lt xs)"
  using sorted_insert_stable [of lt, OF assms] by (induction xs) (simp_all add: SliceStable_def)

subsection \<open>Grouping by a key\<close>

text \<open>\<open>m[k] = append(m[k], v)\<close> over a list.\<close>

definition group_by :: "('x \<Rightarrow> ('k \<times> 'v) option) \<Rightarrow> 'x list \<Rightarrow> ('k, 'v list) go_map" where
  "group_by f xs = foldl (\<lambda>m x. case f x of None \<Rightarrow> m | Some (k, v) \<Rightarrow> map_put k (map_get [] m k @ [v]) m) [] xs"

definition chosen :: "('x \<Rightarrow> ('k \<times> 'v) option) \<Rightarrow> 'k \<Rightarrow> 'x list \<Rightarrow> 'v list" where
  "chosen f k xs = List.map_filter (\<lambda>x. case f x of None \<Rightarrow> None | Some (k', v) \<Rightarrow> if k' = k then Some v else None) xs"

lemma group_by_snoc:
  "group_by f (xs @ [x]) = (case f x of None \<Rightarrow> group_by f xs
     | Some (k, v) \<Rightarrow> map_put k (map_get [] (group_by f xs) k @ [v]) (group_by f xs))"
  unfolding group_by_def by (simp split: option.split)

lemma map_get_group_by: "map_get [] (group_by f xs) k = chosen f k xs"
proof (induction xs rule: rev_induct)
  case Nil show ?case by (simp add: group_by_def chosen_def List.map_filter_simps)
next
  case (snoc x xs)
  then show ?case
    by (auto simp: group_by_snoc chosen_def List.map_filter_def split: option.split)
qed

lemma set_chosen: "v \<in> set (chosen f k xs) \<longleftrightarrow> (\<exists>x \<in> set xs. f x = Some (k, v))"
  by (force simp: chosen_def List.map_filter_def split: option.splits if_splits)

subsection \<open>The walk\<close>

abbreviation kids :: "('k, 'v list) go_map \<Rightarrow> 'k \<Rightarrow> 'v list" where
  "kids m k \<equiv> map_get [] m k"

lemma kids_key: "k \<notin> fst ` set m \<Longrightarrow> kids m k = []"
  by (rule map_get_absent)

function walk :: "('k, 'k list) go_map \<Rightarrow> 'k list \<Rightarrow> 'k list \<Rightarrow> 'k list" where
  "walk m [] out = out"
| "walk m (k # ks) out = (if k \<in> set out then walk m ks out else walk m ks (walk m (kids m k) (out @ [k])))"
  by pat_completeness auto

definition unseen :: "('k, 'v) go_map \<Rightarrow> 'k list \<Rightarrow> nat" where
  "unseen m out = card (fst ` set m - set out)"

lemma unseen_mono: "set out \<subseteq> set out' \<Longrightarrow> unseen m out' \<le> unseen m out"
  unfolding unseen_def by (intro card_mono) auto

lemma unseen_mark: "k \<in> fst ` set m \<Longrightarrow> k \<notin> set out \<Longrightarrow> unseen m (out @ [k]) < unseen m out"
  unfolding unseen_def by (intro psubset_card_mono) auto

lemma walk_grows_dom: "walk_dom (m, ks, out) \<Longrightarrow> set out \<subseteq> set (walk m ks out)"
  by (induction m ks out rule: walk.pinduct) (auto simp: walk.psimps)

lemma walk_measure:
  "k \<notin> set out \<Longrightarrow> ((m, kids m k, out @ [k]), (m, k # ks, out)) \<in> measures [\<lambda>(m, ks, out). unseen m out, \<lambda>(m, ks, out). length ks]"
proof -
  assume k: "k \<notin> set out"
  have "unseen m (out @ [k]) \<le> unseen m out" by (rule unseen_mono) auto
  then show ?thesis
    using k unseen_mark [of k m out] kids_key [of k m] by (cases "k \<in> fst ` set m") auto
qed

termination walk
proof (relation "measures [\<lambda>(m, ks, out). unseen m out, \<lambda>(m, ks, out). length ks]", goal_cases)
  case (4 m k ks out)
  then have "set (out @ [k]) \<subseteq> set (walk m (kids m k) (out @ [k]))" by (intro walk_grows_dom)
  then have "unseen m (walk m (kids m k) (out @ [k])) \<le> unseen m out" by (intro unseen_mono) auto
  then show ?case by auto
next
  case (3 m k ks out) then show ?case by (rule walk_measure)
qed auto

lemma walk_grows: "set out \<subseteq> set (walk m ks out)"
  by (induction m ks out rule: walk.induct) auto

lemma walk_distinct: "distinct out \<Longrightarrow> distinct (walk m ks out)"
  by (induction m ks out rule: walk.induct) auto

lemma walk_append: "walk m (ks @ ks') out = walk m ks' (walk m ks out)"
  by (induction m ks out rule: walk.induct) auto

definition links :: "('k, 'k list) go_map \<Rightarrow> ('k \<times> 'k) set" where
  "links m = {(k, k'). k' \<in> set (kids m k)}"

lemma walk_starts: "set ks \<subseteq> set (walk m ks out)"
proof (induction m ks out rule: walk.induct)
  case (2 m k ks out)
  show ?case
  proof (cases "k \<in> set out")
    case True
    with 2 walk_grows [of out m ks] show ?thesis by auto
  next
    case False
    let ?out = "walk m (kids m k) (out @ [k])"
    have "k \<in> set ?out" using walk_grows [of "out @ [k]" m "kids m k"] by auto
    then have "k \<in> set (walk m ks ?out)" using walk_grows [of ?out m ks] by blast
    with False 2 show ?thesis by simp
  qed
qed simp

lemma walk_sound: "set (walk m ks out) \<subseteq> set out \<union> (links m)\<^sup>* `` set ks"
proof (induction m ks out rule: walk.induct)
  case (2 m k ks out)
  have "(links m)\<^sup>* `` set (kids m k) \<subseteq> (links m)\<^sup>* `` {k}"
    by (auto simp: links_def intro: converse_rtrancl_into_rtrancl)
  with 2 show ?case by (cases "k \<in> set out") (auto, blast)
qed simp

text \<open>Everything on the output but the part still in hand has its children on the output.\<close>

definition closed_but :: "('k, 'k list) go_map \<Rightarrow> 'k list \<Rightarrow> 'k set \<Rightarrow> bool" where
  "closed_but m out open_nodes \<longleftrightarrow> (\<forall>k \<in> set out - open_nodes. set (kids m k) \<subseteq> set out)"

lemma walk_closed: "closed_but m out S \<Longrightarrow> closed_but m (walk m ks out) S"
proof (induction m ks out arbitrary: S rule: walk.induct)
  case (2 m k ks out)
  show ?case
  proof (cases "k \<in> set out")
    case False
    have "closed_but m (out @ [k]) (insert k S)" using 2(4) by (auto simp: closed_but_def)
    from 2(2) [OF False this] have "closed_but m (walk m (kids m k) (out @ [k])) (insert k S)" .
    moreover have "set (kids m k) \<subseteq> set (walk m (kids m k) (out @ [k]))" by (rule walk_starts)
    ultimately have "closed_but m (walk m (kids m k) (out @ [k])) S" by (auto simp: closed_but_def)
    with 2(3) [OF False] False show ?thesis by simp
  qed (use 2 in simp)
qed simp

text \<open>The walk from the empty output visits exactly what is reachable.\<close>

lemma walk_reach: "set (walk m ks []) = (links m)\<^sup>* `` set ks"
proof
  show "set (walk m ks []) \<subseteq> (links m)\<^sup>* `` set ks" using walk_sound [of m ks "[]"] by simp
  have "closed_but m (walk m ks []) {}" by (rule walk_closed) (simp add: closed_but_def)
  then have "links m `` set (walk m ks []) \<subseteq> set (walk m ks [])" by (auto simp: closed_but_def links_def)
  then have "(links m)\<^sup>* `` set (walk m ks []) = set (walk m ks [])" by (rule Image_closed_trancl)
  then show "(links m)\<^sup>* `` set ks \<subseteq> set (walk m ks [])" using walk_starts [of ks m "[]"] by blast
qed

end
