(* ===== verification/CategoryTree.thy ===== *)
theory CategoryTree
  imports Domain Walks
begin

text \<open>
  The category hierarchy, \<open>internal/categorytree/categorytree.go\<close>: the forest built from the flat list
  and its indented listing, the cover set of a category, what stays visible when parents are
  collapsed, and the re-homing of children when a parent is deleted. Parents may be missing, point
  at themselves or form cycles. Shows that the cover set is the transitive closure of the parent
  links, that the listing has every category that descends from a root exactly once and at its
  depth, that a category is hidden exactly when an ancestor is collapsed, and that deleting a parent
  changes no other ancestry.
\<close>

subsection \<open>Data\<close>

record Category =
  ct_ID :: string
  ct_Name :: string
  ct_Kind :: string
  ct_Color :: string
  ct_ParentID :: string
  ct_Deductible :: bool
  ct_TaxLine :: string
  ct_CategoryClass :: string
  ct_Custom :: "(string \<times> any_value) list"

datatype Node = Node (node_category: Category) (node_children: "Node list")

type_synonym Flat = "Category \<times> nat"

subsection \<open>The forest\<close>

text \<open>
  \<open>lt\<close> is the order of names, \<open>catname.Less\<close>, which folds case and reads digits by Unicode's tables.
\<close>

definition ids_of :: "Category list \<Rightarrow> string list" where
  "ids_of cats = map ct_ID cats"

definition tree_parent :: "Category list \<Rightarrow> Category \<Rightarrow> string" where
  "tree_parent cats c =
     (if ct_ParentID c = [] \<or> ct_ParentID c \<notin> set (ids_of cats) \<or> ct_ParentID c = ct_ID c then [] else ct_ParentID c)"

definition sorted_groups :: "(string \<Rightarrow> string \<Rightarrow> bool) \<Rightarrow> (string, Category list) go_map \<Rightarrow> (string, Category list) go_map" where
  "sorted_groups lt m = map (\<lambda>(k, cs). (k, SliceStable (\<lambda>a b. lt (ct_Name a) (ct_Name b)) cs)) m"

definition byParent :: "(string \<Rightarrow> string \<Rightarrow> bool) \<Rightarrow> Category list \<Rightarrow> (string, Category list) go_map" where
  "byParent lt cats = sorted_groups lt (group_by (\<lambda>c. Some (tree_parent cats c, c)) cats)"

function build :: "(string, Category list) go_map \<Rightarrow> Category list \<Rightarrow> string list \<Rightarrow> Node list \<times> string list" where
  "build m [] visited = ([], visited)"
| "build m (c # cs) visited =
     (if ct_ID c \<in> set visited then build m cs visited
      else let sub = build m (map_get [] m (ct_ID c)) (visited @ [ct_ID c]);
               rest = build m cs (snd sub)
           in (Node c (fst sub) # fst rest, snd rest))"
  by pat_completeness auto

lemma build_grows_dom: "build_dom (m, cs, vis) \<Longrightarrow> set vis \<subseteq> set (snd (build m cs vis))"
proof (induction m cs vis rule: build.pinduct)
  case (2 m c cs vis)
  then show ?case
    by (cases "build m (kids m (ct_ID c)) (vis @ [ct_ID c])") (auto simp: build.psimps Let_def subset_iff)
qed (simp add: build.psimps)

termination build
proof (relation "measures [\<lambda>(m, cs, vis). unseen m vis, \<lambda>(m, cs, vis). length cs]", goal_cases)
  case (3 m c cs vis)
  have "unseen m (vis @ [ct_ID c]) \<le> unseen m vis" by (rule unseen_mono) auto
  with 3 unseen_mark [of "ct_ID c" m vis] map_get_absent [of "ct_ID c" m]
  show ?case by (cases "ct_ID c \<in> fst ` set m") auto
next
  case (4 m c cs vis sub)
  then have "set (vis @ [ct_ID c]) \<subseteq> set (snd sub)" using build_grows_dom by blast
  then have "unseen m (snd sub) \<le> unseen m vis" by (intro unseen_mono) auto
  then show ?case by auto
qed auto

definition Build :: "(string \<Rightarrow> string \<Rightarrow> bool) \<Rightarrow> Category list \<Rightarrow> Node list" where
  "Build lt cats = fst (build (byParent lt cats) (map_get [] (byParent lt cats) []) [])"

fun flatten_nodes :: "Node list \<Rightarrow> nat \<Rightarrow> Flat list" where
  "flatten_nodes [] depth = []"
| "flatten_nodes (Node c children # ns) depth =
     (c, depth) # flatten_nodes children (depth + 1) @ flatten_nodes ns depth"

definition Flatten :: "(string \<Rightarrow> string \<Rightarrow> bool) \<Rightarrow> Category list \<Rightarrow> Flat list" where
  "Flatten lt cats = flatten_nodes (Build lt cats) 0"

subsection \<open>Cover sets\<close>

definition descendantAdjacency :: "Category list \<Rightarrow> (string, string list) go_map" where
  "descendantAdjacency cats =
     group_by (\<lambda>c. if ct_ParentID c \<noteq> [] \<and> ct_ParentID c \<noteq> ct_ID c then Some (ct_ParentID c, ct_ID c) else None) cats"

text \<open>The Go map of the result is the list of its keys, in the order they were set.\<close>

definition walkDescendants :: "(string, string list) go_map \<Rightarrow> string \<Rightarrow> string list \<Rightarrow> string list" where
  "walkDescendants m start out = walk m [start] out"

definition Descendants :: "Category list \<Rightarrow> string \<Rightarrow> string list" where
  "Descendants cats start = (if start = [] then [] else walkDescendants (descendantAdjacency cats) start [])"

definition DescendantsOfAll :: "Category list \<Rightarrow> string list \<Rightarrow> string list" where
  "DescendantsOfAll cats roots =
     foldl (\<lambda>out start. if start = [] then out else walkDescendants (descendantAdjacency cats) start out) [] roots"

subsection \<open>Collapsed parents and deletion\<close>

definition parentOf :: "Category list \<Rightarrow> (string, string) go_map" where
  "parentOf cats = foldl (\<lambda>m c. map_put (ct_ID c) (ct_ParentID c) m) [] cats"

function hidden_from :: "Category list \<Rightarrow> (string \<Rightarrow> bool) \<Rightarrow> string \<Rightarrow> string list \<Rightarrow> bool" where
  "hidden_from cats collapsed cur seen =
     (if cur \<noteq> [] \<and> cur \<in> set (ids_of cats) \<and> cur \<notin> set seen
      then collapsed cur \<or> hidden_from cats collapsed (map_get [] (parentOf cats) cur) (cur # seen)
      else False)"
  by pat_completeness auto

termination
  by (relation "measure (\<lambda>(cats, collapsed, cur, seen). card (set (ids_of cats) - set seen))")
    (auto intro!: diff_less simp: card_gt_0_iff)

declare hidden_from.simps [simp del]

definition VisibleUnderCollapsed :: "Category list \<Rightarrow> (string \<Rightarrow> bool) \<Rightarrow> string list" where
  "VisibleUnderCollapsed cats collapsed =
     map ct_ID [c \<leftarrow> cats. \<not> hidden_from cats collapsed (ct_ParentID c) []]"

definition new_parent :: "Category list \<Rightarrow> string \<Rightarrow> string" where
  "new_parent cats deleted = (case find (\<lambda>c. ct_ID c = deleted) cats of None \<Rightarrow> []
     | Some c \<Rightarrow> if ct_ParentID c \<noteq> deleted then ct_ParentID c else [])"

definition ReparentOnDelete :: "Category list \<Rightarrow> string \<Rightarrow> Category list" where
  "ReparentOnDelete cats deleted =
     (if deleted = [] then []
      else map (\<lambda>c. c\<lparr>ct_ParentID := new_parent cats deleted\<rparr>)
        [c \<leftarrow> cats. ct_ParentID c = deleted \<and> ct_ID c \<noteq> deleted])"

subsection \<open>The cover set is a closure\<close>

definition parent_links :: "Category list \<Rightarrow> (string \<times> string) set" where
  "parent_links cats = {(ct_ParentID c, ct_ID c) | c. c \<in> set cats \<and> ct_ParentID c \<noteq> [] \<and> ct_ParentID c \<noteq> ct_ID c}"

lemma links_adjacency: "links (descendantAdjacency cats) = parent_links cats"
  by (auto simp: links_def descendantAdjacency_def map_get_group_by set_chosen parent_links_def split: if_splits)

lemma walk_roots:
  "foldl (\<lambda>out k. if k = [] then out else walk m [k] out) out ks = walk m [k \<leftarrow> ks. k \<noteq> []] out"
proof (induction ks arbitrary: out)
  case (Cons k ks)
  then show ?case using walk_append [of m "[k]" "[k \<leftarrow> ks. k \<noteq> []]" out] by simp
qed simp

text \<open>The cover set of a list of categories is the closure of the parent links under them: every
  category below one of them at any depth, each once, however the links are broken or cyclic. The
  cover set of one category is the case of a list of one.\<close>
theorem cover_set_is_closure:
  "set (DescendantsOfAll cats tracked) = (parent_links cats)\<^sup>* `` (set tracked - {[]}) \<and>
   distinct (DescendantsOfAll cats tracked) \<and> Descendants cats c = DescendantsOfAll cats [c]"
proof -
  have "DescendantsOfAll cats tracked = walk (descendantAdjacency cats) [k \<leftarrow> tracked. k \<noteq> []] []"
    by (simp only: DescendantsOfAll_def walkDescendants_def walk_roots)
  moreover have "set [k \<leftarrow> tracked. k \<noteq> []] = set tracked - {[]}" by auto
  ultimately show ?thesis
    using walk_reach [of "descendantAdjacency cats" "[k \<leftarrow> tracked. k \<noteq> []]"]
      walk_distinct [of "[]" "descendantAdjacency cats" "[k \<leftarrow> tracked. k \<noteq> []]"]
    by (simp add: links_adjacency Descendants_def DescendantsOfAll_def)
qed

subsection \<open>The listing has every rooted category once\<close>

definition id_map :: "(string, Category list) go_map \<Rightarrow> (string, string list) go_map" where
  "id_map m = map (\<lambda>(k, cs). (k, map ct_ID cs)) m"

lemma kids_id_map: "kids (id_map m) k = map ct_ID (kids m k)"
  by (induction m) (auto simp: id_map_def map_get_Cons)

lemma build_visits: "snd (build m cs vis) = walk (id_map m) (map ct_ID cs) vis"
  by (induction m cs vis rule: build.induct) (simp_all add: Let_def kids_id_map)

lemma build_flat: "vis @ map (\<lambda>x. ct_ID (fst x)) (flatten_nodes (fst (build m cs vis)) d) = snd (build m cs vis)"
proof (induction m cs vis arbitrary: d rule: build.induct)
  case (2 m c cs vis)
  show ?case
  proof (cases "ct_ID c \<in> set vis")
    case False
    let ?sub = "build m (kids m (ct_ID c)) (vis @ [ct_ID c])"
    have "vis @ ct_ID c # map (\<lambda>x. ct_ID (fst x)) (flatten_nodes (fst ?sub) (d + 1)) = snd ?sub"
      using 2(2) [OF False, of "d + 1"] by simp
    moreover have "snd ?sub @ map (\<lambda>x. ct_ID (fst x)) (flatten_nodes (fst (build m cs (snd ?sub))) d) = snd (build m cs (snd ?sub))"
      using 2(3) [OF False refl, of d] .
    ultimately show ?thesis using False
      by (simp add: Let_def) (metis append.assoc append_Cons)
  qed (use 2(1) in simp)
qed simp

text \<open>A category descends from a root through \<open>d\<close> parents.\<close>

inductive rooted :: "Category list \<Rightarrow> Category \<Rightarrow> nat \<Rightarrow> bool" for cats where
  root: "c \<in> set cats \<Longrightarrow> tree_parent cats c = [] \<Longrightarrow> rooted cats c 0"
| child: "rooted cats p d \<Longrightarrow> c \<in> set cats \<Longrightarrow> tree_parent cats c = ct_ID p \<Longrightarrow> rooted cats c (Suc d)"

lemma kids_byParent: "set (kids (byParent lt cats) k) = {c \<in> set cats. tree_parent cats c = k}"
proof -
  have "set (kids (sorted_groups lt m) k) = set (kids m k)" for m
    by (induction m) (auto simp: sorted_groups_def map_get_Cons)
  then show ?thesis by (auto simp: byParent_def map_get_group_by set_chosen)
qed

lemma build_sound:
  assumes "\<And>c d c'. P c d \<Longrightarrow> c' \<in> set (kids m (ct_ID c)) \<Longrightarrow> P c' (Suc d)"
  shows "(\<And>c. c \<in> set cs \<Longrightarrow> P c d) \<Longrightarrow> x \<in> set (flatten_nodes (fst (build m cs vis)) d) \<Longrightarrow> P (fst x) (snd x)"
  using assms
proof (induction m cs vis arbitrary: d rule: build.induct)
  case (2 m c cs vis)
  show ?case
  proof (cases "ct_ID c \<in> set vis")
    case True
    show ?thesis by (rule 2(1) [OF True _ _ 2(6)]) (use 2(4,5) True in auto)
  next
    case False
    let ?sub = "build m (kids m (ct_ID c)) (vis @ [ct_ID c])"
    from 2(5) False consider (this) "x = (c, d)" | (below) "x \<in> set (flatten_nodes (fst ?sub) (Suc d))"
      | (later) "x \<in> set (flatten_nodes (fst (build m cs (snd ?sub))) d)"
      by (auto simp: Let_def)
    then show ?thesis
    proof cases
      case this with 2(4) show ?thesis by simp
    next
      case below
      show ?thesis by (rule 2(2) [OF False _ below 2(6)]) (use 2(4,6) in auto)
    next
      case later
      show ?thesis by (rule 2(3) [OF False refl _ later 2(6)]) (use 2(4) in auto)
    qed
  qed
qed simp

definition unambiguous :: "Category list \<Rightarrow> bool" where
  "unambiguous cats \<longleftrightarrow> distinct (ids_of cats) \<and> [] \<notin> set (ids_of cats)"

lemma same_category: "unambiguous cats \<Longrightarrow> c \<in> set cats \<Longrightarrow> c' \<in> set cats \<Longrightarrow> ct_ID c = ct_ID c' \<Longrightarrow> c = c'"
  by (auto simp: unambiguous_def ids_of_def distinct_map dest: inj_onD)

lemma rooted_in: "rooted cats c d \<Longrightarrow> c \<in> set cats"
  by (cases rule: rooted.cases) auto

lemma rooted_depth: "rooted cats c d \<Longrightarrow> unambiguous cats \<Longrightarrow> rooted cats c d' \<Longrightarrow> d = d'"
proof (induction arbitrary: d' rule: rooted.induct)
  case (root c)
  from root(4) show ?case
  proof cases
    case (child p d)
    with root(2,3) rooted_in [of cats p d] show ?thesis by (auto simp: unambiguous_def ids_of_def image_iff)
  qed simp
next
  case (child p d c)
  from child(6) show ?case
  proof cases
    case root
    with child(1,3,5) rooted_in [of cats p d] show ?thesis by (auto simp: unambiguous_def ids_of_def image_iff)
  next
    case (child p' e)
    with child.hyps child.prems(1) have "p' = p"
      by (intro same_category [of cats p' p]) (auto dest: rooted_in)
    with child child.IH child.prems(1) show ?thesis by blast
  qed
qed

lemma Flatten_ids: "map (\<lambda>x. ct_ID (fst x)) (Flatten lt cats) = walk (id_map (byParent lt cats)) (map ct_ID (kids (byParent lt cats) [])) []"
  using build_flat [of "[]" "byParent lt cats" "kids (byParent lt cats) []" 0]
  by (simp add: Flatten_def Build_def build_visits)

lemma Flatten_sound: "x \<in> set (Flatten lt cats) \<Longrightarrow> [] \<notin> set (ids_of cats) \<Longrightarrow> rooted cats (fst x) (snd x)"
  unfolding Flatten_def Build_def
  by (rule build_sound) (auto simp: kids_byParent intro: rooted.intros)

lemma rooted_reached:
  "rooted cats c d \<Longrightarrow> ct_ID c \<in> (links (id_map (byParent lt cats)))\<^sup>* `` set (map ct_ID (kids (byParent lt cats) []))"
proof (induction rule: rooted.induct)
  case (root c) then show ?case by (auto simp: kids_byParent)
next
  case (child p d c)
  then have "(ct_ID p, ct_ID c) \<in> links (id_map (byParent lt cats))" by (auto simp: links_def kids_id_map kids_byParent)
  with child.IH show ?case by (auto intro: rtrancl_into_rtrancl)
qed

text \<open>C38: The listing of the tree has exactly the categories that descend from a root, each once and
  with the number of its ancestors as its depth; a category caught in a cycle, or below one, is left
  out.\<close>
theorem Flatten_lists_rooted_once:
  assumes "unambiguous cats"
  shows "set (Flatten lt cats) = {(c, d). rooted cats c d} \<and> distinct (map (\<lambda>x. ct_ID (fst x)) (Flatten lt cats))"
proof -
  have nil: "[] \<notin> set (ids_of cats)" using assms by (simp add: unambiguous_def)
  have "(c, d) \<in> set (Flatten lt cats)" if r: "rooted cats c d" for c d
  proof -
    from rooted_reached [OF r, of lt] have "ct_ID c \<in> set (map (\<lambda>x. ct_ID (fst x)) (Flatten lt cats))"
      unfolding Flatten_ids walk_reach .
    then obtain x where x: "x \<in> set (Flatten lt cats)" "ct_ID (fst x) = ct_ID c" by auto
    note s = Flatten_sound [OF x(1) nil]
    with x(2) r have "fst x = c" by (intro same_category [OF assms]) (auto dest: rooted_in)
    moreover from this s have "snd x = d" using rooted_depth [OF r assms] by metis
    ultimately show ?thesis using x(1) by (cases x) simp
  qed
  moreover have "distinct (map (\<lambda>x. ct_ID (fst x)) (Flatten lt cats))"
    unfolding Flatten_ids by (rule walk_distinct) simp
  ultimately show ?thesis using Flatten_sound [OF _ nil, of _ lt] by fastforce
qed

definition sample_category :: "string \<Rightarrow> string \<Rightarrow> Category" where
  "sample_category i p = \<lparr>ct_ID = i, ct_Name = i, ct_Kind = [], ct_Color = [], ct_ParentID = p, ct_Deductible = False,
     ct_TaxLine = [], ct_CategoryClass = [], ct_Custom = []\<rparr>"

definition sample_categories :: "Category list" where
  "sample_categories = [sample_category ''b'' ''a'', sample_category ''a'' [], sample_category ''c'' ''d'', sample_category ''d'' ''c'']"

lemma Flatten_lists_rooted_once_witness:
  "rooted sample_categories (sample_category ''b'' ''a'') 1 \<and>
   set (Flatten (\<lambda>_ _. False) sample_categories) = {(c, d). rooted sample_categories c d}"
proof -
  have "unambiguous sample_categories"
    by (simp add: unambiguous_def sample_categories_def sample_category_def ids_of_def)
  moreover have "rooted sample_categories (sample_category ''a'' []) 0"
    by (rule rooted.root) (simp_all add: sample_categories_def tree_parent_def sample_category_def)
  then have "rooted sample_categories (sample_category ''b'' ''a'') (Suc 0)"
    by (rule rooted.child) (simp_all add: sample_categories_def tree_parent_def sample_category_def ids_of_def)
  ultimately show ?thesis using Flatten_lists_rooted_once [of sample_categories "\<lambda>_ _. False"] by simp
qed

subsection \<open>Hidden means below a collapsed ancestor\<close>

definition ancestor_link :: "Category list \<Rightarrow> (string \<times> string) set" where
  "ancestor_link cats = {(ct_ID c, ct_ParentID c) | c. c \<in> set cats \<and> ct_ParentID c \<noteq> [] \<and> ct_ParentID c \<in> set (ids_of cats)}"

lemma parentOf_lookup: "distinct (ids_of cats) \<Longrightarrow> c \<in> set cats \<Longrightarrow> map_get [] (parentOf cats) (ct_ID c) = ct_ParentID c"
proof -
  have "c \<in> set cats \<or> map_get [] m (ct_ID c) = ct_ParentID c \<and> ct_ID c \<notin> set (ids_of cats) \<Longrightarrow> distinct (ids_of cats) \<Longrightarrow>
      map_get [] (foldl (\<lambda>m c. map_put (ct_ID c) (ct_ParentID c) m) m cats) (ct_ID c) = ct_ParentID c" for m
    by (induction cats arbitrary: m) (auto simp: ids_of_def)
  then show "distinct (ids_of cats) \<Longrightarrow> c \<in> set cats \<Longrightarrow> ?thesis" by (simp add: parentOf_def)
qed

lemma link_unique: "distinct (ids_of cats) \<Longrightarrow> c \<in> set cats \<Longrightarrow> (ct_ID c, q) \<in> ancestor_link cats \<longleftrightarrow>
    q = ct_ParentID c \<and> q \<noteq> [] \<and> q \<in> set (ids_of cats)"
  by (auto simp: ancestor_link_def ids_of_def distinct_map dest: inj_onD)

definition chain_from :: "Category list \<Rightarrow> string \<Rightarrow> string set" where
  "chain_from cats cur = (if cur \<noteq> [] \<and> cur \<in> set (ids_of cats) then (ancestor_link cats)\<^sup>* `` {cur} else {})"

lemma ancestor_links_of:
  "distinct (ids_of cats) \<Longrightarrow> c \<in> set cats \<Longrightarrow> ancestor_link cats `` {ct_ID c} =
     (if ct_ParentID c \<noteq> [] \<and> ct_ParentID c \<in> set (ids_of cats) then {ct_ParentID c} else {})"
  by (auto simp: link_unique)

lemma rtrancl_image_step: "R\<^sup>* `` {x} = insert x (R\<^sup>* `` (R `` {x}))"
  by (auto elim: converse_rtranclE intro: converse_rtrancl_into_rtrancl)

lemma trancl_image_step: "R\<^sup>+ `` {x} = R\<^sup>* `` (R `` {x})"
  by (auto dest: tranclD intro: rtrancl_into_trancl2)

lemma chain_from_links: "chain_from cats p = (ancestor_link cats)\<^sup>* `` (if p \<noteq> [] \<and> p \<in> set (ids_of cats) then {p} else {})"
  by (simp add: chain_from_def)

lemma chain_step:
  assumes "distinct (ids_of cats)" "c \<in> set cats" "ct_ID c \<noteq> []"
  shows "chain_from cats (ct_ID c) = insert (ct_ID c) (chain_from cats (ct_ParentID c))"
proof -
  have "ct_ID c \<in> set (ids_of cats)" using assms(2) by (simp add: ids_of_def)
  with assms(3) have "chain_from cats (ct_ID c) = (ancestor_link cats)\<^sup>* `` {ct_ID c}" by (simp add: chain_from_def)
  then show ?thesis
    unfolding rtrancl_image_step [of _ "ct_ID c"] ancestor_links_of [OF assms(1,2)] chain_from_links [of cats "ct_ParentID c"] .
qed

lemma hidden_iff:
  assumes "distinct (ids_of cats)"
  shows "set seen \<inter> Collect collapsed = {} \<Longrightarrow> ancestor_link cats `` set seen \<subseteq> insert cur (set seen) \<Longrightarrow>
    hidden_from cats collapsed cur seen \<longleftrightarrow> chain_from cats cur \<inter> Collect collapsed \<noteq> {}"
  using assms
proof (induction cats collapsed cur seen rule: hidden_from.induct)
  case (1 cats collapsed cur seen)
  consider (stop) "\<not> (cur \<noteq> [] \<and> cur \<in> set (ids_of cats))" | (again) "cur \<noteq> []" "cur \<in> set (ids_of cats)" "cur \<in> set seen"
    | (step) "cur \<noteq> []" "cur \<in> set (ids_of cats)" "cur \<notin> set seen" by blast
  then show ?case
  proof cases
    case stop
    then show ?thesis by (subst hidden_from.simps) (auto simp: chain_from_def)
  next
    case again
    with 1(3) have "ancestor_link cats `` set seen \<subseteq> set seen" by blast
    then have "(ancestor_link cats)\<^sup>* `` set seen = set seen" by (rule Image_closed_trancl)
    with again have "chain_from cats cur \<subseteq> set seen" by (auto simp: chain_from_def)
    with 1(2) again show ?thesis by (subst hidden_from.simps) auto
  next
    case step
    then obtain c where c: "c \<in> set cats" "cur = ct_ID c" by (auto simp: ids_of_def)
    have up: "map_get [] (parentOf cats) cur = ct_ParentID c" using parentOf_lookup [OF 1(4) c(1)] c(2) by simp
    have "hidden_from cats collapsed (ct_ParentID c) (cur # seen) \<longleftrightarrow>
        chain_from cats (ct_ParentID c) \<inter> Collect collapsed \<noteq> {}" if "\<not> collapsed cur"
    proof -
      have "ancestor_link cats `` {cur} \<subseteq> {ct_ParentID c}" using link_unique [OF 1(4) c(1)] c(2) by auto
      with 1(3) have "ancestor_link cats `` set (cur # seen) \<subseteq> insert (ct_ParentID c) (set (cur # seen))" by auto
      with 1(1) step 1(2,4) that up show ?thesis by simp
    qed
    with step up chain_step [OF 1(4) c(1)] c(2) show ?thesis by (subst hidden_from.simps) auto
  qed
qed

text \<open>When some categories are collapsed, a category is shown exactly when no category above it in
  the parent links, at any distance, is collapsed.\<close>
theorem visible_iff_no_collapsed_ancestor:
  assumes "distinct (ids_of cats)"
  shows "set (VisibleUnderCollapsed cats collapsed) =
    ct_ID ` {c \<in> set cats. (ancestor_link cats)\<^sup>+ `` {ct_ID c} \<inter> Collect collapsed = {}}"
proof -
  have "hidden_from cats collapsed (ct_ParentID c) [] \<longleftrightarrow> (ancestor_link cats)\<^sup>+ `` {ct_ID c} \<inter> Collect collapsed \<noteq> {}"
    if c: "c \<in> set cats" for c
  proof -
    have "(ancestor_link cats)\<^sup>+ `` {ct_ID c} = chain_from cats (ct_ParentID c)"
      unfolding trancl_image_step ancestor_links_of [OF assms c] chain_from_links ..
    then show ?thesis using hidden_iff [OF assms, of "[]" collapsed "ct_ParentID c"] by simp
  qed
  then show ?thesis by (auto simp: VisibleUnderCollapsed_def)
qed

definition sample_collapsed :: "string \<Rightarrow> bool" where
  "sample_collapsed i \<longleftrightarrow> i = ''a'' \<or> i = ''c''"

lemma visible_iff_no_collapsed_ancestor_witness:
  "set (VisibleUnderCollapsed sample_categories sample_collapsed) =
    ct_ID ` {c \<in> set sample_categories. (ancestor_link sample_categories)\<^sup>+ `` {ct_ID c} \<inter> Collect sample_collapsed = {}} \<and>
   VisibleUnderCollapsed sample_categories sample_collapsed = [''a'']"
proof -
  have "distinct (ids_of sample_categories)" by (simp add: sample_categories_def sample_category_def ids_of_def)
  moreover have "VisibleUnderCollapsed sample_categories sample_collapsed = [''a'']" by code_simp
  ultimately show ?thesis using visible_iff_no_collapsed_ancestor by blast
qed

text \<open>A category that is its own parent is a root of the forest, and collapsing it hides it.\<close>

lemma own_parent_hidden:
  "map fst (Flatten (\<lambda>_ _. False) [sample_category ''s'' ''s'']) = [sample_category ''s'' ''s''] \<and>
   VisibleUnderCollapsed [sample_category ''s'' ''s''] (\<lambda>i. i = ''s'') = []"
  by code_simp

subsection \<open>Deleting a parent\<close>

text \<open>The list once the returned children are stored and the category is gone.\<close>

definition without :: "Category list \<Rightarrow> string \<Rightarrow> Category list" where
  "without cats deleted =
     map (\<lambda>c. case find (\<lambda>u. ct_ID u = ct_ID c) (ReparentOnDelete cats deleted) of Some u \<Rightarrow> u | None \<Rightarrow> c)
       [c \<leftarrow> cats. ct_ID c \<noteq> deleted]"

definition rehomed :: "Category list \<Rightarrow> string \<Rightarrow> Category \<Rightarrow> Category" where
  "rehomed cats deleted c = (if ct_ParentID c = deleted then c\<lparr>ct_ParentID := new_parent cats deleted\<rparr> else c)"

lemma find_rehomed:
  assumes "distinct (ids_of cats)" "c \<in> set cats" "ct_ID c \<noteq> deleted" "deleted \<noteq> []"
  shows "find (\<lambda>u. ct_ID u = ct_ID c) (ReparentOnDelete cats deleted) =
    (if ct_ParentID c = deleted then Some (rehomed cats deleted c) else None)"
proof -
  have "find (\<lambda>u. ct_ID u = ct_ID c) (map (\<lambda>c. c\<lparr>ct_ParentID := np\<rparr>) [c \<leftarrow> cats. ct_ParentID c = deleted \<and> ct_ID c \<noteq> deleted]) =
      (if ct_ParentID c = deleted then Some (c\<lparr>ct_ParentID := np\<rparr>) else None)" for np
    using assms(1-3)
  proof (induction cats)
    case (Cons c' cats)
    have "ct_ID c' = ct_ID c \<Longrightarrow> c' = c" using Cons.prems(1,2) by (auto simp: ids_of_def image_iff)
    moreover have "find (\<lambda>u. ct_ID u = ct_ID c) (map (\<lambda>c. c\<lparr>ct_ParentID := np\<rparr>)
        [c \<leftarrow> cats. ct_ParentID c = deleted \<and> ct_ID c \<noteq> deleted]) = None" if "c' = c"
      using Cons.prems(1) that by (auto simp: ids_of_def find_None_iff image_iff)
    moreover have "ct_ID c' \<noteq> ct_ID c" "c \<in> set cats" if "c' \<noteq> c" using Cons.prems(2) calculation(1) that by auto
    ultimately show ?case using Cons.IH Cons.prems(1,3) by (cases "c' = c") (auto simp: ids_of_def)
  qed simp
  with assms(4) show ?thesis by (simp add: ReparentOnDelete_def rehomed_def)
qed

lemma without_eq:
  "distinct (ids_of cats) \<Longrightarrow> deleted \<noteq> [] \<Longrightarrow> without cats deleted = map (rehomed cats deleted) [c \<leftarrow> cats. ct_ID c \<noteq> deleted]"
  by (auto simp: without_def find_rehomed rehomed_def intro!: map_cong)

lemma in_parent_links:
  "(x, y) \<in> parent_links cats \<longleftrightarrow> (\<exists>c \<in> set cats. ct_ParentID c = x \<and> ct_ID c = y \<and> x \<noteq> [] \<and> x \<noteq> y)"
  by (auto simp: parent_links_def)

lemma new_parent_link:
  assumes "distinct (ids_of cats)"
  shows "(z, deleted) \<in> parent_links cats \<longleftrightarrow> z = new_parent cats deleted \<and> z \<noteq> []"
proof (cases "find (\<lambda>c. ct_ID c = deleted) cats")
  case None
  then have "new_parent cats deleted = []" by (simp add: new_parent_def)
  moreover have "\<forall>c \<in> set cats. ct_ID c \<noteq> deleted" using None by (simp add: find_None_iff)
  ultimately show ?thesis by (auto simp: in_parent_links)
next
  case (Some c)
  then have c: "c \<in> set cats" "ct_ID c = deleted" by (auto simp: find_Some_iff)
  have "c' = c" if "c' \<in> set cats" "ct_ID c' = deleted" for c'
    using assms c that by (auto simp only: ids_of_def distinct_map dest: inj_onD)
  with c have "(z, deleted) \<in> parent_links cats \<longleftrightarrow> ct_ParentID c = z \<and> z \<noteq> [] \<and> z \<noteq> deleted"
    unfolding in_parent_links by blast
  moreover have "new_parent cats deleted = (if ct_ParentID c \<noteq> deleted then ct_ParentID c else [])"
    using Some by (simp add: new_parent_def)
  ultimately show ?thesis by auto
qed

lemma rehomed_simps [simp]:
  "ct_ID (rehomed cats deleted c) = ct_ID c"
  "ct_ParentID (rehomed cats deleted c) = (if ct_ParentID c = deleted then new_parent cats deleted else ct_ParentID c)"
  by (simp_all add: rehomed_def)

lemma without_links:
  assumes "distinct (ids_of cats)" "deleted \<noteq> []"
  shows "(x, y) \<in> parent_links (without cats deleted) \<longleftrightarrow> y \<noteq> deleted \<and>
    ((x, y) \<in> parent_links cats \<and> x \<noteq> deleted \<or>
     (deleted, y) \<in> parent_links cats \<and> x = new_parent cats deleted \<and> x \<noteq> [] \<and> x \<noteq> y)"
proof -
  have np: "new_parent cats deleted \<noteq> deleted" using assms(2) by (auto simp: new_parent_def split: option.split)
  have "(x, y) \<in> parent_links (without cats deleted) \<longleftrightarrow> (\<exists>c \<in> set cats. ct_ID c = y \<and> y \<noteq> deleted \<and>
      (if ct_ParentID c = deleted then new_parent cats deleted else ct_ParentID c) = x \<and> x \<noteq> [] \<and> x \<noteq> y)"
    by (auto simp: without_eq [OF assms] in_parent_links)
  also have "\<dots> \<longleftrightarrow> y \<noteq> deleted \<and>
    ((x, y) \<in> parent_links cats \<and> x \<noteq> deleted \<or>
     (deleted, y) \<in> parent_links cats \<and> x = new_parent cats deleted \<and> x \<noteq> [] \<and> x \<noteq> y)"
    using np assms(2) unfolding in_parent_links by (auto split: if_splits)
  finally show ?thesis .
qed

text \<open>C39: Deleting a category and storing its re-homed children keeps every other ancestry: of two
  remaining ids, one is below the other afterwards exactly when it was before.\<close>
theorem deletion_keeps_ancestry:
  assumes "distinct (ids_of cats)" "deleted \<noteq> []" "x \<noteq> deleted" "y \<noteq> deleted"
  shows "(x, y) \<in> (parent_links (without cats deleted))\<^sup>* \<longleftrightarrow> (x, y) \<in> (parent_links cats)\<^sup>*"
proof
  let ?E = "parent_links cats" and ?E' = "parent_links (without cats deleted)" and ?np = "new_parent cats deleted"
  have "(x, y) \<in> ?E\<^sup>*" if "(x, y) \<in> ?E'" for x y
    using that new_parent_link [OF assms(1), of x deleted] by (auto simp: without_links [OF assms(1,2)])
  then have "?E' \<subseteq> ?E\<^sup>*" by auto
  then show "(x, y) \<in> ?E\<^sup>*" if "(x, y) \<in> ?E'\<^sup>*" using rtrancl_subset_rtrancl that by blast
next
  let ?E = "parent_links cats" and ?E' = "parent_links (without cats deleted)" and ?np = "new_parent cats deleted"
  assume "(x, y) \<in> ?E\<^sup>*"
  then have "(y \<noteq> deleted \<longrightarrow> (x, y) \<in> ?E'\<^sup>*) \<and> (y = deleted \<longrightarrow> ?np \<noteq> [] \<and> (x, ?np) \<in> ?E'\<^sup>*)"
  proof induction
    case base with assms(3) show ?case by simp
  next
    case (step y z)
    show ?case
    proof (cases "y = deleted")
      case True
      then have "z \<noteq> deleted" "(deleted, z) \<in> ?E" using step(2) by (auto simp: parent_links_def)
      moreover have "?np \<noteq> []" "(x, ?np) \<in> ?E'\<^sup>*" using step(3) True by simp_all
      ultimately have "?np \<noteq> z \<Longrightarrow> (?np, z) \<in> ?E'" by (simp add: without_links [OF assms(1,2)])
      with \<open>(x, ?np) \<in> ?E'\<^sup>*\<close> \<open>z \<noteq> deleted\<close> show ?thesis by (cases "?np = z") (auto intro: rtrancl_into_rtrancl)
    next
      case False
      with step(3) have "(x, y) \<in> ?E'\<^sup>*" by simp
      moreover have "z = deleted \<Longrightarrow> y = ?np \<and> y \<noteq> []" using step(2) new_parent_link [OF assms(1)] by blast
      moreover have "z \<noteq> deleted \<Longrightarrow> (y, z) \<in> ?E'" using step(2) False by (simp add: without_links [OF assms(1,2)])
      ultimately show ?thesis by (auto intro: rtrancl_into_rtrancl)
    qed
  qed
  with assms(4) show "(x, y) \<in> ?E'\<^sup>*" by simp
qed

lemma deletion_keeps_ancestry_witness:
  "(''a'', ''e'') \<in> (parent_links (without [sample_category ''a'' [], sample_category ''b'' ''a'', sample_category ''e'' ''b''] ''b''))\<^sup>*"
proof -
  let ?cats = "[sample_category ''a'' [], sample_category ''b'' ''a'', sample_category ''e'' ''b'']"
  have "(''a'', ''b'') \<in> parent_links ?cats" "(''b'', ''e'') \<in> parent_links ?cats"
    by (simp_all add: in_parent_links sample_category_def)
  then have "(''a'', ''e'') \<in> (parent_links ?cats)\<^sup>*" by (meson r_into_rtrancl rtrancl_into_rtrancl)
  moreover have "distinct (ids_of ?cats)" by (simp add: ids_of_def sample_category_def)
  ultimately show ?thesis using deletion_keeps_ancestry [of ?cats "''b''" "''a''" "''e''"] by simp
qed

end
