(* ===== verification/TaskTree.thy ===== *)
theory TaskTree
  imports Domain Walks
begin

text \<open>
  The to-do list, \<open>internal/tasksort/tasksort.go\<close> and \<open>internal/tasktree/tasktree.go\<close>: the orders of a
  task list, the drag-and-drop reordering of siblings, the nested render order, its pages of root
  tasks, and the descendants of a task. Shows that the render order has every task exactly once and
  under its parent, whatever the parent links are, that every task is on some page, that a dropped
  task lands just before its target, and that the descendants are the closure of the links.
\<close>

subsection \<open>Data\<close>

record TaskResolve =
  tr_Condition :: string
  tr_MatchPayee :: string
  tr_MatchAmountMinor :: int
  tr_MatchCurrency :: string
  tr_MatchToleranceMinor :: int
  tr_MatchRefund :: bool

record Task =
  tk_ID :: string
  tk_Title :: string
  tk_Notes :: string
  tk_Due :: time
  tk_Status :: string
  tk_Priority :: string
  tk_ParentID :: string
  tk_RelatedType :: string
  tk_RelatedID :: string
  tk_MemberID :: string
  tk_Source :: string
  tk_Custom :: "(string, any_value) go_map"
  tk_Recurrence :: string
  tk_ReminderLeadDays :: int
  tk_Order :: int
  tk_Resolve :: "TaskResolve option"

definition StatusOpen :: string where "StatusOpen = ''open''"
definition StatusDone :: string where "StatusDone = ''done''"

subsection \<open>Orders\<close>

definition ModeSmart :: string where "ModeSmart = ''smart''"
definition ModePriority :: string where "ModePriority = ''priority''"
definition ModeAZ :: string where "ModeAZ = ''az''"
definition ModeDue :: string where "ModeDue = ''due''"
definition ModeManual :: string where "ModeManual = ''manual''"

definition ParseMode :: "string \<Rightarrow> string" where
  "ParseMode s = (if s \<in> {ModePriority, ModeAZ, ModeDue, ModeManual} then s else ModeSmart)"

definition priorityRank :: "string \<Rightarrow> int" where
  "priorityRank p = (if p = ''high'' then 3 else if p = ''med'' then 2 else if p = ''low'' then 1 else 0)"

definition is_open :: "Task \<Rightarrow> bool" where
  "is_open t \<longleftrightarrow> tk_Status t = StatusOpen"

definition due_lt :: "Task \<Rightarrow> Task \<Rightarrow> bool \<Rightarrow> bool" where
  "due_lt a b tie =
     (if (tk_Due a = zero_time) \<noteq> (tk_Due b = zero_time) then tk_Due a \<noteq> zero_time
      else if tk_Due a \<noteq> tk_Due b then tk_Due a < tk_Due b else tie)"

definition smart_tie :: "Task \<Rightarrow> Task \<Rightarrow> bool" where
  "smart_tie a b = due_lt a b (tk_Title a < tk_Title b)"

definition smart_lt :: "Task \<Rightarrow> Task \<Rightarrow> bool" where
  "smart_lt a b = (if is_open a \<noteq> is_open b then is_open a else smart_tie a b)"

definition Order :: "Task list \<Rightarrow> Task list" where
  "Order tasks = SliceStable smart_lt tasks"

definition manual_lt :: "Task \<Rightarrow> Task \<Rightarrow> bool" where
  "manual_lt a b \<longleftrightarrow> tk_Order a < tk_Order b"

text \<open>\<open>strings.ToLower\<close> is modelled on ASCII titles.\<close>

definition mode_lt :: "string \<Rightarrow> Task \<Rightarrow> Task \<Rightarrow> bool" where
  "mode_lt mode a b =
     (if is_open a \<noteq> is_open b then is_open a
      else if mode = ModePriority \<and> priorityRank (tk_Priority a) \<noteq> priorityRank (tk_Priority b)
        then priorityRank (tk_Priority b) < priorityRank (tk_Priority a)
      else if mode = ModeAZ \<and> to_lower (tk_Title a) \<noteq> to_lower (tk_Title b)
        then to_lower (tk_Title a) < to_lower (tk_Title b)
      else if mode = ModeDue then due_lt a b (smart_tie a b)
      else smart_tie a b)"

definition OrderBy :: "Task list \<Rightarrow> string \<Rightarrow> Task list" where
  "OrderBy tasks mode =
     (if mode = ModeSmart then Order tasks
      else if mode = ModeManual then SliceStable manual_lt tasks
      else SliceStable (mode_lt mode) tasks)"

lemma mset_OrderBy [simp]: "mset (OrderBy tasks mode) = mset tasks"
  by (simp add: OrderBy_def Order_def)

lemma set_OrderBy [simp]: "set (OrderBy tasks mode) = set tasks"
  by (simp add: OrderBy_def Order_def)

lemma OrderBy_Nil [simp]: "OrderBy [] mode = []"
  by (simp add: OrderBy_def Order_def)

lemma length_OrderBy [simp]: "length (OrderBy tasks mode) = length tasks"
  using mset_OrderBy [of tasks mode] by (metis size_mset)

subsection \<open>Reordering by drag and drop\<close>

text \<open>The loop over the tasks keeps the last match of each id.\<close>

definition last_with :: "string \<Rightarrow> Task list \<Rightarrow> Task option" where
  "last_with i tasks = find (\<lambda>t. tk_ID t = i) (rev tasks)"

definition slot_of :: "string \<Rightarrow> string list \<Rightarrow> nat" where
  "slot_of i ids = (if i \<in> set ids then length (takeWhile (\<lambda>j. j \<noteq> i) ids) else 0)"

text \<open>\<open>pos\<close> keeps the last position of an id; a missing id has position 0.\<close>

definition position_of :: "string list \<Rightarrow> string \<Rightarrow> int" where
  "position_of ids i = map_get 0 (foldl (\<lambda>m (k, j). map_put j (int k) m) [] (enumerate 0 ids)) i"

definition dropped_before :: "string \<Rightarrow> string \<Rightarrow> string list \<Rightarrow> string list" where
  "dropped_before src tgt siblings =
     (let ids = [i \<leftarrow> siblings. i \<noteq> src]; ti = slot_of tgt ids in take ti ids @ src # drop ti ids)"

definition Reorder :: "Task list \<Rightarrow> string \<Rightarrow> string \<Rightarrow> (Task list \<times> bool)" where
  "Reorder tasks srcID targetID =
     (if srcID = [] \<or> targetID = [] \<or> srcID = targetID then ([], False)
      else case (last_with srcID tasks, last_with targetID tasks) of
        (Some src, Some tgt) \<Rightarrow>
          if tk_ParentID src \<noteq> tk_ParentID tgt then ([], False)
          else let siblings = SliceStable manual_lt [t \<leftarrow> tasks. tk_ParentID t = tk_ParentID src];
                   ids = dropped_before srcID targetID (map tk_ID siblings)
            in (List.map_filter (\<lambda>t. if position_of ids (tk_ID t) \<noteq> tk_Order t
                  then Some (t\<lparr>tk_Order := position_of ids (tk_ID t)\<rparr>) else None) siblings, True)
      | _ \<Rightarrow> ([], False))"

subsection \<open>The nested order\<close>

definition present :: "Task list \<Rightarrow> string list" where
  "present tasks = map tk_ID tasks"

definition is_root :: "Task list \<Rightarrow> Task \<Rightarrow> bool" where
  "is_root tasks t \<longleftrightarrow> tk_ParentID t = [] \<or> tk_ParentID t \<notin> set (present tasks)"

definition roots_of :: "Task list \<Rightarrow> Task list" where
  "roots_of tasks = [t \<leftarrow> tasks. is_root tasks t]"

definition children_of :: "Task list \<Rightarrow> (string, Task list) go_map" where
  "children_of tasks = group_by (\<lambda>t. if is_root tasks t then None else Some (tk_ParentID t, t)) tasks"

type_synonym entries = "(Task \<times> nat) list"

definition emitted :: "entries \<Rightarrow> string list" where
  "emitted out = map (\<lambda>x. tk_ID (fst x)) out"

lemma emitted_simps [simp]: "emitted [] = []" "emitted (out @ out') = emitted out @ emitted out'"
  "emitted ((t, d) # out) = tk_ID t # emitted out"
  by (simp_all add: emitted_def)

function visit ::
  "string \<Rightarrow> (string \<Rightarrow> bool) \<Rightarrow> (string, Task list) go_map \<Rightarrow> Task list \<Rightarrow> nat \<Rightarrow> entries \<Rightarrow> entries" where
  "visit mode collapsed m [] depth out = out"
| "visit mode collapsed m (t # ts) depth out =
     (if tk_ID t \<in> set (emitted out) then visit mode collapsed m ts depth out
      else if collapsed (tk_ID t) then visit mode collapsed m ts depth (out @ [(t, depth)])
      else visit mode collapsed m ts depth
        (visit mode collapsed m (OrderBy (map_get [] m (tk_ID t)) mode) (depth + 1) (out @ [(t, depth)])))"
  by pat_completeness auto

lemma visit_grows_dom:
  "visit_dom (mode, coll, m, ts, d, out) \<Longrightarrow> set (emitted out) \<subseteq> set (emitted (visit mode coll m ts d out))"
  by (induction mode coll m ts d out rule: visit.pinduct) (auto simp: visit.psimps)

termination visit
proof (relation "measures [\<lambda>(mode, coll, m, ts, d, out). unseen m (emitted out), \<lambda>(mode, coll, m, ts, d, out). length ts]", goal_cases)
  case (3 mode coll m t ts d out)
  have "unseen m (emitted (out @ [(t, d)])) \<le> unseen m (emitted out)" by (rule unseen_mono) auto
  then show ?case by auto
next
  case (4 mode coll m t ts d out)
  have "unseen m (emitted (out @ [(t, d)])) \<le> unseen m (emitted out)" by (rule unseen_mono) auto
  with 4 unseen_mark [of "tk_ID t" m "emitted out"] map_get_absent [of "tk_ID t" m]
  show ?case by (cases "tk_ID t \<in> fst ` set m") auto
next
  case (5 mode coll m t ts d out)
  then have "set (emitted (out @ [(t, d)])) \<subseteq>
      set (emitted (visit mode coll m (OrderBy (map_get [] m (tk_ID t)) mode) (d + 1) (out @ [(t, d)])))"
    by (intro visit_grows_dom)
  then have "unseen m (emitted (visit mode coll m (OrderBy (map_get [] m (tk_ID t)) mode) (d + 1) (out @ [(t, d)])))
      \<le> unseen m (emitted out)" by (intro unseen_mono) auto
  then show ?case by auto
qed auto

text \<open>The loop over all tasks at the end is the same walk at depth 0.\<close>

definition Flatten :: "Task list \<Rightarrow> entries" where
  "Flatten tasks =
     (let m = children_of tasks;
          out = visit ModeSmart (\<lambda>_. False) m (Order (roots_of tasks)) 0 []
      in visit ModeSmart (\<lambda>_. False) m tasks 0 out)"

subsection \<open>Pages\<close>

definition child_ids :: "(string, Task list) go_map \<Rightarrow> (string, string list) go_map" where
  "child_ids m = map (\<lambda>(k, ts). (k, map tk_ID ts)) m"

fun fold_orphans :: "(string, string list) go_map \<Rightarrow> Task list \<Rightarrow> Task list \<Rightarrow> string list \<Rightarrow> Task list" where
  "fold_orphans m [] roots reached = roots"
| "fold_orphans m (t # ts) roots reached =
     (if tk_ID t \<in> set reached then fold_orphans m ts roots reached
      else fold_orphans m ts (roots @ [t]) (walk m [tk_ID t] reached))"

definition page_roots :: "Task list \<Rightarrow> string \<Rightarrow> Task list" where
  "page_roots tasks mode =
     (let m = child_ids (children_of tasks); roots = roots_of tasks
      in OrderBy (fold_orphans m tasks roots (walk m (map tk_ID roots) [])) mode)"

text \<open>With sizes near the end of the 64-bit range the product would wrap and the slice panic.\<close>

definition page_slice :: "int \<Rightarrow> int \<Rightarrow> 'a list \<Rightarrow> 'a list" where
  "page_slice page pageSize xs =
     (if pageSize \<le> 0 then xs
      else let n = int (length xs);
               totalPages = max 1 (wrap64 (wrap64 (n + pageSize) - 1) sdiv pageSize);
               p = min (max 1 page) totalPages;
               start = wrap64 ((p - 1) * pageSize);
               stop = wrap64 (start + pageSize);
               a = nat (min start n); b = nat (min stop n)
        in drop a (take b xs))"

definition Page :: "Task list \<Rightarrow> string \<Rightarrow> int \<Rightarrow> int \<Rightarrow> (string \<Rightarrow> bool) \<Rightarrow> entries \<times> int" where
  "Page tasks mode page pageSize collapsed =
     (let roots = page_roots tasks mode
      in (visit mode collapsed (children_of tasks) (page_slice page pageSize roots) 0 [], int (length roots)))"

subsection \<open>Captions and descendants\<close>

record ChildStat =
  cs_Total :: int
  cs_Done :: int

definition ChildStats :: "Task list \<Rightarrow> (string, ChildStat) go_map" where
  "ChildStats tasks = foldl (\<lambda>out t. if tk_ParentID t = [] then out
     else let s = map_get \<lparr>cs_Total = 0, cs_Done = 0\<rparr> out (tk_ParentID t)
       in map_put (tk_ParentID t) \<lparr>cs_Total = cs_Total s + 1,
            cs_Done = (if tk_Status t = StatusDone then cs_Done s + 1 else cs_Done s)\<rparr> out) [] tasks"

definition Descendants :: "Task list \<Rightarrow> string \<Rightarrow> string list" where
  "Descendants tasks i =
     (let m = group_by (\<lambda>t. if tk_ParentID t \<noteq> [] then Some (tk_ParentID t, tk_ID t) else None) tasks
      in walk m (map_get [] m i) [])"

subsection \<open>Every task once, under its parent\<close>

definition id_links :: "string \<Rightarrow> (string, Task list) go_map \<Rightarrow> (string, string list) go_map" where
  "id_links mode m = map (\<lambda>(k, ts). (k, map tk_ID (OrderBy ts mode))) m"

lemma kids_id_links: "kids (id_links mode m) k = map tk_ID (OrderBy (kids m k) mode)"
  by (induction m) (auto simp: id_links_def map_get_Cons)

lemma kids_child_ids: "kids (child_ids m) k = map tk_ID (kids m k)"
  by (induction m) (auto simp: child_ids_def map_get_Cons)

lemma visit_walk: "emitted (visit mode (\<lambda>_. False) m ts d out) = walk (id_links mode m) (map tk_ID ts) (emitted out)"
  by (induction mode "\<lambda>_::string. False" m ts d out rule: visit.induct) (simp_all add: kids_id_links)

lemma kids_children: "set (kids (children_of tasks) k) = {t \<in> set tasks. \<not> is_root tasks t \<and> tk_ParentID t = k}"
  by (auto simp: children_of_def map_get_group_by set_chosen split: if_splits)

lemma links_children:
  "links (id_links mode (children_of tasks)) = {(tk_ParentID t, tk_ID t) | t. t \<in> set tasks \<and> \<not> is_root tasks t}"
  "links (child_ids (children_of tasks)) = {(tk_ParentID t, tk_ID t) | t. t \<in> set tasks \<and> \<not> is_root tasks t}"
  by (auto simp: links_def kids_id_links kids_child_ids kids_children)

text \<open>Each entry is a task, at depth 0 or one below an entry for its parent.\<close>

definition nested :: "Task list \<Rightarrow> entries \<Rightarrow> bool" where
  "nested tasks out \<longleftrightarrow> (\<forall>(t, d) \<in> set out. t \<in> set tasks \<and>
     (d = 0 \<or> (\<exists>(p, e) \<in> set out. tk_ID p = tk_ParentID t \<and> d = Suc e)))"

lemma nested_Nil: "nested tasks []"
  by (simp add: nested_def)

lemma visit_extends: "set out \<subseteq> set (visit mode coll m ts d out)"
proof (induction mode coll m ts d out rule: visit.induct)
  case (2 mode coll m t ts d out)
  then show ?case by (cases "tk_ID t \<in> set (emitted out)"; cases "coll (tk_ID t)") (simp_all, blast+)
qed simp

lemma nested_snoc:
  "nested tasks out \<Longrightarrow> t \<in> set tasks \<Longrightarrow> d = 0 \<or> (\<exists>(p, e) \<in> set out. tk_ID p = tk_ParentID t \<and> d = Suc e) \<Longrightarrow>
     nested tasks (out @ [(t, d)])"
  by (fastforce simp: nested_def)

lemma visit_nested:
  assumes "m = children_of tasks"
  shows "nested tasks out \<Longrightarrow> set ts \<subseteq> set tasks \<Longrightarrow>
    \<forall>t \<in> set ts. d = 0 \<or> (\<exists>(p, e) \<in> set out. tk_ID p = tk_ParentID t \<and> d = Suc e) \<Longrightarrow>
    nested tasks (visit mode coll m ts d out)"
  using assms
proof (induction mode coll m ts d out rule: visit.induct)
  case (2 mode coll m t ts d out)
  let ?sub = "visit mode coll m (OrderBy (kids m (tk_ID t)) mode) (d + 1) (out @ [(t, d)])"
  have keep: "\<forall>t \<in> set ts. d = 0 \<or> (\<exists>(p, e) \<in> set out'. tk_ID p = tk_ParentID t \<and> d = Suc e)" if "set out \<subseteq> set out'" for out'
    using 2(7) that by fastforce
  have mark: "nested tasks (out @ [(t, d)])" using 2(5-7) by (intro nested_snoc) auto
  consider (seen) "tk_ID t \<in> set (emitted out)" | (closed) "tk_ID t \<notin> set (emitted out)" "coll (tk_ID t)"
    | (opened) "tk_ID t \<notin> set (emitted out)" "\<not> coll (tk_ID t)" by blast
  then show ?case
  proof cases
    case seen
    with 2(1) [OF seen 2(5) _ _ 2(8)] 2(6,7) show ?thesis by simp
  next
    case closed
    have "nested tasks (visit mode coll m ts d (out @ [(t, d)]))"
      by (rule 2(2) [OF closed mark _ keep 2(8)]) (use 2(6) in auto)
    with closed show ?thesis by simp
  next
    case opened
    have "nested tasks ?sub"
      by (rule 2(3) [OF opened mark _ _ 2(8)]) (use 2(8) in \<open>auto simp: kids_children\<close>)
    moreover have "set out \<subseteq> set ?sub" using visit_extends [of "out @ [(t, d)]"] by auto
    ultimately have "nested tasks (visit mode coll m ts d ?sub)"
      using 2(4) [OF opened _ _ keep 2(8)] 2(6) by simp
    with opened show ?thesis by simp
  qed
qed simp

lemma visit_distinct: "distinct (emitted out) \<Longrightarrow> distinct (emitted (visit mode coll m ts d out))"
  by (induction mode coll m ts d out rule: visit.induct) auto

lemma emitted_task:
  assumes "distinct (map tk_ID tasks)" "nested tasks out" "t \<in> set tasks" "tk_ID t \<in> set (emitted out)"
  shows "t \<in> set (map fst out)"
proof -
  from assms(4) obtain x where x: "x \<in> set out" "tk_ID (fst x) = tk_ID t" by (auto simp: emitted_def)
  with assms(2) have "fst x \<in> set tasks" by (auto simp: nested_def)
  with assms(1,3) x(2) have "fst x = t" by (auto simp: distinct_map dest: inj_onD)
  with x(1) show ?thesis by auto
qed

lemma each_once:
  assumes "distinct (map tk_ID tasks)" "nested tasks out" "distinct (emitted out)" "set (map tk_ID tasks) \<subseteq> set (emitted out)"
  shows "mset (map fst out) = mset tasks"
proof (rule set_eq_iff_mset_eq_distinct [THEN iffD1])
  show "distinct (map fst out)" using assms(3) by (auto simp: emitted_def distinct_map inj_on_def)
  show "distinct tasks" using assms(1) by (simp add: distinct_map)
  have sub: "set (map fst out) \<subseteq> set tasks" using assms(2) by (auto simp: nested_def)
  moreover have "set tasks \<subseteq> set (map fst out)"
    using emitted_task [OF assms(1,2)] assms(4) by auto
  ultimately show "set (map fst out) = set tasks" by blast
qed

text \<open>The nested order of a task list has every task exactly once, and every entry that is not at
  the top stands below an entry for its parent, whatever orphans and cycles the parent links have.\<close>
theorem Flatten_lists_each_task_once:
  assumes "distinct (map tk_ID tasks)"
  shows "mset (map fst (Flatten tasks)) = mset tasks \<and> nested tasks (Flatten tasks)"
proof -
  let ?m = "children_of tasks"
  let ?out = "visit ModeSmart (\<lambda>_. False) ?m (Order (roots_of tasks)) 0 []"
  have F: "Flatten tasks = visit ModeSmart (\<lambda>_. False) ?m tasks 0 ?out" by (simp add: Flatten_def Let_def)
  have "set (Order (roots_of tasks)) \<subseteq> set tasks" by (auto simp: Order_def roots_of_def)
  then have out: "nested tasks ?out" by (intro visit_nested [OF refl nested_Nil]) auto
  have n: "nested tasks (Flatten tasks)" unfolding F by (rule visit_nested [OF refl out]) auto
  have "distinct (emitted (Flatten tasks))" unfolding F by (intro visit_distinct) simp
  moreover have "set (map tk_ID tasks) \<subseteq> set (emitted (Flatten tasks))" unfolding F visit_walk by (rule walk_starts)
  ultimately show ?thesis using each_once [OF assms n] n by simp
qed

definition sample_task :: "string \<Rightarrow> string \<Rightarrow> Task" where
  "sample_task i p = \<lparr>tk_ID = i, tk_Title = i, tk_Notes = [], tk_Due = zero_time, tk_Status = StatusOpen, tk_Priority = [],
     tk_ParentID = p, tk_RelatedType = [], tk_RelatedID = [], tk_MemberID = [], tk_Source = [], tk_Custom = [],
     tk_Recurrence = [], tk_ReminderLeadDays = 0, tk_Order = 0, tk_Resolve = None\<rparr>"

text \<open>A cycle of two tasks and a task below it.\<close>

definition cyclic_tasks :: "Task list" where
  "cyclic_tasks = [sample_task ''a'' ''b'', sample_task ''c'' ''e'', sample_task ''b'' ''a'', sample_task ''e'' ''c'']"

lemma Flatten_lists_each_task_once_witness:
  "mset (map fst (Flatten cyclic_tasks)) = mset cyclic_tasks \<and> nested cyclic_tasks (Flatten cyclic_tasks)"
  by (rule Flatten_lists_each_task_once) (simp add: cyclic_tasks_def sample_task_def)

subsection \<open>Descendants\<close>

text \<open>The descendants of a task are what its parent links reach below it, each once.\<close>
theorem task_descendants_are_closure:
  "set (Descendants tasks i) = {(tk_ParentID t, tk_ID t) | t. t \<in> set tasks \<and> tk_ParentID t \<noteq> []}\<^sup>+ `` {i} \<and>
   distinct (Descendants tasks i)"
proof -
  let ?m = "group_by (\<lambda>t. if tk_ParentID t \<noteq> [] then Some (tk_ParentID t, tk_ID t) else None) tasks"
  have l: "links ?m = {(tk_ParentID t, tk_ID t) | t. t \<in> set tasks \<and> tk_ParentID t \<noteq> []}"
    by (auto simp: links_def map_get_group_by set_chosen split: if_splits)
  have "set (kids ?m i) = links ?m `` {i}" by (auto simp: links_def)
  then have "set (Descendants tasks i) = (links ?m)\<^sup>* `` (links ?m `` {i})"
    by (simp add: Descendants_def Let_def walk_reach)
  then show ?thesis by (auto simp: l [symmetric] Descendants_def Let_def intro!: walk_distinct
      dest: tranclD intro: rtrancl_into_trancl2)
qed

subsection \<open>Every task is on some page\<close>

lemma page_slice_subset: "set (page_slice page sz xs) \<subseteq> set xs"
proof -
  have "set (drop a (take b xs)) \<subseteq> set xs" for a b
    using set_drop_subset [of a "take b xs"] set_take_subset [of b xs] by (rule order_trans)
  then show ?thesis unfolding page_slice_def Let_def by (cases "sz \<le> 0") simp_all
qed

lemma nth_in_slice:
  assumes "a \<le> k" "k < b" "b \<le> length xs"
  shows "xs ! k \<in> set (drop a (take b xs))"
proof -
  have "drop a (take b xs) ! (k - a) = xs ! k" using assms by simp
  moreover have "k - a < length (drop a (take b xs))" using assms by simp
  ultimately show ?thesis by (metis nth_mem)
qed

lemma page_slice_nth:
  assumes "0 < sz" "sz \<le> 2 ^ 31" "length xs < 2 ^ 31" "k < length xs"
  shows "xs ! k \<in> set (page_slice (int k div sz + 1) sz xs)"
proof -
  let ?n = "int (length xs)" and ?q = "int k div sz"
  have nk: "int k < ?n" "?n < 2 ^ 31" using assms(3,4) by auto
  have k: "int k = ?q * sz + int k mod sz" "0 \<le> int k mod sz" "int k mod sz < sz" using assms(1) by simp_all
  then have q: "0 \<le> ?q" "?q * sz \<le> int k" "int k < ?q * sz + sz"
    using assms(1) pos_imp_zdiv_nonneg_iff [of sz "int k"] by linarith+
  have "(?q + 1) * sz \<le> ?n + sz - 1" using q(2) nk(1) by (simp add: algebra_simps)
  then have total: "?q + 1 \<le> (?n + sz - 1) div sz"
    using zdiv_mono1 [of "(?q + 1) * sz" "?n + sz - 1" sz] assms(1) by simp
  have i64: "is_i64 (?n + sz)" "is_i64 (?n + sz - 1)" "is_i64 (?q * sz)" "is_i64 (?q * sz + sz)"
    using assms(1,2) nk q by (simp_all add: is_i64_def)
  have p: "min (max 1 (?q + 1)) (max 1 (wrap64 (wrap64 (?n + sz) - 1) sdiv sz)) = ?q + 1"
    using total q(1) assms(1) by (simp add: wrap64_id i64 sdiv_pos)
  have "page_slice (?q + 1) sz xs = drop (nat (min (?q * sz) ?n)) (take (nat (min (?q * sz + sz) ?n)) xs)"
    using assms(1) unfolding page_slice_def Let_def p by (simp add: wrap64_id i64)
  moreover have "nat (min (?q * sz) ?n) \<le> k" "k < nat (min (?q * sz + sz) ?n)" "nat (min (?q * sz + sz) ?n) \<le> length xs"
    using q nk(1) by linarith+
  ultimately show ?thesis using nth_in_slice by metis
qed

lemma walk_rounds: "walk m [k] (walk m ks []) = walk m (ks @ [k]) []"
  by (simp add: walk_append del: walk.simps)

lemma fold_orphans_reaches:
  "set (map tk_ID ts) \<union> set (walk m (map tk_ID roots) []) \<subseteq>
     set (walk m (map tk_ID (fold_orphans m ts roots (walk m (map tk_ID roots) []))) []) \<and>
   set (fold_orphans m ts roots (walk m (map tk_ID roots) [])) \<subseteq> set roots \<union> set ts"
proof (induction ts arbitrary: roots)
  case (Cons t ts)
  show ?case
  proof (cases "tk_ID t \<in> set (walk m (map tk_ID roots) [])")
    case True with Cons [of roots] show ?thesis by auto
  next
    case False
    have "walk m [tk_ID t] (walk m (map tk_ID roots) []) = walk m (map tk_ID (roots @ [t])) []"
      using walk_rounds [of m "tk_ID t" "map tk_ID roots"] by simp
    moreover have "insert (tk_ID t) (set (walk m (map tk_ID roots) [])) \<subseteq> set (walk m (map tk_ID (roots @ [t])) [])"
      using walk_starts [of "map tk_ID (roots @ [t])" m "[]"] walk_grows [of "walk m (map tk_ID roots) []" m "[tk_ID t]"]
        calculation by auto
    ultimately show ?thesis using False Cons [of "roots @ [t]"] by (auto simp del: walk.simps)
  qed
qed simp

lemma fold_orphans_grows:
  "length (fold_orphans m ts roots reached) \<le> length roots + length [t \<leftarrow> ts. tk_ID t \<notin> set reached]"
proof (induction ts arbitrary: roots reached)
  case (Cons t ts)
  have "length [t \<leftarrow> ts. tk_ID t \<notin> set (walk m [k] reached)] \<le> length [t \<leftarrow> ts. tk_ID t \<notin> set reached]" for k
    using walk_grows [of reached m "[k]"] by (induction ts) auto
  note fewer = this [of "tk_ID t"]
  show ?case
  proof (cases "tk_ID t \<in> set reached")
    case True with Cons [of roots reached] show ?thesis by simp
  next
    case False
    have "length (fold_orphans m ts (roots @ [t]) (walk m [tk_ID t] reached)) \<le>
        Suc (length roots) + length [t \<leftarrow> ts. tk_ID t \<notin> set reached]"
      using Cons [of "roots @ [t]" "walk m [tk_ID t] reached"] fewer by (simp del: walk.simps)
    with False show ?thesis by (simp del: walk.simps)
  qed
qed simp

lemma fold_orphans_length:
  "length (fold_orphans m tasks (roots_of tasks) (walk m (map tk_ID (roots_of tasks)) [])) \<le> length tasks"
proof -
  let ?reached = "walk m (map tk_ID (roots_of tasks)) []"
  have "length [t \<leftarrow> ts. tk_ID t \<notin> set ?reached] \<le> length [t \<leftarrow> ts. \<not> is_root tasks t]" if "set ts \<subseteq> set tasks" for ts
    using that walk_starts [of "map tk_ID (roots_of tasks)" m "[]"] by (induction ts) (auto simp: roots_of_def)
  from this [of tasks] have "length [t \<leftarrow> tasks. tk_ID t \<notin> set ?reached] \<le> length [t \<leftarrow> tasks. \<not> is_root tasks t]" by simp
  moreover have "length (roots_of tasks) = length [t \<leftarrow> tasks. is_root tasks t]" by (simp only: roots_of_def)
  ultimately show ?thesis
    using fold_orphans_grows [of m tasks "roots_of tasks" ?reached] sum_length_filter_compl [of "is_root tasks" tasks]
    by linarith
qed

text \<open>With no sub-tree collapsed and any page size, every task is on some page: nothing is lost to
  paging, not even a task in a cycle of parents.\<close>
theorem every_task_on_some_page:
  assumes "t \<in> set tasks" "distinct (map tk_ID tasks)" "0 < pageSize" "pageSize \<le> 2 ^ 31" "length tasks < 2 ^ 31"
  shows "\<exists>page. t \<in> set (map fst (fst (Page tasks mode page pageSize (\<lambda>_. False))))"
proof -
  let ?m = "children_of tasks" and ?rs = "page_roots tasks mode"
  let ?c = "child_ids ?m"
  let ?fold = "fold_orphans ?c tasks (roots_of tasks) (walk ?c (map tk_ID (roots_of tasks)) [])"
  have rs: "?rs = OrderBy ?fold mode" by (simp add: page_roots_def Let_def)
  have "tk_ID t \<in> set (walk ?c (map tk_ID ?fold) [])" using fold_orphans_reaches [of tasks ?c "roots_of tasks"] assms(1) by auto
  then obtain r where r: "r \<in> set ?rs" "(tk_ID r, tk_ID t) \<in> (links ?c)\<^sup>*"
    unfolding walk_reach by (auto simp: rs)
  then obtain k where k: "k < length ?rs" "?rs ! k = r" by (auto simp: in_set_conv_nth)
  have sub: "set ?rs \<subseteq> set tasks" using fold_orphans_reaches [of tasks ?c "roots_of tasks"] by (auto simp: rs roots_of_def)
  have len: "length ?rs < 2 ^ 31" using fold_orphans_length [of ?c tasks] assms(5) by (simp add: rs)
  let ?slice = "page_slice (int k div pageSize + 1) pageSize ?rs"
  let ?out = "visit mode (\<lambda>_. False) ?m ?slice 0 []"
  have "r \<in> set ?slice" using page_slice_nth [OF assms(3,4) len k(1)] k(2) by simp
  with r(2) have "tk_ID t \<in> set (emitted ?out)"
    unfolding visit_walk emitted_simps walk_reach by (auto simp: links_children)
  moreover have "nested tasks ?out"
  proof (rule visit_nested [OF refl])
    show "set ?slice \<subseteq> set tasks" using page_slice_subset sub by (rule order_trans)
  qed (simp_all add: nested_def)
  ultimately have "t \<in> set (map fst ?out)" using emitted_task [OF assms(2) _ assms(1)] by blast
  then show ?thesis by (auto simp: Page_def Let_def)
qed

lemma every_task_on_some_page_witness:
  "\<exists>page. sample_task ''b'' ''a'' \<in> set (map fst (fst (Page cyclic_tasks ModeManual page 1 (\<lambda>_. False))))"
  by (rule every_task_on_some_page) (simp_all add: cyclic_tasks_def sample_task_def)

text \<open>
  A task below a cycle, listed before the cycle, is folded in as a root of its own, so it is on its
  own page and again on the page of its parent.
\<close>

lemma task_on_two_pages:
  "let ts = [sample_task ''t'' ''a'', sample_task ''a'' ''b'', sample_task ''b'' ''a''] in
   map (tk_ID \<circ> fst) (fst (Page ts ModeManual 1 1 (\<lambda>_. False))) = [''t''] \<and>
   map (tk_ID \<circ> fst) (fst (Page ts ModeManual 2 1 (\<lambda>_. False))) = [''a'', ''t'', ''b'']"
  by code_simp

subsection \<open>A dropped task lands before its target\<close>

lemma SliceStable_sort_key: "SliceStable manual_lt ts = sort_key tk_Order ts"
proof -
  have "insert_stable manual_lt x ys = insort_key tk_Order x ys" for x ys
    by (induction ys) (auto simp: manual_lt_def)
  then show ?thesis by (induction ts) (simp_all add: SliceStable_def)
qed

lemma position_of_snoc: "position_of (ids @ [i]) j = (if j = i then int (length ids) else position_of ids j)"
  by (simp add: position_of_def enumerate_append_eq)

lemma position_of_nth: "distinct ids \<Longrightarrow> k < length ids \<Longrightarrow> position_of ids (ids ! k) = int k"
proof (induction ids rule: rev_induct)
  case (snoc i ids)
  then show ?case by (cases "k = length ids") (auto simp: position_of_snoc nth_append)
qed simp

lemma dropped_before_perm:
  assumes "distinct ids" "src \<in> set ids"
  shows "mset (dropped_before src tgt ids) = mset ids"
proof -
  have "mset (take n xs @ x # drop n xs) = add_mset x (mset xs)" for n x and xs :: "string list"
    by (metis append_take_drop_id mset.simps(2) mset_append union_mset_add_mset_right)
  moreover have "[i \<leftarrow> ids. i \<noteq> src] = remove1 src ids"
    using assms(1) by (simp add: distinct_remove1_removeAll removeAll_filter_not_eq eq_commute)
  ultimately show ?thesis using assms(2) by (simp add: dropped_before_def Let_def)
qed

text \<open>The tasks once the returned ones are stored.\<close>

definition stored :: "Task list \<Rightarrow> Task list \<Rightarrow> Task list" where
  "stored changed tasks = map (\<lambda>t. case find (\<lambda>u. tk_ID u = tk_ID t) changed of Some u \<Rightarrow> u | None \<Rightarrow> t) tasks"

definition manual_siblings :: "Task list \<Rightarrow> string \<Rightarrow> Task list" where
  "manual_siblings tasks p = SliceStable manual_lt [t \<leftarrow> tasks. tk_ParentID t = p]"

definition placed :: "string list \<Rightarrow> Task \<Rightarrow> Task" where
  "placed ids t = t\<lparr>tk_Order := position_of ids (tk_ID t)\<rparr>"

lemma placed_simps [simp]: "tk_ID (placed ids t) = tk_ID t" "tk_ParentID (placed ids t) = tk_ParentID t"
  "tk_Order (placed ids t) = position_of ids (tk_ID t)"
  by (simp_all add: placed_def)

definition moved :: "string list \<Rightarrow> Task list \<Rightarrow> Task list" where
  "moved ids sibs = map (placed ids) [t \<leftarrow> sibs. position_of ids (tk_ID t) \<noteq> tk_Order t]"

lemma find_moved:
  "distinct (map tk_ID sibs) \<Longrightarrow> find (\<lambda>u. tk_ID u = i) (moved ids sibs) =
     (case find (\<lambda>t. tk_ID t = i) sibs of None \<Rightarrow> None
      | Some t \<Rightarrow> if position_of ids i \<noteq> tk_Order t then Some (placed ids t) else None)"
proof (induction sibs)
  case (Cons t sibs)
  have "find (\<lambda>u. tk_ID u = tk_ID t) (moved ids sibs) = None"
    using Cons.prems by (auto simp: find_None_iff moved_def image_iff)
  with Cons show ?case by (auto simp: moved_def)
qed (simp add: moved_def)

lemma find_SomeD: "find P xs = Some x \<Longrightarrow> x \<in> set xs \<and> P x"
  by (induction xs) (auto split: if_splits)

lemma Reorder_result:
  assumes "Reorder tasks src tgt = (changed, True)"
  obtains t where "last_with src tasks = Some t"
    "changed = moved (dropped_before src tgt (map tk_ID (manual_siblings tasks (tk_ParentID t)))) (manual_siblings tasks (tk_ParentID t))"
proof -
  have mf: "List.map_filter (\<lambda>t. if position_of ids (tk_ID t) \<noteq> tk_Order t
      then Some (t\<lparr>tk_Order := position_of ids (tk_ID t)\<rparr>) else None) sibs = moved ids sibs" for ids sibs
    by (induction sibs) (simp_all add: moved_def placed_def List.map_filter_simps)
  from assms obtain t u where t: "last_with src tasks = Some t" and "last_with tgt tasks = Some u"
    by (auto simp: Reorder_def split: if_splits option.splits)
  with assms show ?thesis
    by (intro that [OF t]) (auto simp: Reorder_def Let_def mf manual_siblings_def split: if_splits)
qed

lemma sort_placed:
  assumes "distinct (map tk_ID ts)" "mset ids = mset (map tk_ID ts)"
  shows "map tk_ID (sort_key tk_Order (map (placed ids) ts)) = ids"
proof -
  define h where "h i = placed ids (the (find (\<lambda>t. tk_ID t = i) ts))" for i
  have h: "h (tk_ID t) = placed ids t" if "t \<in> set ts" for t
  proof -
    have "find (\<lambda>u. tk_ID u = tk_ID t) ts = Some t" using assms(1) that by (induction ts) auto
    then show ?thesis by (simp add: h_def)
  qed
  have "distinct ids" using assms mset_eq_imp_distinct_iff [of ids "map tk_ID ts"] by simp
  have id: "tk_ID (h i) = i" if "i \<in> set ids" for i
  proof -
    from that assms(2) have "i \<in> set (map tk_ID ts)" by (metis mset_eq_setD)
    then obtain t where "t \<in> set ts" "i = tk_ID t" by auto
    with h show ?thesis by simp
  qed
  have orders: "map (tk_Order \<circ> h) ids = map int [0..<length ids]"
  proof (rule nth_equalityI)
    fix k assume k: "k < length (map (tk_Order \<circ> h) ids)"
    have "tk_Order (h (ids ! k)) = position_of ids (tk_ID (h (ids ! k)))" by (simp add: h_def)
    with k id position_of_nth [OF \<open>distinct ids\<close>] show "map (tk_Order \<circ> h) ids ! k = map int [0..<length ids] ! k" by simp
  qed simp
  have distinct_ints: "distinct (map int [0..<length ids])" by (simp add: distinct_map)
  have "mset (map h ids) = mset (map h (map tk_ID ts))" using assms(2) by (metis mset_map)
  also have "map h (map tk_ID ts) = map (placed ids) ts" using h by simp
  finally have m: "mset (map (placed ids) ts) = mset (map h ids)" by simp
  have "distinct (map tk_Order (map h ids))" 
    using orders distinct_ints by (simp add: comp_def)
  then have "inj_on tk_Order (set (map h ids))" by (simp only: distinct_map)
  then have "inj_on tk_Order (set (map (placed ids) ts))" using m by (metis mset_eq_setD)
  moreover have "sorted (map tk_Order (map h ids))" using orders by (simp add: sorted_map sorted_wrt_map)
  ultimately have "sort_key tk_Order (map (placed ids) ts) = map h ids"
    using m by (intro sort_key_inj_key_eq) simp_all
  then show ?thesis using id by (simp add: map_idI)
qed

text \<open>After a drag and drop the manual order of the siblings is the old one with the moved task
  taken out and put back just before the target.\<close>
theorem Reorder_lands_before_target:
  assumes "distinct (map tk_ID tasks)" "Reorder tasks src tgt = (changed, True)" "t \<in> set tasks" "tk_ID t = src"
  shows "map tk_ID (manual_siblings (stored changed tasks) (tk_ParentID t)) =
    dropped_before src tgt (map tk_ID (manual_siblings tasks (tk_ParentID t)))"
proof -
  let ?p = "tk_ParentID t" and ?S = "manual_siblings tasks (tk_ParentID t)"
  let ?ids = "dropped_before src tgt (map tk_ID ?S)" and ?F = "[t' \<leftarrow> tasks. tk_ParentID t' = tk_ParentID t]"
  have msS: "mset ?S = mset ?F" by (simp add: manual_siblings_def)
  then have setS: "set ?S = set ?F" by (rule mset_eq_setD)
  have dF: "distinct (map tk_ID ?F)" using assms(1) by (simp add: distinct_map_filter)
  have dS: "distinct (map tk_ID ?S)"
    using dF mset_eq_imp_distinct_iff [of "map tk_ID ?S" "map tk_ID ?F"] msS by simp
  have same: "t' = u" if "t' \<in> set tasks" "u \<in> set tasks" "tk_ID t' = tk_ID u" for t' u
    using assms(1) that by (auto simp: distinct_map dest: inj_onD)
  from Reorder_result [OF assms(2)] obtain t0 where "last_with src tasks = Some t0"
    "changed = moved (dropped_before src tgt (map tk_ID (manual_siblings tasks (tk_ParentID t0)))) (manual_siblings tasks (tk_ParentID t0))" .
  moreover from this(1) have "t0 \<in> set tasks" "tk_ID t0 = src"
    using find_SomeD [of _ "rev tasks" t0] by (auto simp: last_with_def)
  ultimately have changed: "changed = moved ?ids ?S" using same [of t0 t] assms(3,4) by simp
  have perm: "mset ?ids = mset (map tk_ID ?S)"
    using assms(3,4) setS by (intro dropped_before_perm dS) auto
  have stored: "(case find (\<lambda>u. tk_ID u = tk_ID x) changed of Some u \<Rightarrow> u | None \<Rightarrow> x) =
      (if tk_ParentID x = ?p then placed ?ids x else x)" if x: "x \<in> set tasks" for x
  proof (cases "find (\<lambda>u. tk_ID u = tk_ID x) ?S")
    case None
    then have "tk_ParentID x \<noteq> ?p" using x setS by (auto simp: find_None_iff)
    with None show ?thesis by (simp add: changed find_moved [OF dS])
  next
    case (Some u)
    then have "u \<in> set ?S" "tk_ID u = tk_ID x" by (auto simp: find_Some_iff in_set_conv_nth)
    with x setS same [of u x] have "u = x" "tk_ParentID x = ?p" by auto
    with Some show ?thesis by (simp add: changed find_moved [OF dS] placed_def)
  qed
  have "[x \<leftarrow> stored changed tasks. tk_ParentID x = ?p] = map (placed ?ids) ?F"
  proof -
    have "stored changed tasks = map (\<lambda>x. if tk_ParentID x = ?p then placed ?ids x else x) tasks"
      unfolding stored_def using stored by (intro map_cong) auto
    moreover have "[x \<leftarrow> map (\<lambda>x. if tk_ParentID x = ?p then placed ?ids x else x) xs. tk_ParentID x = ?p] =
        map (placed ?ids) [x \<leftarrow> xs. tk_ParentID x = ?p]" for xs
      by (induction xs) auto
    ultimately show ?thesis by simp
  qed
  then have after: "manual_siblings (stored changed tasks) ?p = sort_key tk_Order (map (placed ?ids) ?F)"
    by (simp add: manual_siblings_def SliceStable_sort_key)
  have "mset ?ids = mset (map tk_ID ?F)" using perm msS by simp
  then show ?thesis unfolding after by (rule sort_placed [OF dF])
qed

lemma Reorder_lands_before_target_witness:
  "map tk_ID (manual_siblings (stored (fst (Reorder [sample_task ''a'' [], sample_task ''b'' [], sample_task ''c'' []] ''c'' ''b''))
      [sample_task ''a'' [], sample_task ''b'' [], sample_task ''c'' []]) []) = [''a'', ''c'', ''b'']"
proof -
  let ?ts = "[sample_task ''a'' [], sample_task ''b'' [], sample_task ''c'' []]"
  have "snd (Reorder ?ts ''c'' ''b'')" by code_simp
  then have "Reorder ?ts ''c'' ''b'' = (fst (Reorder ?ts ''c'' ''b''), True)" by (simp add: prod_eq_iff)
  moreover have "distinct (map tk_ID ?ts)" by (simp add: sample_task_def)
  moreover have "dropped_before ''c'' ''b'' (map tk_ID (manual_siblings ?ts [])) = [''a'', ''c'', ''b'']" by code_simp
  ultimately show ?thesis
    using Reorder_lands_before_target [of ?ts "''c''" "''b''" _ "sample_task ''c'' []"] by (simp add: sample_task_def)
qed

end
