(* ===== verification/Reconcile.thy ===== *)
theory Reconcile
  imports Domain
begin

text \<open>
  Statement reconciliation, \<open>internal/reconcile\<close>: the difference to the statement and the previews in
  their saturating and checked forms, the two conventions for the sign of a debt, the history of
  reconciliations, and the journal of a reconcile dialog (\<open>session.go\<close>), whose Cancel puts the ledger
  back. The dialog sees the ledger through the interface \<open>Ledger\<close>, the locale \<open>transaction_ledger\<close>
  here, which the table of \<open>internal/store/crud.go\<close> provides. Shows that cancelling restores the
  ledger exactly, that rows which could not be restored stay in the journal for another attempt, and
  that the checked figures are the exact ones.
\<close>

subsection \<open>The journal\<close>

text \<open>The copies that \<open>cloneTransaction\<close> makes are of no concern to values.\<close>

record Session =
  js_before :: "(string, Transaction) go_map"
  js_created :: "string list"

definition NewSession :: Session where
  "NewSession = \<lparr>js_before = [], js_created = []\<rparr>"

definition NoteBefore :: "Transaction \<Rightarrow> Session \<Rightarrow> Session" where
  "NoteBefore t s =
     (if tx_ID t = [] then s
      else if map_of (js_before s) (tx_ID t) = None then s\<lparr>js_before := map_put (tx_ID t) t (js_before s)\<rparr> else s)"

definition isCreated :: "Session \<Rightarrow> string \<Rightarrow> bool" where
  "isCreated s i \<longleftrightarrow> i \<in> set (js_created s)"

definition NoteCreated :: "string \<Rightarrow> Session \<Rightarrow> Session" where
  "NoteCreated i s = (if i = [] \<or> isCreated s i then s else s\<lparr>js_created := js_created s @ [i]\<rparr>)"

definition Touched :: "Session \<Rightarrow> bool" where
  "Touched s \<longleftrightarrow> js_before s \<noteq> [] \<or> js_created s \<noteq> []"

definition restore_ids :: "Session \<Rightarrow> string list" where
  "restore_ids s = [i \<leftarrow> map fst (js_before s). \<not> isCreated s i]"

definition Count :: "Session \<Rightarrow> nat" where
  "Count s = length (js_created s) + length (restore_ids s)"

definition Forget :: "Session \<Rightarrow> Session" where
  "Forget s = NewSession"

fun delete_created :: "(string \<Rightarrow> 'l \<Rightarrow> bool \<times> 'l) \<Rightarrow> string list \<Rightarrow> 'l \<Rightarrow> string list \<times> 'l" where
  "delete_created del [] l = ([], l)"
| "delete_created del (i # is) l =
     (let (ok, l1) = del i l; (kept, l2) = delete_created del is l1 in (if ok then kept else i # kept, l2))"

fun restore_rows ::
  "(Transaction \<Rightarrow> 'l \<Rightarrow> bool \<times> 'l) \<Rightarrow> (string, Transaction) go_map \<Rightarrow> string list \<Rightarrow> 'l \<Rightarrow>
     (string, Transaction) go_map \<times> 'l" where
  "restore_rows put before [] l = ([], l)"
| "restore_rows put before (i # is) l =
     (let t = map_get Transaction_zero before i; (ok, l1) = put t l; (kept, l2) = restore_rows put before is l1
      in (if ok then kept else (i, t) # kept, l2))"

definition Rollback ::
  "(Transaction \<Rightarrow> 'l \<Rightarrow> bool \<times> 'l) \<Rightarrow> (string \<Rightarrow> 'l \<Rightarrow> bool \<times> 'l) \<Rightarrow> Session \<Rightarrow> 'l \<Rightarrow> nat \<times> Session \<times> 'l" where
  "Rollback put del s l =
     (let (keptCreated, l1) = delete_created del (js_created s) l;
          (keptBefore, l2) = restore_rows put (js_before s) (sort (restore_ids s)) l1
      in (length keptCreated + length keptBefore, \<lparr>js_before = keptBefore, js_created = keptCreated\<rparr>, l2))"

subsection \<open>The dialog\<close>

text \<open>
  Ticking a row notes it and writes it back with its mark changed, whether or not the write works;
  posting an adjustment writes a new row, of a fresh id, and then notes it.
\<close>

datatype dialog_op = Tick string bool time | Adjust Transaction

fun dialog_step ::
  "('l \<Rightarrow> string \<Rightarrow> Transaction option) \<Rightarrow> (Transaction \<Rightarrow> 'l \<Rightarrow> bool \<times> 'l) \<Rightarrow> dialog_op \<Rightarrow> Session \<times> 'l \<Rightarrow> Session \<times> 'l" where
  "dialog_step get put (Tick i cleared now) (s, l) = (case get l i of None \<Rightarrow> (s, l)
     | Some t \<Rightarrow> (NoteBefore t s, snd (put (MarkCleared t cleared now) l)))"
| "dialog_step get put (Adjust t) (s, l) =
     (if get l (tx_ID t) \<noteq> None then (s, l)
      else let (ok, l') = put t l in (if ok then NoteCreated (tx_ID t) s else s, l'))"

definition run_dialog ::
  "('l \<Rightarrow> string \<Rightarrow> Transaction option) \<Rightarrow> (Transaction \<Rightarrow> 'l \<Rightarrow> bool \<times> 'l) \<Rightarrow> dialog_op list \<Rightarrow> Session \<times> 'l \<Rightarrow> Session \<times> 'l" where
  "run_dialog get put ops sl = foldl (\<lambda>sl p. dialog_step get put p sl) sl ops"

text \<open>What the journal knows of the ledger the dialog started from.\<close>

definition in_journal :: "Session \<Rightarrow> string \<Rightarrow> bool" where
  "in_journal s i \<longleftrightarrow> i \<in> set (js_created s) \<or> map_of (js_before s) i \<noteq> None"

definition journal_ok ::
  "(Transaction \<Rightarrow> Transaction) \<Rightarrow> (string \<Rightarrow> Transaction option) \<Rightarrow> Session \<Rightarrow> (string \<Rightarrow> Transaction option) \<Rightarrow> bool" where
  "journal_ok clean start s now \<longleftrightarrow> map_ok (js_before s) \<and> distinct (js_created s) \<and>
     (\<forall>i. (i \<in> set (js_created s) \<longrightarrow> start i = None) \<and>
        (\<forall>t. i \<notin> set (js_created s) \<longrightarrow> map_of (js_before s) i = Some t \<longrightarrow> start i = Some t \<and> tx_ID t = i \<and> clean t = t) \<and>
        (\<not> in_journal s i \<longrightarrow> now i = start i) \<and>
        (in_journal s i \<longrightarrow> now i \<noteq> None))"

lemma journal_okI:
  assumes "map_ok (js_before s)" "distinct (js_created s)" "\<And>i. i \<in> set (js_created s) \<Longrightarrow> start i = None"
    "\<And>i t. i \<notin> set (js_created s) \<Longrightarrow> map_of (js_before s) i = Some t \<Longrightarrow> start i = Some t \<and> tx_ID t = i \<and> clean t = t"
    "\<And>i. \<not> in_journal s i \<Longrightarrow> now i = start i" "\<And>i. in_journal s i \<Longrightarrow> now i \<noteq> None"
  shows "journal_ok clean start s now"
  using assms unfolding journal_ok_def by blast

lemma journal_okD:
  assumes "journal_ok clean start s now"
  shows "map_ok (js_before s)" "distinct (js_created s)" "i \<in> set (js_created s) \<Longrightarrow> start i = None"
    "i \<notin> set (js_created s) \<Longrightarrow> map_of (js_before s) i = Some t \<Longrightarrow> start i = Some t \<and> tx_ID t = i \<and> clean t = t"
    "\<not> in_journal s i \<Longrightarrow> now i = start i" "in_journal s i \<Longrightarrow> now i \<noteq> None"
  using assms unfolding journal_ok_def by blast+

lemma NoteBefore_map:
  "tx_ID t \<noteq> [] \<Longrightarrow> map_of (js_before (NoteBefore t s)) =
     (if map_of (js_before s) (tx_ID t) = None then (map_of (js_before s))(tx_ID t \<mapsto> t) else map_of (js_before s))"
  "js_created (NoteBefore t s) = js_created s"
  "map_ok (js_before s) \<Longrightarrow> map_ok (js_before (NoteBefore t s))"
  by (auto simp: NoteBefore_def update_conv' distinct_update)

subsection \<open>The interface of the ledger\<close>

text \<open>
  A write either happens, storing the row in its clean form under its id, or leaves the ledger as it
  was; a delete likewise. Rows have the id they are stored under, which is not empty, and are clean.
\<close>

locale transaction_ledger =
  fixes get :: "'l \<Rightarrow> string \<Rightarrow> Transaction option"
    and put :: "Transaction \<Rightarrow> 'l \<Rightarrow> bool \<times> 'l"
    and del :: "string \<Rightarrow> 'l \<Rightarrow> bool \<times> 'l"
    and clean :: "Transaction \<Rightarrow> Transaction"
    and valid :: "'l \<Rightarrow> bool"
  assumes put_done: "valid l \<Longrightarrow> put t l = (True, l') \<Longrightarrow> get l' = (get l)(tx_ID t \<mapsto> clean t)"
    and put_refused: "valid l \<Longrightarrow> put t l = (False, l') \<Longrightarrow> get l' = get l"
    and del_done: "valid l \<Longrightarrow> del i l = (True, l') \<Longrightarrow> get l' = (get l)(i := None)"
    and del_refused: "valid l \<Longrightarrow> del i l = (False, l') \<Longrightarrow> get l' = get l"
    and valid_put: "valid l \<Longrightarrow> put t l = (ok, l') \<Longrightarrow> valid l'"
    and valid_del: "valid l \<Longrightarrow> del i l = (ok, l') \<Longrightarrow> valid l'"
    and rows: "valid l \<Longrightarrow> get l i = Some t \<Longrightarrow> tx_ID t = i \<and> i \<noteq> [] \<and> clean t = t"
begin

lemma journal_start: "journal_ok clean (get l) NewSession (get l)"
  by (simp add: journal_ok_def NewSession_def in_journal_def)

lemma tick_ok:
  assumes "valid l" "journal_ok clean start s (get l)" "get l i = Some t" "put (MarkCleared t cleared now) l = (ok, l')"
  shows "journal_ok clean start (NoteBefore t s) (get l')"
proof -
  from rows [OF assms(1,3)] have t: "tx_ID t = i" "i \<noteq> []" "clean t = t" by auto
  have "tx_ID (MarkCleared t cleared now) = i" using t(1) by (simp add: MarkCleared_def Let_def)
  then have others: "j \<noteq> i \<Longrightarrow> get l' j = get l j" and here: "get l' i \<noteq> None" for j
    using put_done [OF assms(1)] put_refused [OF assms(1)] assms(3,4) by (cases ok; force)+
  note J = journal_okD [OF assms(2)] and N = NoteBefore_map(1) [of t s]
  have ij: "in_journal (NoteBefore t s) j \<longleftrightarrow> j = i \<or> in_journal s j" for j
    using t N by (auto simp: in_journal_def NoteBefore_map(2))
  show ?thesis
  proof (rule journal_okI)
    fix j u assume "j \<notin> set (js_created (NoteBefore t s))" "map_of (js_before (NoteBefore t s)) j = Some u"
    then have j: "j \<notin> set (js_created s)" "map_of (js_before s) j = Some u \<or> j = i \<and> u = t \<and> map_of (js_before s) i = None"
      using t N by (auto simp: NoteBefore_map(2) split: if_splits)
    show "start j = Some u \<and> tx_ID u = j \<and> clean u = u"
    proof (cases "map_of (js_before s) j = Some u")
      case True with J(4) j(1) show ?thesis by blast
    next
      case False
      with j have "\<not> in_journal s i" "j = i" "u = t" by (auto simp: in_journal_def)
      with J(5) [of i] assms(3) t show ?thesis by simp
    qed
  next
    fix j assume "\<not> in_journal (NoteBefore t s) j"
    then show "get l' j = start j" using J(5) others ij by simp
  next
    fix j assume "in_journal (NoteBefore t s) j"
    then show "get l' j \<noteq> None" using J(6) [of j] others here ij by (cases "j = i") auto
  qed (use J in \<open>auto simp: NoteBefore_map(2,3)\<close>)
qed

lemma adjust_ok:
  assumes "valid l" "journal_ok clean start s (get l)" "get l (tx_ID t) = None" "put t l = (ok, l')"
  shows "journal_ok clean start (if ok then NoteCreated (tx_ID t) s else s) (get l')"
proof (cases ok)
  case False with assms put_refused [OF assms(1)] show ?thesis by simp
next
  case True
  note J = journal_okD [OF assms(2)]
  have "put t l = (True, l')" using True assms(4) by simp
  from put_done [OF assms(1) this] have get': "get l' = (get l)(tx_ID t \<mapsto> clean t)" .
  then have "tx_ID t \<noteq> []" using rows [OF valid_put [OF assms(1,4)], of "tx_ID t" "clean t"] by simp
  moreover have new: "\<not> in_journal s (tx_ID t)" using J(6) assms(3) by blast
  ultimately have s': "js_created (NoteCreated (tx_ID t) s) = js_created s @ [tx_ID t]" "js_before (NoteCreated (tx_ID t) s) = js_before s"
    by (auto simp: NoteCreated_def isCreated_def in_journal_def)
  have ij: "in_journal (NoteCreated (tx_ID t) s) j \<longleftrightarrow> j = tx_ID t \<or> in_journal s j" for j
    by (auto simp: in_journal_def s')
  have start: "start (tx_ID t) = None" using J(5) [OF new] assms(3) by simp
  have "journal_ok clean start (NoteCreated (tx_ID t) s) (get l')"
  proof (rule journal_okI)
    show "distinct (js_created (NoteCreated (tx_ID t) s))" using J(2) new by (auto simp: s' in_journal_def)
    fix j assume "in_journal (NoteCreated (tx_ID t) s) j"
    then show "get l' j \<noteq> None" using J(6) [of j] ij by (auto simp: get')
  next
    fix j assume "\<not> in_journal (NoteCreated (tx_ID t) s) j"
    then show "get l' j = start j" using J(5) [of j] ij by (auto simp: get')
  qed (use J start in \<open>auto simp: s'\<close>)
  with True show ?thesis by simp
qed

lemma step_ok:
  assumes "valid l" "journal_ok clean start s (get l)" "dialog_step get put p (s, l) = (s', l')"
  shows "valid l' \<and> journal_ok clean start s' (get l')"
proof (cases p)
  case (Tick i cleared now)
  show ?thesis
  proof (cases "get l i")
    case None with assms Tick show ?thesis by simp
  next
    case (Some t)
    obtain ok l2 where put: "put (MarkCleared t cleared now) l = (ok, l2)" by fastforce
    with assms(3) Tick Some tick_ok [OF assms(1,2) Some put] valid_put [OF assms(1) put] show ?thesis by simp
  qed
next
  case (Adjust t)
  show ?thesis
  proof (cases "get l (tx_ID t)")
    case (Some u) with assms Adjust show ?thesis by simp
  next
    case None
    obtain ok l2 where put: "put t l = (ok, l2)" by fastforce
    with assms(3) Adjust None adjust_ok [OF assms(1,2) None put] valid_put [OF assms(1) put] show ?thesis by simp
  qed
qed

lemma run_ok:
  "valid l \<Longrightarrow> journal_ok clean start s (get l) \<Longrightarrow> run_dialog get put ops (s, l) = (s', l') \<Longrightarrow>
     valid l' \<and> journal_ok clean start s' (get l')"
proof (induction ops arbitrary: s l)
  case (Cons p ops)
  obtain s1 l1 where step: "dialog_step get put p (s, l) = (s1, l1)" by fastforce
  from step_ok [OF Cons.prems(1,2) step] Cons.IH [of l1 s1] Cons.prems(3) step show ?case by (simp add: run_dialog_def)
qed (simp add: run_dialog_def)

text \<open>What the two loops of a rollback do.\<close>

lemma delete_created_facts:
  "valid l \<Longrightarrow> distinct is \<Longrightarrow> delete_created del is l = (kept, l') \<Longrightarrow>
     valid l' \<and> set kept \<subseteq> set is \<and> distinct kept \<and> get l' = (\<lambda>i. if i \<in> set is - set kept then None else get l i)"
proof (induction "is" arbitrary: l kept l')
  case (Cons i "is")
  obtain ok l1 where d: "del i l = (ok, l1)" by fastforce
  obtain kept1 l2 where r: "delete_created del is l1 = (kept1, l2)" by fastforce
  have v: "valid l1" using valid_del [OF Cons.prems(1) d] .
  from Cons.IH [OF v _ r] Cons.prems(2) have IH: "valid l2" "set kept1 \<subseteq> set is" "distinct kept1"
    "get l2 = (\<lambda>j. if j \<in> set is - set kept1 then None else get l1 j)" by auto
  show ?case
  proof (cases ok)
    case True
    with Cons.prems d r IH del_done [OF Cons.prems(1), of i l1] show ?thesis by (auto simp: fun_eq_iff)
  next
    case False
    with Cons.prems d r IH del_refused [OF Cons.prems(1), of i l1] show ?thesis by (auto simp: fun_eq_iff)
  qed
qed (auto simp: fun_eq_iff)

lemma restore_rows_facts:
  "valid l \<Longrightarrow> distinct is \<Longrightarrow> (\<And>i. i \<in> set is \<Longrightarrow> tx_ID (map_get Transaction_zero before i) = i) \<Longrightarrow>
   restore_rows put before is l = (kept, l') \<Longrightarrow>
     valid l' \<and> fst ` set kept \<subseteq> set is \<and> map_ok kept \<and>
     (\<forall>i t. map_of kept i = Some t \<longrightarrow> t = map_get Transaction_zero before i) \<and>
     get l' = (\<lambda>i. if i \<in> set is - fst ` set kept then Some (clean (map_get Transaction_zero before i)) else get l i)"
proof (induction "is" arbitrary: l kept l')
  case (Cons i "is")
  let ?t = "map_get Transaction_zero before i"
  obtain ok l1 where d: "put ?t l = (ok, l1)" by fastforce
  obtain kept1 l2 where r: "restore_rows put before is l1 = (kept1, l2)" by fastforce
  have v: "valid l1" using valid_put [OF Cons.prems(1) d] .
  from Cons.IH [OF v _ _ r] Cons.prems(2,3) have IH: "valid l2" "fst ` set kept1 \<subseteq> set is" "map_ok kept1"
    "\<forall>i t. map_of kept1 i = Some t \<longrightarrow> t = map_get Transaction_zero before i"
    "get l2 = (\<lambda>i. if i \<in> set is - fst ` set kept1 then Some (clean (map_get Transaction_zero before i)) else get l1 i)"
    by auto
  have id: "tx_ID ?t = i" using Cons.prems(3) by simp
  show ?case
  proof (cases ok)
    case True
    with Cons.prems d r IH id put_done [OF Cons.prems(1), of ?t l1] show ?thesis by (auto simp: fun_eq_iff Let_def)
  next
    case False
    have "a \<in> set is" if "(a, b) \<in> set kept1" for a b using IH(2) that by force
    with False Cons.prems d r IH put_refused [OF Cons.prems(1), of ?t l1] show ?thesis
      by (auto simp: fun_eq_iff Let_def split: if_splits)
  qed
qed (auto simp: fun_eq_iff)

lemma restore_ids_set:
  "set (restore_ids s) = {i. map_of (js_before s) i \<noteq> None \<and> i \<notin> set (js_created s)}"
  by (auto simp: restore_ids_def isCreated_def map_of_eq_None_iff)

lemma rollback_facts:
  assumes "valid l" "journal_ok clean start s (get l)" "Rollback put del s l = (failed, s', l')"
  shows "valid l'" "journal_ok clean start s' (get l')" "failed = Count s'"
proof -
  note J = journal_okD [OF assms(2)]
  let ?ids = "sort (restore_ids s)"
  obtain kc l1 where d: "delete_created del (js_created s) l = (kc, l1)" by fastforce
  obtain kb l2 where r: "restore_rows put (js_before s) ?ids l1 = (kb, l2)" by fastforce
  from assms(3) d r have res: "failed = length kc + length kb" "s' = \<lparr>js_before = kb, js_created = kc\<rparr>" "l' = l2"
    by (simp_all add: Rollback_def)
  note D = delete_created_facts [OF assms(1) J(2) d]
  have "distinct ?ids" using J(1) by (simp add: restore_ids_def)
  moreover have before: "map_get Transaction_zero (js_before s) i = t" if "map_of (js_before s) i = Some t" for i t
    using that by (simp add: map_get_def)
  moreover have "tx_ID (map_get Transaction_zero (js_before s) i) = i" if "i \<in> set ?ids" for i
    using that J(4) before by (auto simp: restore_ids_set)
  ultimately have R: "valid l2" "fst ` set kb \<subseteq> set (restore_ids s)" "map_ok kb"
    "\<And>i t. map_of kb i = Some t \<Longrightarrow> t = map_get Transaction_zero (js_before s) i"
    "get l2 = (\<lambda>i. if i \<in> set (restore_ids s) - fst ` set kb then Some (clean (map_get Transaction_zero (js_before s) i)) else get l1 i)"
    using restore_rows_facts [OF _ _ _ r] D by auto
  have kb: "map_of kb i \<noteq> None \<longleftrightarrow> i \<in> fst ` set kb" for i by (simp add: map_of_eq_None_iff)
  have old: "map_of (js_before s) i \<noteq> None" "i \<notin> set (js_created s)" if "map_of kb i \<noteq> None" for i
    using that kb R(2) restore_ids_set by blast+
  show "valid l'" using R(1) res(3) by simp
  show "journal_ok clean start s' (get l')"
  proof (rule journal_okI)
    show "map_ok (js_before s')" "distinct (js_created s')" using R(3) D res(2) by simp_all
    show "start i = None" if "i \<in> set (js_created s')" for i using that J(3) D res(2) by auto
    show "start i = Some t \<and> tx_ID t = i \<and> clean t = t" if "map_of (js_before s') i = Some t" for i t
    proof -
      from that res(2) have k: "map_of kb i = Some t" by simp
      with old obtain u where u: "map_of (js_before s) i = Some u" "i \<notin> set (js_created s)" by fastforce
      with R(4) [OF k] before have "t = u" by simp
      with J(4) u show ?thesis by blast
    qed
    show "get l' i = start i" if "\<not> in_journal s' i" for i
    proof -
      from that res(2) have "i \<notin> set kc" "map_of kb i = None" by (simp_all add: in_journal_def)
      then have out: "i \<notin> set kc" "i \<notin> fst ` set kb" using kb [of i] by simp_all
      consider (created) "i \<in> set (js_created s)" | (noted) "i \<in> set (restore_ids s)" | (other) "\<not> in_journal s i"
        unfolding in_journal_def restore_ids_set by blast
      then show ?thesis
      proof cases
        case created
        then have "i \<notin> set (restore_ids s)" by (simp add: restore_ids_set)
        with created out D R(5) res(3) J(3) show ?thesis by simp
      next
        case noted
        then obtain t where "map_of (js_before s) i = Some t" "i \<notin> set (js_created s)" by (auto simp: restore_ids_set)
        with noted out R(5) res(3) J(4) before show ?thesis by simp
      next
        case other
        then have "i \<notin> set (js_created s)" "i \<notin> set (restore_ids s)" by (auto simp: in_journal_def restore_ids_set)
        with other R(5) D res(3) J(5) show ?thesis by simp
      qed
    qed
    show "get l' i \<noteq> None" if "in_journal s' i" for i
    proof -
      from that res(2) old have "in_journal s i" and "i \<in> set kc \<or> i \<notin> set (js_created s)"
        using D by (auto simp: in_journal_def)
      with J(6) D R(5) res(3) show ?thesis by auto
    qed
  qed
  have "i \<notin> set kc" if "i \<in> fst ` set kb" for i using old(2) [of i] kb [of i] that D by auto
  then have "[i \<leftarrow> map fst kb. i \<notin> set kc] = map fst kb" by (intro filter_True) auto
  then show "failed = Count s'" by (simp add: res Count_def restore_ids_def isCreated_def)
qed

end

subsection \<open>The table of transactions\<close>

text \<open>
  The table \<open>transactions\<close> of the store, with the ids whose writes the database refuses at present.
  The JSON of a row is taken to hold exactly its fields.
\<close>

record txn_table =
  tt_rows :: "(string, Transaction) go_map"
  tt_refused :: "string \<Rightarrow> bool"

definition GetTransaction :: "txn_table \<Rightarrow> string \<Rightarrow> Transaction option" where
  "GetTransaction st i = map_of (tt_rows st) i"

definition PutTransaction :: "Transaction \<Rightarrow> txn_table \<Rightarrow> bool \<times> txn_table" where
  "PutTransaction t st = (let t' = NormalizeOwners t in
     if tx_ID t' = [] \<or> tt_refused st (tx_ID t') then (False, st)
     else (True, st\<lparr>tt_rows := map_put (tx_ID t') t' (tt_rows st)\<rparr>))"

definition DeleteTransaction :: "string \<Rightarrow> txn_table \<Rightarrow> bool \<times> txn_table" where
  "DeleteTransaction i st =
     (if tt_refused st i then (False, st) else (True, st\<lparr>tt_rows := AList.delete i (tt_rows st)\<rparr>))"

definition table_ok :: "txn_table \<Rightarrow> bool" where
  "table_ok st \<longleftrightarrow> list_all (\<lambda>(i, t). tx_ID t = i \<and> i \<noteq> [] \<and> NormalizeOwners t = t) (tt_rows st)"

lemma NormalizeOwners_ID [simp]: "tx_ID (NormalizeOwners t) = tx_ID t"
  by (simp add: NormalizeOwners_def Let_def)

lemma table_put:
  "list_all P m \<Longrightarrow> P (i, t) \<Longrightarrow> list_all P (map_put i t m)"
  by (induction m) auto

lemma table_delete: "list_all P m \<Longrightarrow> list_all P (AList.delete i m)"
  by (simp add: AList.delete_eq list_all_iff)

interpretation store: transaction_ledger GetTransaction PutTransaction DeleteTransaction NormalizeOwners table_ok
proof unfold_locales
  show "GetTransaction l' = (GetTransaction l)(tx_ID t \<mapsto> NormalizeOwners t)" if "PutTransaction t l = (True, l')" for t l l'
    using that by (auto simp: PutTransaction_def GetTransaction_def update_conv' Let_def split: if_splits)
  show "GetTransaction l' = (GetTransaction l)(i := None)" if "DeleteTransaction i l = (True, l')" for i l l'
    using that by (auto simp: DeleteTransaction_def GetTransaction_def delete_conv' split: if_splits)
  show "table_ok l'" if "table_ok l" "PutTransaction t l = (ok, l')" for t l ok l'
    using that NormalizeOwners_canonical(2) [of t]
    by (auto simp: PutTransaction_def table_ok_def Let_def intro!: table_put split: if_splits)
  show "table_ok l'" if "table_ok l" "DeleteTransaction i l = (ok, l')" for i l ok l'
    using that by (auto simp: DeleteTransaction_def table_ok_def table_delete split: if_splits)
  show "tx_ID t = i \<and> i \<noteq> [] \<and> NormalizeOwners t = t" if "table_ok l" "GetTransaction l i = Some t" for l i t
    using that by (auto simp: table_ok_def GetTransaction_def list_all_iff dest: map_of_SomeD)
qed (auto simp: PutTransaction_def DeleteTransaction_def Let_def split: if_splits)

lemma refused_irrelevant [simp]:
  "GetTransaction (l\<lparr>tt_refused := down\<rparr>) = GetTransaction l" "table_ok (l\<lparr>tt_refused := down\<rparr>) = table_ok l"
  by (simp_all add: GetTransaction_def fun_eq_iff table_ok_def)

lemma delete_all_served:
  "tt_refused l = (\<lambda>_. False) \<Longrightarrow> fst (delete_created DeleteTransaction is l) = [] \<and>
     tt_refused (snd (delete_created DeleteTransaction is l)) = (\<lambda>_. False)"
  by (induction "is" arbitrary: l) (simp_all add: DeleteTransaction_def Let_def case_prod_unfold)

lemma restore_all_served:
  "tt_refused l = (\<lambda>_. False) \<Longrightarrow> (\<And>i. i \<in> set is \<Longrightarrow> tx_ID (map_get Transaction_zero before i) \<noteq> []) \<Longrightarrow>
     fst (restore_rows PutTransaction before is l) = []"
  by (induction "is" arbitrary: l) (simp_all add: PutTransaction_def Let_def case_prod_unfold)

lemma empty_journal:
  assumes "Count s = 0"
  shows "\<not> in_journal s i"
proof -
  from assms have "js_created s = []" "restore_ids s = []" by (simp_all add: Count_def)
  then have "js_before s = []" by (simp add: restore_ids_def isCreated_def)
  with \<open>js_created s = []\<close> show ?thesis by (simp add: in_journal_def)
qed


definition blank_row :: "string \<Rightarrow> Transaction" where
  "blank_row i = Transaction_zero\<lparr>tx_ID := i\<rparr>"

definition sample_ledger :: txn_table where
  "sample_ledger = \<lparr>tt_rows = [(''x'', blank_row ''x'')], tt_refused = (\<lambda>_. False)\<rparr>"

definition sample_dialog :: "dialog_op list" where
  "sample_dialog = [Tick ''x'' True 7, Adjust (blank_row ''n'')]"


subsection \<open>Differences and previews\<close>

definition saturatingAdd :: "int \<Rightarrow> int \<Rightarrow> int" where
  "saturatingAdd a b = (case Add a b of Inr tot \<Rightarrow> tot | Inl e \<Rightarrow> if b > 0 then max_i64 else min_i64)"

definition saturatingSub :: "int \<Rightarrow> int \<Rightarrow> int" where
  "saturatingSub a b = (case Sub a b of Inr diff \<Rightarrow> diff | Inl e \<Rightarrow> if b < 0 then max_i64 else min_i64)"

record Result =
  rs_DifferenceMinor :: int
  rs_Reconciled :: bool

definition Diff :: "int \<Rightarrow> int \<Rightarrow> Result" where
  "Diff cleared statement = \<lparr>rs_DifferenceMinor = saturatingSub statement cleared, rs_Reconciled = (statement = cleared)\<rparr>"

definition DiffChecked :: "int \<Rightarrow> int \<Rightarrow> money_error + Result" where
  "DiffChecked cleared statement =
     bindE (Sub statement cleared) (\<lambda>diff. Inr \<lparr>rs_DifferenceMinor = diff, rs_Reconciled = (diff = 0)\<rparr>)"

record DeltaPreview =
  dp_CurrentMinor :: int
  dp_TargetMinor :: int
  dp_AdjustmentMinor :: int
  dp_NeedsAdjustment :: bool

definition newDeltaPreview :: "int \<Rightarrow> int \<Rightarrow> int \<Rightarrow> DeltaPreview" where
  "newDeltaPreview current target adj =
     \<lparr>dp_CurrentMinor = current, dp_TargetMinor = target, dp_AdjustmentMinor = adj, dp_NeedsAdjustment = (adj \<noteq> 0)\<rparr>"

definition PreviewDelta :: "int \<Rightarrow> int \<Rightarrow> DeltaPreview" where
  "PreviewDelta current target = newDeltaPreview current target (saturatingSub target current)"

definition PreviewDeltaChecked :: "int \<Rightarrow> int \<Rightarrow> money_error + DeltaPreview" where
  "PreviewDeltaChecked current target = bindE (Sub target current) (\<lambda>adj. Inr (newDeltaPreview current target adj))"

record BulkClear =
  bc_Count :: nat
  bc_SumMinor :: int
  bc_ProjectedClearedMinor :: int
  bc_Result :: Result

definition PreviewBulkClear :: "int \<Rightarrow> int \<Rightarrow> int list \<Rightarrow> BulkClear" where
  "PreviewBulkClear cleared statement amounts =
     (let tot = foldl saturatingAdd 0 amounts; projected = saturatingAdd cleared tot
      in \<lparr>bc_Count = length amounts, bc_SumMinor = tot, bc_ProjectedClearedMinor = projected,
          bc_Result = Diff projected statement\<rparr>)"

definition PreviewBulkClearChecked :: "int \<Rightarrow> int \<Rightarrow> int list \<Rightarrow> money_error + BulkClear" where
  "PreviewBulkClearChecked cleared statement amounts =
     bindE (SumMinor amounts) (\<lambda>tot. bindE (Add cleared tot) (\<lambda>projected. bindE (DiffChecked projected statement) (\<lambda>result.
       Inr \<lparr>bc_Count = length amounts, bc_SumMinor = tot, bc_ProjectedClearedMinor = projected, bc_Result = result\<rparr>)))"

lemma saturatingAdd_Inr: "Add a b = Inr c \<Longrightarrow> saturatingAdd a b = c"
  by (simp add: saturatingAdd_def)

lemma saturating_sum: "foldE Add acc xs = Inr tot \<Longrightarrow> foldl saturatingAdd acc xs = tot"
  by (induction xs arbitrary: acc) (auto simp: bindE_Inr_iff saturatingAdd_Inr)

lemma foldE_Add_range: "foldE Add acc xs = Inr tot \<Longrightarrow> is_i64 acc \<Longrightarrow> list_all is_i64 xs \<Longrightarrow> is_i64 tot"
  by (induction xs arbitrary: acc) (auto simp: bindE_Inr_iff Add_exact split: if_splits)

lemma DiffChecked_Diff: "is_i64 c \<Longrightarrow> is_i64 t \<Longrightarrow> DiffChecked c t = Inr r \<Longrightarrow> Diff c t = r"
  by (auto simp: DiffChecked_def Diff_def bindE_Inr_iff saturatingSub_def Sub_exact split: if_splits)

text \<open>When the checked preview gives figures, the plain preview gives the same.\<close>

lemma checked_preview_agrees:
  assumes "PreviewBulkClearChecked cleared statement amounts = Inr r" "is_i64 cleared" "is_i64 statement" "list_all is_i64 amounts"
  shows "PreviewBulkClear cleared statement amounts = r"
proof -
  from assms(1) obtain tot projected result where *:
    "foldE Add 0 amounts = Inr tot" "Add cleared tot = Inr projected" "DiffChecked projected statement = Inr result"
    "r = \<lparr>bc_Count = length amounts, bc_SumMinor = tot, bc_ProjectedClearedMinor = projected, bc_Result = result\<rparr>"
    by (auto simp: PreviewBulkClearChecked_def SumMinor_def bindE_Inr_iff)
  have "is_i64 tot" using foldE_Add_range [OF *(1) _ assms(4)] by (simp add: is_i64_def)
  then have "is_i64 projected" using *(2) assms(2) by (auto simp: Add_exact split: if_splits)
  from \<open>is_i64 projected\<close> *(3) assms(3) have "Diff projected statement = result" by (metis DiffChecked_Diff)
  with * show ?thesis by (simp add: PreviewBulkClear_def saturating_sum saturatingAdd_Inr)
qed

text \<open>
  The plain preview saturates at every step, so amounts whose sum is in range can give a wrong figure
  and a wrong verdict, in an order-dependent way.
\<close>

lemma saturation_is_not_final:
  "sum_list [max_i64, 1, - 1] = max_i64 \<and>
   bc_SumMinor (PreviewBulkClear 0 (max_i64 - 1) [max_i64, 1, - 1]) = max_i64 - 1 \<and>
   rs_Reconciled (bc_Result (PreviewBulkClear 0 (max_i64 - 1) [max_i64, 1, - 1])) \<and>
   bc_SumMinor (PreviewBulkClear 0 (max_i64 - 1) [max_i64, - 1, 1]) = max_i64"
  by code_simp

subsection \<open>The sign of a debt\<close>

datatype Convention = PositiveOwed | NegativeOwed | AsStated

definition ConventionOf :: "Account \<Rightarrow> int \<Rightarrow> Convention \<times> bool" where
  "ConventionOf acc booked =
     (if acc_Class acc \<noteq> ClassLiability then (AsStated, True)
      else if acc_LiabilitySign acc = LiabilityPositiveOwed then (PositiveOwed, True)
      else if acc_LiabilitySign acc = LiabilityNegativeOwed then (NegativeOwed, True)
      else let opening = Amount (acc_OpeningBalance acc)
        in if opening \<noteq> 0 then (if opening > 0 then PositiveOwed else NegativeOwed, True)
        else if booked > 0 then (PositiveOwed, False)
        else if booked < 0 then (NegativeOwed, False)
        else (PositiveOwed, False))"

definition negateSaturating :: "int \<Rightarrow> int" where
  "negateSaturating v = (if v = min_i64 then max_i64 else - v)"

definition Stated :: "int \<Rightarrow> Convention \<Rightarrow> int" where
  "Stated stored c = (if c = PositiveOwed then negateSaturating stored else stored)"

definition ConventionFor :: "Account \<Rightarrow> Convention" where
  "ConventionFor acc =
     (if \<not> Account_IsLiability acc then AsStated
      else if InflowSign acc < 0 then PositiveOwed else NegativeOwed)"

definition Stored :: "int \<Rightarrow> Convention \<Rightarrow> int" where
  "Stored stated c = (if c = PositiveOwed then negateSaturating stated else stated)"

record Display =
  dy_Balance :: Money
  dy_Cleared :: Money
  dy_ShowCleared :: bool

definition DisplayBalance :: "Account \<Rightarrow> Money \<Rightarrow> Money \<Rightarrow> Display" where
  "DisplayBalance a balance cleared =
     (let show = IsReconcilable (acc_Type a) \<and> Amount cleared \<noteq> Amount balance
      in if acc_Class a = ClassLiability then
        let conv = fst (ConventionOf a (Amount balance))
        in \<lparr>dy_Balance = balance\<lparr>Amount := Stated (Amount balance) conv\<rparr>,
            dy_Cleared = cleared\<lparr>Amount := Stated (Amount cleared) conv\<rparr>, dy_ShowCleared = show\<rparr>
      else \<lparr>dy_Balance = balance, dy_Cleared = cleared, dy_ShowCleared = show\<rparr>)"

definition OwedMinor :: "int \<Rightarrow> int" where
  "OwedMinor stated = (if stated \<ge> 0 then 0 else if stated = min_i64 then max_i64 else - stated)"

definition StatedOwed :: "int \<Rightarrow> int" where
  "StatedOwed owed = (if owed = min_i64 then min_i64 else let owed = (if owed < 0 then - owed else owed) in - owed)"

datatype Shape = ShapeNone | ShapeDebtFalls | ShapeDebtRises | ShapeOther

definition ClassifyChange :: "int \<Rightarrow> int \<Rightarrow> Shape" where
  "ClassifyChange current target =
     (if current = target then ShapeNone
      else if current < 0 \<and> target < 0 \<and> target > current then ShapeDebtFalls
      else if current < 0 \<and> target < 0 then ShapeDebtRises
      else ShapeOther)"

definition LooksLikeUnsignedDebt :: "int \<Rightarrow> int \<Rightarrow> bool" where
  "LooksLikeUnsignedDebt current typed \<longleftrightarrow> current < 0 \<and> typed > 0"

definition Uncleared :: "string \<Rightarrow> Transaction list \<Rightarrow> Transaction list" where
  "Uncleared account txns = [t \<leftarrow> txns. tx_AccountID t = account \<and> \<not> tx_Cleared t]"

text \<open>
  What is typed in the stated convention comes back from storage as it was typed, the least integer
  apart; and the two readings of an account's convention agree wherever the first one is not a guess.
\<close>

lemma Stated_Stored: "v \<noteq> min_i64 \<Longrightarrow> is_i64 v \<Longrightarrow> Stated (Stored v c) c = v \<and> Stored (Stated v c) c = v"
  by (auto simp: Stated_def Stored_def negateSaturating_def is_i64_def)

lemma Stated_Stored_least: "Stated (Stored min_i64 PositiveOwed) PositiveOwed = min_i64 + 1"
  by (simp add: Stated_def Stored_def negateSaturating_def)

lemma conventions_agree:
  assumes "ConventionOf acc booked = (c, True)"
    "acc_LiabilitySign acc \<in> {[], LiabilityPositiveOwed, LiabilityNegativeOwed}"
  shows "ConventionFor acc = c"
  using assms
  by (auto simp: ConventionOf_def ConventionFor_def InflowSign_def Account_IsLiability_def WithLiabilitySign_def Let_def
      split: if_splits)

lemma OwedMinor_StatedOwed: "is_i64 owed \<Longrightarrow> owed \<noteq> min_i64 \<Longrightarrow> OwedMinor (StatedOwed owed) = \<bar>owed\<bar>"
  by (auto simp: OwedMinor_def StatedOwed_def is_i64_def Let_def)

subsection \<open>The history of reconciliations\<close>

definition MaxHistory :: nat where "MaxHistory = 36"

text \<open>\<open>sort.Search\<close> of the standard library: the least index at which a monotone test holds.\<close>

function sort_search :: "nat \<Rightarrow> nat \<Rightarrow> (nat \<Rightarrow> bool) \<Rightarrow> nat" where
  "sort_search i j f =
     (if i < j then let h = (i + j) div 2 in if \<not> f h then sort_search (h + 1) j f else sort_search i h f
      else i)"
  by pat_completeness auto
termination by (relation "measure (\<lambda>(i, j, f). j - i)") auto

declare sort_search.simps [simp del]

definition Record :: "Reconciliation list \<Rightarrow> Reconciliation \<Rightarrow> Reconciliation list" where
  "Record history ev =
     (let k = sort_search 0 (length history) (\<lambda>i. Through (history ! i) > Through ev);
          out = take k history @ ev # drop k history
      in if length out > MaxHistory then drop (length out - MaxHistory) out else out)"

definition Undo :: "Reconciliation list \<Rightarrow> (Reconciliation list \<times> Reconciliation) option" where
  "Undo history = (if history = [] then None else Some (butlast history, last history))"

definition history_Through :: "Reconciliation list \<Rightarrow> time \<times> bool" where
  "history_Through history =
     (let best = foldl (\<lambda>best r. if Through r > best then Through r else best) zero_time history
      in (best, best \<noteq> zero_time))"

lemma sort_search_correct:
  assumes "i \<le> j" "\<And>k k'. k \<le> k' \<Longrightarrow> k' < j \<Longrightarrow> f k \<Longrightarrow> f k'"
    "\<And>k. k < i \<Longrightarrow> \<not> f k"
  shows "sort_search i j f \<le> j \<and> (\<forall>k < sort_search i j f. \<not> f k) \<and> (\<forall>k < j. sort_search i j f \<le> k \<longrightarrow> f k)"
  using assms
proof (induction i j f rule: sort_search.induct)
  case (1 i j f)
  let ?h = "(i + j) div 2"
  show ?case
  proof (cases "i < j")
    case True
    then have h: "i \<le> ?h" "?h < j" by auto
    show ?thesis
    proof (cases "f ?h")
      case True
      with 1(2) [OF \<open>i < j\<close> refl] h 1(4,5)
      have *: "sort_search i ?h f \<le> ?h \<and> (\<forall>k < sort_search i ?h f. \<not> f k) \<and> (\<forall>k < ?h. sort_search i ?h f \<le> k \<longrightarrow> f k)"
        by (meson order.strict_trans)
      have "sort_search i j f = sort_search i ?h f" using True \<open>i < j\<close> by (subst sort_search.simps) (simp add: Let_def)
      with * h True 1(4) show ?thesis by (metis le_trans linorder_le_less_linear nat_less_le)
    next
      case False
      then have "\<not> f k" if "k < ?h + 1" for k using 1(4) [of k ?h] h that by auto
      with 1(1) [OF \<open>i < j\<close> refl] h 1(4) False
      have "sort_search (?h + 1) j f \<le> j \<and> (\<forall>k < sort_search (?h + 1) j f. \<not> f k) \<and> (\<forall>k < j. sort_search (?h + 1) j f \<le> k \<longrightarrow> f k)"
        by auto
      moreover have "sort_search i j f = sort_search (?h + 1) j f"
        using False \<open>i < j\<close> by (subst sort_search.simps) (simp add: Let_def)
      ultimately show ?thesis by simp
    qed
  next
    case False
    with 1(3,5) show ?thesis by (subst (1 2 3) sort_search.simps) auto
  qed
qed

lemma filter_parts:
  assumes "\<And>r. r \<in> set xs \<Longrightarrow> f r \<le> (c :: 'b :: linorder)" "\<And>r. r \<in> set ys \<Longrightarrow> f r > c"
  shows "[r \<leftarrow> xs @ ys. f r \<le> c] = xs \<and> [r \<leftarrow> xs @ ys. f r > c] = ys"
proof -
  have "filter (\<lambda>r. f r \<le> c) xs = xs" "filter (\<lambda>r. c < f r) ys = ys" using assms by (simp_all add: filter_id_conv)
  moreover have "filter (\<lambda>r. c < f r) xs = []" "filter (\<lambda>r. f r \<le> c) ys = []"
    using assms by (simp_all add: filter_empty_conv not_less not_le)
  ultimately show ?thesis by simp
qed

lemma Record_ordered:
  assumes "sorted (map Through history)"
  shows "sorted (map Through (Record history ev))"
    "Record history ev = drop (Suc (length history) - MaxHistory)
       ([r \<leftarrow> history. Through r \<le> Through ev] @ ev # [r \<leftarrow> history. Through r > Through ev])"
proof -
  let ?f = "\<lambda>i. Through (history ! i) > Through ev"
  let ?k = "sort_search 0 (length history) ?f"
  have mono: "?f k'" if "k \<le> k'" "k' < length history" "?f k" for k k'
    using sorted_nth_mono [OF assms, of k k'] that by simp
  have S: "?k \<le> length history" "\<And>k. k < ?k \<Longrightarrow> \<not> ?f k" "\<And>k. k < length history \<Longrightarrow> ?k \<le> k \<Longrightarrow> ?f k"
    using sort_search_correct [of 0 "length history" ?f] mono by blast+
  have low: "Through r \<le> Through ev" if "r \<in> set (take ?k history)" for r
    using that S(1,2) by (auto simp: in_set_conv_nth not_less)
  have high: "Through r > Through ev" if "r \<in> set (drop ?k history)" for r
    using that S(1,3) by (auto simp: in_set_conv_nth)
  from filter_parts [of "take ?k history" Through "Through ev" "drop ?k history", OF low high]
  have parts: "[r \<leftarrow> history. Through r \<le> Through ev] = take ?k history"
    "[r \<leftarrow> history. Through r > Through ev] = drop ?k history" by simp_all
  show eq: "Record history ev = drop (Suc (length history) - MaxHistory)
       ([r \<leftarrow> history. Through r \<le> Through ev] @ ev # [r \<leftarrow> history. Through r > Through ev])"
    using S(1) by (auto simp: Record_def Let_def parts)
  have "sorted (map Through ([r \<leftarrow> history. Through r \<le> Through ev] @ ev # [r \<leftarrow> history. Through r > Through ev]))"
    using sorted_filter [OF assms] by (auto simp: sorted_append intro: order.trans [of _ "Through ev"])
  then show "sorted (map Through (Record history ev))" unfolding eq drop_map [symmetric] by (rule sorted_wrt_drop)
qed

lemma Undo_Record:
  assumes "length history < MaxHistory" "\<And>r. r \<in> set history \<Longrightarrow> Through r \<le> Through ev" "sorted (map Through history)"
  shows "Undo (Record history ev) = Some (history, ev)"
proof -
  from assms(2) have "[r \<leftarrow> history. Through r \<le> Through ev] = history" "[r \<leftarrow> history. Through r > Through ev] = []"
    by (force simp: filter_id_conv filter_empty_conv)+
  with assms(1) Record_ordered(2) [OF assms(3), of ev] show ?thesis by (simp add: Undo_def)
qed

end
