(* ===== verification/TransferPair.thy ===== *)
theory TransferPair
  imports Domain MoneyFormat Float64 Reconcile "HOL-Library.Product_Lexorder"
begin

text \<open>
  Which two rows are the sides of one transfer: the account a description names
  (\<open>internal/acctref\<close>), the matcher (\<open>transferpair/transferpair.go\<close>), the review queue
  (\<open>transferpair/queue.go\<close>) and the transfer check of \<open>integrity/integrity.go\<close>. Descriptions are read as
  ASCII text. Shows what a verdict says and that the queue does not depend on the order of the ledger;
  and where the matcher does what its comments rule out.
\<close>

subsection \<open>The account a description names\<close>

datatype Direction = UnknownDirection | ToAccount | FromAccount

record Ref =
  rf_Digits :: string
  rf_Direction :: Direction

abbreviation MinDigits :: nat where "MinDigits \<equiv> 3"
abbreviation MaxDigits :: nat where "MaxDigits \<equiv> 5"

definition markers :: "string list" where
  "markers = [''ending in'', ''ending'', ''account'', ''acct'', ''acc'', ''a/c'']"

definition is_letter :: "char \<Rightarrow> bool" where
  "is_letter c \<longleftrightarrow> (let n = (of_char c :: nat) in 97 \<le> n \<and> n \<le> 122 \<or> 65 \<le> n \<and> n \<le> 90)"

definition is_space :: "char \<Rightarrow> bool" where
  "is_space c \<longleftrightarrow> (let n = (of_char c :: nat) in 9 \<le> n \<and> n \<le> 13 \<or> n = 32)"

text \<open>\<open>strings.FieldsFunc\<close>, with the field being read in \<open>acc\<close>, reversed; \<open>strings.Contains\<close>.\<close>

fun FieldsFunc :: "(char \<Rightarrow> bool) \<Rightarrow> string \<Rightarrow> string \<Rightarrow> string list" where
  "FieldsFunc p acc [] = (if acc = [] then [] else [rev acc])"
| "FieldsFunc p acc (c # s) =
     (if p c then (if acc = [] then [] else [rev acc]) @ FieldsFunc p [] s else FieldsFunc p (c # acc) s)"

fun contains :: "string \<Rightarrow> string \<Rightarrow> bool" where
  "contains [] m = (m = [])"
| "contains (c # s) m \<longleftrightarrow> take (length m) (c # s) = m \<or> contains s m"

definition lastFour :: "string \<Rightarrow> string" where
  "lastFour digits = (if length digits > 4 then drop (length digits - 4) digits else digits)"

fun prevNonSpace :: "string \<Rightarrow> nat \<Rightarrow> nat option" where
  "prevNonSpace runes 0 = None"
| "prevNonSpace runes (Suc k) = (if \<not> is_space (runes ! k) then Some k else prevNonSpace runes k)"

definition maskedBefore :: "string \<Rightarrow> nat \<Rightarrow> bool" where
  "maskedBefore runes start = (case prevNonSpace runes start of None \<Rightarrow> False | Some k \<Rightarrow> runes ! k = CHR ''x'')"

definition hasMarkerWord :: "string \<Rightarrow> bool" where
  "hasMarkerWord prefix \<longleftrightarrow>
     (\<exists>f \<in> set (FieldsFunc (\<lambda>r. \<not> is_letter r \<and> r \<noteq> CHR ''/'') [] prefix). f \<in> set markers) \<or>
     (\<exists>m \<in> set markers. contains m '' '' \<and> contains prefix m)"

definition is_marked :: "string \<Rightarrow> nat \<Rightarrow> string \<Rightarrow> bool" where
  "is_marked runes start digits =
     (if length digits < MinDigits then False
      else if length digits > MaxDigits \<and> \<not> maskedBefore runes start then False
      else if (case prevNonSpace runes start of None \<Rightarrow> False
               | Some k \<Rightarrow> runes ! k = CHR ''*'' \<or> runes ! k = CHR ''#'' \<or> runes ! k = CHR ''x'') then True
      else hasMarkerWord (drop (start - 24) (take start runes)))"

fun nearest_direction :: "string list \<Rightarrow> Direction" where
  "nearest_direction [] = UnknownDirection"
| "nearest_direction (w # ws) =
     (let cut = (\<lambda>c. c \<in> set ''.,;:()[]-''); w = rev (dropWhile cut (rev (dropWhile cut w)))
      in if w = ''to'' \<or> w = ''into'' then ToAccount
         else if w = ''from'' then FromAccount else nearest_direction ws)"

definition directionBefore :: "string \<Rightarrow> nat \<Rightarrow> Direction" where
  "directionBefore runes start = nearest_direction (rev (FieldsFunc is_space [] (take start runes)))"

function refs_from :: "string \<Rightarrow> nat \<Rightarrow> Ref list" where
  "refs_from runes i =
     (if i \<ge> length runes then []
      else if \<not> is_digit (runes ! i) then refs_from runes (i + 1)
      else let digits = takeWhile is_digit (drop i runes) in
        (if is_marked runes i digits then [\<lparr>rf_Digits = lastFour digits, rf_Direction = directionBefore runes i\<rparr>] else [])
        @ refs_from runes (i + length digits))"
  by pat_completeness auto
termination
proof (relation "measure (\<lambda>(runes, i). length runes - i)", simp, simp)
  fix runes :: string and i x assume i: "\<not> length runes \<le> i" "\<not> \<not> is_digit (runes ! i)"
    and x: "x = takeWhile is_digit (drop i runes)"
  have "drop i runes = runes ! i # drop (Suc i) runes" using i by (simp add: Cons_nth_drop_Suc)
  with i show "((runes, i + length x), runes, i) \<in> measure (\<lambda>(runes, i). length runes - i)" by (simp add: x)
qed

declare refs_from.simps [simp del]

definition Refs :: "string \<Rightarrow> Ref list" where
  "Refs desc = refs_from (to_lower desc) 0"

definition One :: "string \<Rightarrow> Ref option" where
  "One desc = (case Refs desc of [] \<Rightarrow> None
     | first # rest \<Rightarrow> if list_all (\<lambda>r. rf_Digits r = rf_Digits first) rest then Some first else None)"

definition Names :: "string \<Rightarrow> string \<Rightarrow> bool" where
  "Names desc digits =
     (if digits = [] then False
      else list_ex (\<lambda>r. rf_Digits r = lastFour (trim_space digits)) (Refs desc))"

lemma descriptor_examples:
  "map rf_Digits (Refs ''Transfer to account ending in 8945'') = [''8945'']"
  "Refs ''Acceleration Fee 12345'' = []"
  "One ''Transfer from account 8945 to savings *6500'' = None"
  "One ''Transfer to Account XXXXXXXXX1677'' = Some \<lparr>rf_Digits = ''1677'', rf_Direction = ToAccount\<rparr>"
  by code_simp+

definition MaskDigits :: "Account \<Rightarrow> string" where
  "MaskDigits a = lastFour (filter is_digit (acc_Mask a))"

definition AccountByMask :: "Account list \<Rightarrow> string \<Rightarrow> Account option" where
  "AccountByMask accounts digits =
     (case [a \<leftarrow> accounts. MaskDigits a \<noteq> [] \<and> MaskDigits a = digits] of [a] \<Rightarrow> Some a | _ \<Rightarrow> None)"

subsection \<open>The matcher\<close>

abbreviation Window :: int where "Window \<equiv> 4 * 86400000000000"

text \<open>\<open>time.Time.Sub\<close> saturates; the negation of the least duration is itself.\<close>

definition time_Sub :: "time \<Rightarrow> time \<Rightarrow> int" where
  "time_Sub t u = max min_i64 (min max_i64 (t - u))"

definition absDuration :: "int \<Rightarrow> int" where
  "absDuration d = (if d < 0 then wrap64 (- d) else d)"

text \<open>\<open>Duration.Hours\<close> and the conversion to \<open>int\<close>, which cuts the fraction off.\<close>

definition f_trunc :: "f64 \<Rightarrow> int" where
  "f_trunc x = (case x of Fin r \<Rightarrow> if r < 0 then \<lceil>r\<rceil> else \<lfloor>r\<rfloor> | _ \<Rightarrow> min_i64)"

definition Hours :: "int \<Rightarrow> f64" where
  "Hours d = (let hour = f_of_int (d sdiv 3600000000000); part = f_div (f_of_int (d smod 3600000000000)) (Fin 3600000000000)
     in case (hour, part) of (Fin x, Fin y) \<Rightarrow> round_f64 (x + y) | _ \<Rightarrow> NaN)"

definition daysBetween :: "time \<Rightarrow> time \<Rightarrow> int" where
  "daysBetween a b = f_trunc (f_div (Hours (absDuration (time_Sub b a))) (Fin 24))"

datatype Confidence = Unmatched | Possible | Verified

datatype Reason = ReasonAmount | ReasonSameDay | ReasonSettlementLag | ReasonDescriptorNames | ReasonAlreadyLinked
  | ReasonSeveralCandidates | ReasonNoDescriptorEvidence | ReasonDescriptorDisagrees

record Match =
  mt_Leg :: Transaction
  mt_Partner :: Transaction
  mt_Others :: "Transaction list"
  mt_Confidence :: Confidence
  mt_DaysApart :: int
  mt_Reasons :: "Reason list"

definition Has :: "Match \<Rightarrow> Reason \<Rightarrow> bool" where
  "Has m r \<longleftrightarrow> r \<in> set (mt_Reasons m)"

definition physicallyPairable :: "Transaction \<Rightarrow> Transaction \<Rightarrow> bool" where
  "physicallyPairable leg c =
     (if tx_ID c = tx_ID leg \<or> tx_AccountID c = tx_AccountID leg then False
      else if Currency (tx_Amount c) \<noteq> Currency (tx_Amount leg) then False
      else if Amount (tx_Amount leg) = 0 \<or> Amount (tx_Amount c) \<noteq> wrap64 (- Amount (tx_Amount leg)) then False
      else if IsTransfer c \<and> tx_TransferAccountID c \<noteq> tx_AccountID leg then False
      else if tx_TransferGroupID c \<noteq> [] \<and> tx_TransferGroupID c \<noteq> tx_TransferGroupID leg then False
      else absDuration (time_Sub (tx_Date c) (tx_Date leg)) \<le> Window)"

definition sortByCloseness :: "Transaction \<Rightarrow> Transaction list \<Rightarrow> Transaction list" where
  "sortByCloseness leg = sort_key (\<lambda>c. (absDuration (time_Sub (tx_Date c) (tx_Date leg)), tx_ID c))"

definition maskOf :: "string \<Rightarrow> Account list \<Rightarrow> string" where
  "maskOf accountID accounts = (case find (\<lambda>a. acc_ID a = accountID) accounts of None \<Rightarrow> [] | Some a \<Rightarrow> MaskDigits a)"

text \<open>The candidates whose descriptor, or the row's own, names the other account.\<close>

definition agreeing :: "Transaction \<Rightarrow> Account list \<Rightarrow> Transaction list \<Rightarrow> Transaction list" where
  "agreeing leg accounts candidates =
     (let named = [c \<leftarrow> candidates. case One (tx_Desc leg) of None \<Rightarrow> False
            | Some r \<Rightarrow> maskOf (tx_AccountID c) accounts \<noteq> [] \<and> maskOf (tx_AccountID c) accounts = rf_Digits r];
          legMask = maskOf (tx_AccountID leg) accounts
      in if named = [] \<and> legMask \<noteq> [] then [c \<leftarrow> candidates. Names (tx_Desc c) legMask] else named)"

definition Match_zero :: "Transaction \<Rightarrow> Match" where
  "Match_zero leg = \<lparr>mt_Leg = leg, mt_Partner = Transaction_zero, mt_Others = [], mt_Confidence = Unmatched,
     mt_DaysApart = 0, mt_Reasons = []\<rparr>"

definition For :: "Transaction \<Rightarrow> Transaction list \<Rightarrow> Account list \<Rightarrow> Match" where
  "For leg txns accounts =
     (let m = Match_zero leg in
      if tx_TransferGroupID leg \<noteq> [] then
        case find (\<lambda>c. tx_ID c \<noteq> tx_ID leg \<and> tx_TransferGroupID c = tx_TransferGroupID leg) txns of
          Some c \<Rightarrow> m\<lparr>mt_Partner := c, mt_Confidence := Verified, mt_DaysApart := daysBetween (tx_Date leg) (tx_Date c),
                     mt_Reasons := [ReasonAlreadyLinked]\<rparr>
        | None \<Rightarrow> m
      else
        let candidates = filter (physicallyPairable leg) txns in
        if candidates = [] then m\<lparr>mt_Confidence := Unmatched\<rparr>
        else
          let agreed = agreeing leg accounts candidates; descriptorAgrees = (agreed \<noteq> []);
              pool = sortByCloseness leg (if descriptorAgrees then agreed else candidates);
              partner = hd pool; apart = daysBetween (tx_Date leg) (tx_Date partner);
              when = [ReasonAmount, if apart = 0 then ReasonSameDay else ReasonSettlementLag];
              (confidence, why) =
                (if length pool > 1 then (Possible, ReasonSeveralCandidates)
                 else if descriptorAgrees then (Verified, ReasonDescriptorNames)
                 else if One (tx_Desc leg) \<noteq> None then (Possible, ReasonDescriptorDisagrees)
                 else (Possible, ReasonNoDescriptorEvidence))
          in m\<lparr>mt_Partner := partner, mt_DaysApart := apart, mt_Others := tl pool, mt_Confidence := confidence,
               mt_Reasons := when @ [why]\<rparr>)"

definition Declared :: "Transaction \<Rightarrow> Transaction list \<Rightarrow> Transaction option" where
  "Declared leg txns =
     (if \<not> IsTransfer leg then None
      else
        let pool = [c \<leftarrow> txns. tx_ID c \<noteq> tx_ID leg \<and> IsTransfer c \<and>
              tx_AccountID c = tx_TransferAccountID leg \<and> tx_TransferAccountID c = tx_AccountID leg \<and>
              ((tx_TransferGroupID leg = [] \<and> tx_TransferGroupID c = []) \<or>
               (tx_TransferGroupID leg \<noteq> [] \<and> tx_TransferGroupID c \<noteq> [] \<and> tx_TransferGroupID c = tx_TransferGroupID leg)) \<and>
              \<not> absDuration (time_Sub (tx_Date c) (tx_Date leg)) > Window]
        in if pool = [] then None else Some (hd (sortByCloseness leg pool)))"

definition conventionKnown :: "Transaction \<Rightarrow> Account list \<Rightarrow> bool" where
  "conventionKnown t accounts = (case find (\<lambda>a. acc_ID a = tx_AccountID t) accounts of
     None \<Rightarrow> False | Some a \<Rightarrow> snd (ConventionOf a (Amount (acc_OpeningBalance a))))"

definition statedAmount :: "Transaction \<Rightarrow> Account list \<Rightarrow> int" where
  "statedAmount t accounts = (case find (\<lambda>a. acc_ID a = tx_AccountID t) accounts of
     None \<Rightarrow> Amount (tx_Amount t)
   | Some a \<Rightarrow> Stated (Amount (tx_Amount t)) (fst (ConventionOf a (Amount (acc_OpeningBalance a)))))"

definition NetStated :: "Transaction \<Rightarrow> Transaction \<Rightarrow> Account list \<Rightarrow> int \<times> bool \<times> bool" where
  "NetStated a b accounts =
     (if Currency (tx_Amount a) \<noteq> Currency (tx_Amount b) then (0, False, False)
      else if \<not> conventionKnown a accounts \<or> \<not> conventionKnown b accounts then (0, False, False)
      else let net = wrap64 (statedAmount a accounts + statedAmount b accounts) in (net, net = 0, True))"

subsection \<open>The review queue\<close>

datatype ItemKind = KindOrphan | KindAmbiguous | KindUnflagged

fun kind_rank :: "ItemKind \<Rightarrow> nat" where
  "kind_rank KindOrphan = 0" | "kind_rank KindAmbiguous = 1" | "kind_rank KindUnflagged = 2"

record Item =
  it_Match :: Match
  it_Kind :: ItemKind

record Report =
  rp_Items :: "Item list"
  rp_VerifiedUnflagged :: "Match list"

definition build_step :: "Transaction list \<Rightarrow> Account list \<Rightarrow> Report \<times> string set \<Rightarrow> Transaction \<Rightarrow> Report \<times> string set" where
  "build_step ordered accounts s t =
     (let (r, claimed) = s in
      if tx_ID t \<in> claimed then s
      else
        let m = For t ordered accounts; both = insert (tx_ID (mt_Partner m)) (insert (tx_ID t) claimed);
            item = (\<lambda>k. r\<lparr>rp_Items := rp_Items r @ [\<lparr>it_Match = m, it_Kind = k\<rparr>]\<rparr>)
        in if IsTransfer t then
             (case mt_Confidence m of
                Unmatched \<Rightarrow> (item KindOrphan, claimed)
              | Possible \<Rightarrow>
                  (if Has m ReasonSeveralCandidates \<or> Has m ReasonDescriptorDisagrees then item KindAmbiguous else r, both)
              | Verified \<Rightarrow> (r, both))
           else if mt_Confidence m = Unmatched then s
           else if \<not> IsNegative (tx_Amount t) then s
           else if mt_Confidence m = Verified
             then (r\<lparr>rp_VerifiedUnflagged := rp_VerifiedUnflagged r @ [m]\<rparr>, both)
           else (item KindUnflagged, both))"

definition ledger_order :: "Transaction list \<Rightarrow> Transaction list" where
  "ledger_order = sort_key (\<lambda>t. (tx_Date t, tx_ID t))"

definition Build_queue :: "Transaction list \<Rightarrow> Account list \<Rightarrow> Report" where
  "Build_queue txns accounts =
     (let ordered = ledger_order txns;
          r = fst (foldl (build_step ordered accounts) (\<lparr>rp_Items = [], rp_VerifiedUnflagged = []\<rparr>, {}) ordered)
      in r\<lparr>rp_Items := sort_key (\<lambda>i. (kind_rank (it_Kind i), tx_Date (mt_Leg (it_Match i)))) (rp_Items r)\<rparr>)"

definition Orphans :: "Report \<Rightarrow> Item list" where
  "Orphans r = [i \<leftarrow> rp_Items r. it_Kind i = KindOrphan]"

text \<open>The two findings of the integrity check.\<close>

datatype transfer_finding = LegsDisagree string int | TransferOrphan string int

definition checkTransfers :: "Transaction list \<Rightarrow> Account list \<Rightarrow> transfer_finding list" where
  "checkTransfers txns accounts = concat (map (\<lambda>t.
     if \<not> IsTransfer t then []
     else case Declared t txns of
       Some partner \<Rightarrow>
         let (net, balanced, known) = NetStated t partner accounts
         in if known \<and> \<not> balanced \<and> tx_ID t < tx_ID partner then [LegsDisagree (tx_ID t) net] else []
     | None \<Rightarrow> if mt_Confidence (For t txns accounts) \<noteq> Unmatched then []
         else [TransferOrphan (tx_ID t) (Amount (tx_Amount t))]) txns)"

subsection \<open>What a verdict says\<close>

text \<open>The window is what it says for dates less than 292 years apart; a date that long before the other
  one, as a missing date is, passes for one within the window.\<close>

lemma window_near: "\<bar>t - u\<bar> \<le> max_i64 \<Longrightarrow> absDuration (time_Sub t u) = \<bar>t - u\<bar>"
  by (auto simp: absDuration_def time_Sub_def wrap64_id is_i64_def)

lemma missing_date_passes: "0 \<le> u \<Longrightarrow> absDuration (time_Sub zero_time u) \<le> Window"
  by (simp add: absDuration_def time_Sub_def zero_time_def wrap64_def)

lemma agreeing_evidence:
  assumes "c \<in> set (agreeing leg accounts candidates)"
  shows "c \<in> set candidates"
    "(\<exists>r. One (tx_Desc leg) = Some r \<and> maskOf (tx_AccountID c) accounts = rf_Digits r) \<or>
      Names (tx_Desc c) (maskOf (tx_AccountID leg) accounts)"
  using assms by (auto simp: agreeing_def Let_def split: if_splits option.splits)

lemma set_sortByCloseness [simp]: "set (sortByCloseness leg xs) = set xs" "length (sortByCloseness leg xs) = length xs"
  by (simp_all add: sortByCloseness_def)

lemma sortByCloseness_single: "length xs = 1 \<Longrightarrow> sortByCloseness leg xs = xs"
  by (cases xs) (simp_all add: sortByCloseness_def)

lemma For_grouped_Verified:
  "tx_TransferGroupID leg \<noteq> [] \<Longrightarrow> mt_Confidence (For leg txns accounts) = Verified \<longleftrightarrow>
     (\<exists>c \<in> set txns. tx_ID c \<noteq> tx_ID leg \<and> tx_TransferGroupID c = tx_TransferGroupID leg)"
  by (auto simp: For_def Match_zero_def Let_def find_None_iff find_Some_iff split: option.split)

lemma hd_closest:
  assumes "xs \<noteq> []"
  shows "hd (sortByCloseness leg xs) \<in> set xs"
    "\<forall>c \<in> set xs. absDuration (time_Sub (tx_Date (hd (sortByCloseness leg xs))) (tx_Date leg)) \<le> absDuration (time_Sub (tx_Date c) (tx_Date leg))"
proof -
  let ?k = "\<lambda>c. (absDuration (time_Sub (tx_Date c) (tx_Date leg)), tx_ID c)"
  obtain y ys where s: "sortByCloseness leg xs = y # ys" using assms by (metis list.exhaust length_0_conv set_sortByCloseness(2))
  have "sorted (map ?k (y # ys))" unfolding s [symmetric] by (simp add: sortByCloseness_def)
  then have "\<forall>c \<in> set (y # ys). ?k y \<le> ?k c" by auto
  moreover have "set xs = set (y # ys)" unfolding s [symmetric] by simp
  ultimately show "hd (sortByCloseness leg xs) \<in> set xs"
    "\<forall>c \<in> set xs. absDuration (time_Sub (tx_Date (hd (sortByCloseness leg xs))) (tx_Date leg)) \<le> absDuration (time_Sub (tx_Date c) (tx_Date leg))"
    by (auto simp: s less_eq_prod_def)
qed

lemma For_ungrouped:
  assumes "tx_TransferGroupID leg = []" "candidates = filter (physicallyPairable leg) txns"
    "agreed = agreeing leg accounts candidates" "pool = (if agreed \<noteq> [] then agreed else candidates)"
  shows "mt_Confidence (For leg txns accounts) = (if candidates = [] then Unmatched else if length pool > 1 then Possible
        else if agreed \<noteq> [] then Verified else Possible)"
    "candidates \<noteq> [] \<Longrightarrow> mt_Partner (For leg txns accounts) = hd (sortByCloseness leg pool)"
  unfolding For_def Match_zero_def Let_def assms(1) assms(2) [symmetric] assms(3) [symmetric]
  by (cases "candidates = []"; cases "agreed = []"; simp add: assms(4))+


subsection \<open>The order of the ledger\<close>

lemma sort_key_unique:
  assumes "mset xs = mset ys" "inj_on k (set xs)"
  shows "sort_key k xs = sort_key k ys"
proof (rule properties_for_sort_key)
  have set: "set ys = set xs" using assms(1) by (metis set_mset_mset)
  fix a assume a: "a \<in> set (sort_key k ys)"
  have same: "filter (\<lambda>x. k a = k x) zs = replicate (count (mset zs) a) a" if "set zs = set xs" for zs
  proof -
    have "filter (\<lambda>x. k a = k x) zs = filter (HOL.eq a) zs"
      using assms(2) a that set by (intro filter_cong refl) (auto dest: inj_onD)
    then show ?thesis by (simp only: replicate_count_mset_eq_filter_eq)
  qed
  show "filter (\<lambda>x. k a = k x) (sort_key k ys) = filter (\<lambda>x. k a = k x) xs"
    using same [of "sort_key k ys"] same [of xs] assms(1) set by simp
qed (use assms in simp_all)

lemma ids_inj: "distinct (map tx_ID txns) \<Longrightarrow> inj_on (\<lambda>t. (f t, tx_ID t)) (set txns)"
  by (auto simp: distinct_map inj_on_def)

text \<open>C10: Neither the verdict on a row that no one has linked nor the review queue depends on the order in which
  the store lists the ledger.\<close>
theorem queue_ignores_ledger_order:
  assumes "mset txns = mset txns'" "distinct (map tx_ID txns)"
  shows "Build_queue txns accounts = Build_queue txns' accounts \<and>
    (tx_TransferGroupID leg = [] \<longrightarrow> For leg txns accounts = For leg txns' accounts)"
proof (intro conjI impI)
  have "ledger_order txns = ledger_order txns'"
    unfolding ledger_order_def by (intro sort_key_unique assms(1) ids_inj assms(2))
  then show "Build_queue txns accounts = Build_queue txns' accounts" by (simp add: Build_queue_def)
next
  assume "tx_TransferGroupID leg = []"
  define xs where "xs = filter (physicallyPairable leg) txns"
  define ys where "ys = filter (physicallyPairable leg) txns'"
  have mset: "mset xs = mset ys" by (simp add: xs_def ys_def assms(1) mset_filter)
  have agreed: "mset (agreeing leg accounts xs) = mset (agreeing leg accounts ys)"
  proof -
    have "filter P xs = [] \<longleftrightarrow> filter P ys = []" for P using mset by (metis mset_filter mset_zero_iff)
    with mset show ?thesis by (simp add: agreeing_def Let_def mset_filter)
  qed
  have sub: "mset (agreeing leg accounts xs) \<subseteq># mset txns" "mset xs \<subseteq># mset txns"
    by (auto simp: agreeing_def xs_def Let_def mset_filter intro: subset_mset.order_trans multiset_filter_subset)
  have sort: "sortByCloseness leg zs = sortByCloseness leg zs'" if "mset zs = mset zs'" "mset zs \<subseteq># mset txns" for zs zs'
  proof -
    have "set zs \<subseteq> set txns" using that(2) by (metis set_mset_mono set_mset_mset)
    then show ?thesis unfolding sortByCloseness_def
      by (intro sort_key_unique that(1) inj_on_subset [OF ids_inj [OF assms(2)]])
  qed
  have "xs = [] \<longleftrightarrow> ys = []" "agreeing leg accounts xs = [] \<longleftrightarrow> agreeing leg accounts ys = []"
    using mset agreed by (metis mset_zero_iff)+
  with sort [OF agreed sub(1)] sort [OF mset sub(2)] \<open>tx_TransferGroupID leg = []\<close>
  show "For leg txns accounts = For leg txns' accounts"
    unfolding For_def Let_def xs_def [symmetric] ys_def [symmetric]
    by (cases "ys = []"; cases "agreeing leg accounts ys = []"; simp del: set_sortByCloseness(2))
qed

subsection \<open>Where the matcher does not do what it means to\<close>

text \<open>A sample row, dated in days since the epoch.\<close>

definition sample_leg :: "string \<Rightarrow> string \<Rightarrow> string \<Rightarrow> int \<Rightarrow> int \<Rightarrow> Transaction" where
  "sample_leg i account desc minor day = Transaction_zero\<lparr>tx_ID := i, tx_AccountID := account, tx_Desc := desc,
     tx_Amount := \<lparr>Amount = minor, Currency = ''USD''\<rparr>, tx_Date := day * 86400000000000\<rparr>"

definition masked :: "string \<Rightarrow> string \<Rightarrow> Account" where
  "masked i digits = Account_zero\<lparr>acc_ID := i, acc_Mask := digits\<rparr>"

text \<open>Two outgoing rows of different accounts are both verified as the other side of one incoming row.\<close>

lemma one_row_verified_twice:
  "let txns = [sample_leg ''a'' ''chk'' ''Transfer to Savings *6500'' (- 75000) 20000, sample_leg ''b'' ''cns'' ''Transfer to Savings *6500'' (- 75000) 20000,
       sample_leg ''s'' ''sav'' ''Deposit'' 75000 20000]
   in map (\<lambda>m. (tx_ID (mt_Leg m), tx_ID (mt_Partner m))) (rp_VerifiedUnflagged (Build_queue txns [masked ''sav'' ''6500''])) =
      [(''a'', ''s''), (''b'', ''s'')]"
  by code_simp

text \<open>A deposit without a date is verified as the other side of a payment of today.\<close>

lemma undated_row_verified:
  "let m = For (sample_leg ''a'' ''chk'' ''Transfer to Savings *6500'' (- 75000) 20000)
       [(sample_leg ''s'' ''sav'' ''Deposit'' 75000 0)\<lparr>tx_Date := zero_time\<rparr>] [masked ''sav'' ''6500'']
   in mt_Confidence m = Verified \<and> tx_ID (mt_Partner m) = ''s''"
  unfolding Let_def
proof -
  let ?leg = "sample_leg ''a'' ''chk'' ''Transfer to Savings *6500'' (- 75000) 20000"
    and ?c = "(sample_leg ''s'' ''sav'' ''Deposit'' 75000 0)\<lparr>tx_Date := zero_time\<rparr>" and ?accounts = "[masked ''sav'' ''6500'']"
  have group: "tx_TransferGroupID ?leg = []" by (simp add: sample_leg_def Transaction_zero_def)
  have "physicallyPairable ?leg ?c"
    using missing_date_passes [of "20000 * 86400000000000"]
    by (simp add: physicallyPairable_def sample_leg_def Transaction_zero_def IsTransfer_def wrap64_id is_i64_def)
  then have candidates: "[?c] = filter (physicallyPairable ?leg) [?c]" by simp
  have "One ''Transfer to Savings *6500'' = Some \<lparr>rf_Digits = ''6500'', rf_Direction = ToAccount\<rparr>"
    "maskOf ''sav'' ?accounts = ''6500''" by code_simp+
  then have agreed: "[?c] = agreeing ?leg ?accounts [?c]" by (simp add: agreeing_def sample_leg_def Let_def)
  note verdict = For_ungrouped [OF group candidates agreed refl]
  have "mt_Confidence (For ?leg [?c] ?accounts) = Verified" by (simp add: verdict(1))
  moreover have "mt_Partner (For ?leg [?c] ?accounts) = ?c" by (simp add: verdict(2) sortByCloseness_single)
  ultimately show "mt_Confidence (For ?leg [?c] ?accounts) = Verified \<and> tx_ID (mt_Partner (For ?leg [?c] ?accounts)) = ''s''"
    by (simp add: sample_leg_def)
qed

subsection \<open>The integrity check\<close>

lemma For_Unmatched:
  "mt_Confidence (For leg txns accounts) = Unmatched \<longleftrightarrow>
     \<not> (\<exists>c \<in> set txns. if tx_TransferGroupID leg = [] then physicallyPairable leg c
        else tx_ID c \<noteq> tx_ID leg \<and> tx_TransferGroupID c = tx_TransferGroupID leg)"
proof (cases "tx_TransferGroupID leg = []")
  case True
  then show ?thesis using For_ungrouped(1) [OF True refl refl refl, of txns accounts] by (simp add: filter_empty_conv)
next
  case False
  then show ?thesis
    by (auto simp: For_def Match_zero_def Let_def find_None_iff find_Some_iff split: option.split)
qed

text \<open>A row on the named account that points back, in the same group, and posted within the window.\<close>

definition points_back :: "Transaction \<Rightarrow> Transaction \<Rightarrow> bool" where
  "points_back t c \<longleftrightarrow> tx_ID c \<noteq> tx_ID t \<and> IsTransfer c \<and> tx_AccountID c = tx_TransferAccountID t \<and>
     tx_TransferAccountID c = tx_AccountID t \<and> tx_TransferGroupID c = tx_TransferGroupID t \<and>
     absDuration (time_Sub (tx_Date c) (tx_Date t)) \<le> Window"

lemma Declared_None: "IsTransfer t \<Longrightarrow> Declared t txns = None \<longleftrightarrow> \<not> (\<exists>c \<in> set txns. points_back t c)"
  by (auto simp: Declared_def points_back_def Let_def filter_empty_conv not_less)

lemma Declared_Some:
  assumes "Declared t txns = Some c"
  shows "c \<in> set txns \<and> points_back t c"
proof -
  define pool where "pool = filter (points_back t) txns"
  have "Declared t txns = (if IsTransfer t \<and> pool \<noteq> [] then Some (hd (sortByCloseness t pool)) else None)"
    unfolding Declared_def Let_def pool_def points_back_def
    by (auto intro!: arg_cong [where f = "\<lambda>zs. hd (sortByCloseness t zs)"] filter_cong simp: filter_empty_conv not_less)
  with assms have "pool \<noteq> []" "c = hd (sortByCloseness t pool)" by (auto split: if_splits)
  with hd_closest(1) [of pool t] show ?thesis by (simp add: pool_def)
qed


lemma NetStated_exact:
  assumes "NetStated a b accounts = (net, balanced, True)" "is_i64 (statedAmount a accounts + statedAmount b accounts)"
  shows "net = statedAmount a accounts + statedAmount b accounts \<and> (balanced \<longleftrightarrow> net = 0)"
  using assms by (auto simp: NetStated_def Let_def split: if_splits)

subsection \<open>Witnesses\<close>


lemma queue_ignores_ledger_order_witness:
  "let a = sample_leg ''a'' ''chk'' ''Transfer to Savings *6500'' (- 75000) 20000; s = sample_leg ''s'' ''sav'' ''Deposit'' 75000 20002
   in Build_queue [a, s] [masked ''sav'' ''6500''] = Build_queue [s, a] [masked ''sav'' ''6500''] \<and>
      For a [a, s] [masked ''sav'' ''6500''] = For a [s, a] [masked ''sav'' ''6500'']"
  unfolding Let_def
proof -
  let ?a = "sample_leg ''a'' ''chk'' ''Transfer to Savings *6500'' (- 75000) 20000" and ?s = "sample_leg ''s'' ''sav'' ''Deposit'' 75000 20002"
  have "mset [?a, ?s] = mset [?s, ?a]" "distinct (map tx_ID [?a, ?s])" by (simp_all add: sample_leg_def)
  moreover have "tx_TransferGroupID ?a = []" by (simp add: sample_leg_def Transaction_zero_def)
  ultimately show "Build_queue [?a, ?s] [masked ''sav'' ''6500''] = Build_queue [?s, ?a] [masked ''sav'' ''6500''] \<and>
      For ?a [?a, ?s] [masked ''sav'' ''6500''] = For ?a [?s, ?a] [masked ''sav'' ''6500'']"
    using queue_ignores_ledger_order [of "[?a, ?s]" "[?s, ?a]" "[masked ''sav'' ''6500'']" ?a] by blast
qed

end
