(* ===== verification/Rules.thy ===== *)
theory Rules
  imports MoneyFormat
begin

text \<open>
  The rules that categorise transactions, \<open>internal/rules\<close>: word-start matching, structured conditions,
  first match wins, which rules can never fire, the previews, and the migration of amount conditions from
  signed amounts to magnitudes. Text is read as ASCII; the cleaned payee (\<open>internal/payeeclean\<close>) and the
  outcome of date conditions are arguments. Shows that a rule reported as shadowed never fires and that the
  migration keeps what rules match, save in the cases that are shown too.
\<close>

subsection \<open>Conditions and rules\<close>

type_synonym ConditionField = string
type_synonym ConditionOp = string

abbreviation ConditionFieldPayee :: ConditionField where "ConditionFieldPayee \<equiv> ''payee''"
abbreviation ConditionFieldDescription :: ConditionField where "ConditionFieldDescription \<equiv> ''description''"
abbreviation ConditionFieldAmount :: ConditionField where "ConditionFieldAmount \<equiv> ''amount''"
abbreviation ConditionFieldFlow :: ConditionField where "ConditionFieldFlow \<equiv> ''flow''"
abbreviation ConditionFieldLegacySignedAmount :: ConditionField where "ConditionFieldLegacySignedAmount \<equiv> ''legacySignedAmount''"
abbreviation ConditionFieldAccount :: ConditionField where "ConditionFieldAccount \<equiv> ''account''"
abbreviation ConditionFieldDate :: ConditionField where "ConditionFieldDate \<equiv> ''date''"

abbreviation ConditionOpContains :: ConditionOp where "ConditionOpContains \<equiv> ''contains''"
abbreviation ConditionOpEquals :: ConditionOp where "ConditionOpEquals \<equiv> ''equals''"
abbreviation ConditionOpEq :: ConditionOp where "ConditionOpEq \<equiv> ''==''"
abbreviation ConditionOpNeq :: ConditionOp where "ConditionOpNeq \<equiv> ''!=''"
abbreviation ConditionOpLt :: ConditionOp where "ConditionOpLt \<equiv> ''<''"
abbreviation ConditionOpGt :: ConditionOp where "ConditionOpGt \<equiv> ''>''"
abbreviation ConditionOpLte :: ConditionOp where "ConditionOpLte \<equiv> ''<=''"
abbreviation ConditionOpGte :: ConditionOp where "ConditionOpGte \<equiv> ''>=''"
abbreviation ConditionOpIs :: ConditionOp where "ConditionOpIs \<equiv> ''is''"
abbreviation ConditionOpIsNot :: ConditionOp where "ConditionOpIsNot \<equiv> ''is-not''"

record RuleCondition =
  cd_Field :: ConditionField
  cd_Op :: ConditionOp
  cd_Value :: string
  cd_Currency :: string

record Rule =
  rl_ID :: string
  rl_Match :: string
  rl_SetCategoryID :: string
  rl_SetTags :: "string list"
  rl_RenameDesc :: string
  rl_SetBillAccountID :: string
  rl_SetMemberID :: string
  rl_SetReviewed :: bool
  rl_SetExcludeFromReports :: bool
  rl_Order :: int
  rl_Conditions :: "RuleCondition list"
  rl_HitCount :: int
  rl_LastRunAt :: int

definition RecordHits :: "Rule \<Rightarrow> int \<Rightarrow> int \<Rightarrow> Rule" where
  "RecordHits r n moment =
     (if n \<le> 0 then r
      else let r = r\<lparr>rl_HitCount := wrap64 (rl_HitCount r + n)\<rparr>
        in if moment > rl_LastRunAt r then r\<lparr>rl_LastRunAt := moment\<rparr> else r)"

text \<open>What a rule does once to a transaction that has not been told otherwise.\<close>

record Applied =
  ap_MemberID :: string
  ap_Reviewed :: bool
  ap_ExcludeFromReports :: bool

definition Applied_Any :: "Applied \<Rightarrow> bool" where
  "Applied_Any a \<longleftrightarrow> ap_MemberID a \<noteq> [] \<or> ap_Reviewed a \<or> ap_ExcludeFromReports a"

definition ApplyOnce :: "Rule \<Rightarrow> string \<Rightarrow> bool \<Rightarrow> bool \<Rightarrow> Applied" where
  "ApplyOnce r curMember curReviewed curExcluded =
     \<lparr>ap_MemberID = (if rl_SetMemberID r \<noteq> [] \<and> curMember = [] then rl_SetMemberID r else []),
      ap_Reviewed = (rl_SetReviewed r \<and> \<not> curReviewed),
      ap_ExcludeFromReports = (rl_SetExcludeFromReports r \<and> \<not> curExcluded)\<rparr>"

subsection \<open>Matching text\<close>

fun strings_Contains :: "string \<Rightarrow> string \<Rightarrow> bool" where
  "strings_Contains [] p = (p = [])"
| "strings_Contains (c # s) p \<longleftrightarrow> take (length p) (c # s) = p \<or> strings_Contains s p"

definition matchesLowered :: "string \<Rightarrow> string \<Rightarrow> bool" where
  "matchesLowered textLower patternLower \<longleftrightarrow> patternLower \<noteq> [] \<and> strings_Contains textLower patternLower"

definition matches :: "string \<Rightarrow> string \<Rightarrow> bool" where
  "matches text pattern =
     (let pattern = trim_space pattern
      in if pattern = [] then False else matchesLowered (to_lower text) (to_lower pattern))"

definition rule_letter :: "char \<Rightarrow> bool" where
  "rule_letter c \<longleftrightarrow> (let n = (of_char c :: nat) in 97 \<le> n \<and> n \<le> 122 \<or> 65 \<le> n \<and> n \<le> 90)"

definition isRuleWordRune :: "char \<Rightarrow> bool" where
  "isRuleWordRune c \<longleftrightarrow> rule_letter c \<or> is_digit c"

definition matchesRule :: "string \<Rightarrow> string \<Rightarrow> bool" where
  "matchesRule text pattern =
     (let t = to_lower text; p = to_lower (trim_space pattern)
      in if p = [] \<or> length p > length t then False
      else let wordStart = rule_letter (hd p) in
        list_ex (\<lambda>start. \<not> (wordStart \<and> start > 0 \<and> isRuleWordRune (t ! (start - 1))) \<and> take (length p) (drop start t) = p)
          [0..<Suc (length t - length p)])"

text \<open>A condition of the earlier form: keywords, an account and a range.\<close>

record TxnView =
  tv_Text :: string
  tv_AccountID :: string
  tv_Amount :: int

record Condition =
  cn_AllKeywords :: "string list"
  cn_AnyKeywords :: "string list"
  cn_AccountID :: string
  cn_MinAmount :: int
  cn_MaxAmount :: int

definition anyReal :: "string list \<Rightarrow> bool" where
  "anyReal kws = list_ex (\<lambda>kw. trim_space kw \<noteq> []) kws"

definition Condition_Matches :: "Condition \<Rightarrow> TxnView \<Rightarrow> bool" where
  "Condition_Matches c t \<longleftrightarrow>
     list_all (\<lambda>kw. trim_space kw = [] \<or> matches (tv_Text t) kw) (cn_AllKeywords c) \<and>
     (anyReal (cn_AnyKeywords c) \<longrightarrow> list_ex (\<lambda>kw. trim_space kw \<noteq> [] \<and> matches (tv_Text t) kw) (cn_AnyKeywords c)) \<and>
     \<not> (cn_AccountID c \<noteq> [] \<and> tv_AccountID t \<noteq> cn_AccountID c) \<and>
     \<not> (cn_MinAmount c > 0 \<and> tv_Amount t < cn_MinAmount c) \<and>
     \<not> (cn_MaxAmount c > 0 \<and> tv_Amount t > cn_MaxAmount c)"

subsection \<open>Structured conditions\<close>

text \<open>\<open>strconv.ParseInt\<close> and \<open>FormatInt\<close> in base ten, 64 bits.\<close>

definition ParseInt :: "string \<Rightarrow> int option" where
  "ParseInt s =
     (let neg = (s \<noteq> [] \<and> hd s = CHR ''-''); ds = (if neg \<or> (s \<noteq> [] \<and> hd s = CHR ''+'') then tl s else s);
          v = int (dec_value 0 (map digit_val ds))
      in if ds = [] \<or> \<not> allDigits ds then None
      else if neg then (if v > 2 ^ 63 then None else Some (- v))
      else if v \<ge> 2 ^ 63 then None else Some v)"

definition FormatInt :: "int \<Rightarrow> string" where
  "FormatInt n = (if n < 0 then CHR ''-'' # utoa (nat (- n)) else utoa (nat n))"

definition EqualFold :: "string \<Rightarrow> string \<Rightarrow> bool" where
  "EqualFold s t \<longleftrightarrow> to_lower s = to_lower t"

definition amountMagnitude :: "int \<Rightarrow> int" where
  "amountMagnitude a = (if a = min_i64 then max_i64 else if a < 0 then - a else a)"

definition compare_op :: "ConditionOp \<Rightarrow> int \<Rightarrow> int \<Rightarrow> bool" where
  "compare_op op a v =
     (if op = ConditionOpEq then a = v else if op = ConditionOpNeq then a \<noteq> v
      else if op = ConditionOpLt then a < v else if op = ConditionOpGt then a > v
      else if op = ConditionOpLte then a \<le> v else if op = ConditionOpGte then a \<ge> v else False)"

definition matchAmount :: "int \<Rightarrow> ConditionOp \<Rightarrow> string \<Rightarrow> bool" where
  "matchAmount magnitudeMinor op value =
     (case ParseInt (trim_space value) of None \<Rightarrow> False | Some v \<Rightarrow> compare_op op magnitudeMinor (amountMagnitude v))"

definition matchSignedAmount :: "int \<Rightarrow> ConditionOp \<Rightarrow> string \<Rightarrow> bool" where
  "matchSignedAmount amountMinor op value =
     (case ParseInt (trim_space value) of None \<Rightarrow> False | Some v \<Rightarrow> compare_op op amountMinor v)"

definition matchFlow :: "int \<Rightarrow> ConditionOp \<Rightarrow> string \<Rightarrow> bool" where
  "matchFlow amountMinor op value =
     (if op \<noteq> ConditionOpEquals then False
      else let v = to_lower (trim_space value)
        in if v = ''inflow'' then amountMinor > 0 else if v = ''outflow'' then amountMinor < 0 else False)"

definition matchText :: "string \<Rightarrow> ConditionOp \<Rightarrow> string \<Rightarrow> bool" where
  "matchText fieldVal op value =
     (if op = ConditionOpContains then matches fieldVal value
      else if op = ConditionOpEquals then EqualFold (trim_space fieldVal) (trim_space value) else False)"

definition matchAccount :: "string \<Rightarrow> ConditionOp \<Rightarrow> string \<Rightarrow> bool" where
  "matchAccount accountID op value =
     (if op = ConditionOpIs then accountID = trim_space value
      else if op = ConditionOpIsNot then accountID \<noteq> trim_space value else False)"

text \<open>A transaction as the rules see it, with the outcome of its date conditions.\<close>

record TxnCtx =
  ct_Payee :: string
  ct_Desc :: string
  ct_AmountMinor :: int
  ct_Currency :: string
  ct_AccountID :: string
  ct_matchDate :: "ConditionOp \<Rightarrow> string \<Rightarrow> bool"

definition currency_scope :: "RuleCondition \<Rightarrow> TxnCtx \<Rightarrow> bool" where
  "currency_scope c t \<longleftrightarrow> \<not> (cd_Currency c \<noteq> [] \<and> \<not> EqualFold (trim_space (cd_Currency c)) (trim_space (ct_Currency t)))"

definition matchOneCondition :: "(string \<Rightarrow> string) \<Rightarrow> TxnCtx \<Rightarrow> RuleCondition \<Rightarrow> bool" where
  "matchOneCondition suggest t c =
     (let field = cd_Field c; op = cd_Op c; value = cd_Value c in
      if field = ConditionFieldPayee then
        (if matchText (ct_Payee t) op value then True
         else let clean = suggest (ct_Payee t)
           in if clean \<noteq> [] \<and> clean \<noteq> ct_Payee t then matchText clean op value else False)
      else if field = ConditionFieldDescription then matchText (ct_Desc t) op value
      else if field = ConditionFieldAmount then currency_scope c t \<and> matchAmount (amountMagnitude (ct_AmountMinor t)) op value
      else if field = ConditionFieldLegacySignedAmount then currency_scope c t \<and> matchSignedAmount (ct_AmountMinor t) op value
      else if field = ConditionFieldFlow then matchFlow (ct_AmountMinor t) op value
      else if field = ConditionFieldAccount then matchAccount (ct_AccountID t) op value
      else if field = ConditionFieldDate then ct_matchDate t op value
      else False)"

definition MatchConditions :: "(string \<Rightarrow> string) \<Rightarrow> RuleCondition list \<Rightarrow> TxnCtx \<Rightarrow> bool" where
  "MatchConditions suggest conditions t = list_all (matchOneCondition suggest t) conditions"

subsection \<open>First match wins\<close>

definition find_index :: "('a \<Rightarrow> bool) \<Rightarrow> 'a list \<Rightarrow> nat option" where
  "find_index p xs = find (\<lambda>i. p (xs ! i)) [0..<length xs]"

definition FirstMatch :: "Rule list \<Rightarrow> string \<Rightarrow> nat option" where
  "FirstMatch rs text = find_index (\<lambda>r. \<not> rl_Conditions r \<noteq> [] \<and> matchesRule text (rl_Match r)) rs"

definition ruleMatchesFull :: "(string \<Rightarrow> string) \<Rightarrow> TxnCtx \<Rightarrow> Rule \<Rightarrow> bool" where
  "ruleMatchesFull suggest t r =
     (if rl_Conditions r \<noteq> [] then MatchConditions suggest (rl_Conditions r) t
      else matchesRule (ct_Payee t @ '' '' @ ct_Desc t @ '' '' @ suggest (ct_Payee t)) (rl_Match r))"

definition FirstMatchFullWhereCurrency :: "(string \<Rightarrow> string) \<Rightarrow> Rule list \<Rightarrow> TxnCtx \<Rightarrow> (Rule \<Rightarrow> bool) \<Rightarrow> nat option" where
  "FirstMatchFullWhereCurrency suggest rs t pred = find_index (\<lambda>r. pred r \<and> ruleMatchesFull suggest t r) rs"

definition FirstMatchFull :: "(string \<Rightarrow> string) \<Rightarrow> Rule list \<Rightarrow> TxnCtx \<Rightarrow> nat option" where
  "FirstMatchFull suggest rs t = FirstMatchFullWhereCurrency suggest rs (t\<lparr>ct_Currency := []\<rparr>) (\<lambda>r. True)"

text \<open>The rules that never fire, each with the first that shadows it, \<open>None\<close> if it has no phrase.\<close>

definition Conflicts :: "Rule list \<Rightarrow> (nat \<times> nat option) list" where
  "Conflicts rs = concat (map (\<lambda>j.
     if rl_Conditions (rs ! j) \<noteq> [] then []
     else let later = to_lower (trim_space (rl_Match (rs ! j))) in
       if later = [] then [(j, None)]
       else case find (\<lambda>i. rl_Conditions (rs ! i) = [] \<and>
                 (let earlier = to_lower (trim_space (rl_Match (rs ! i))) in earlier \<noteq> [] \<and> matchesRule later earlier)) [0..<j] of
         None \<Rightarrow> [] | Some i \<Rightarrow> [(j, Some i)]) [0..<length rs])"

definition RuleCategory :: "Rule list \<Rightarrow> string \<Rightarrow> string \<Rightarrow> string" where
  "RuleCategory rs payee desc = (case FirstMatch rs (payee @ '' '' @ desc) of None \<Rightarrow> [] | Some i \<Rightarrow> rl_SetCategoryID (rs ! i))"

definition Tags :: "Rule list \<Rightarrow> string \<Rightarrow> string \<Rightarrow> string list" where
  "Tags rs payee desc = (case FirstMatch rs (payee @ '' '' @ desc) of None \<Rightarrow> [] | Some i \<Rightarrow> rl_SetTags (rs ! i))"

definition RenamedDesc :: "Rule list \<Rightarrow> string \<Rightarrow> string \<Rightarrow> string" where
  "RenamedDesc rs payee desc = (case FirstMatch rs (payee @ '' '' @ desc) of None \<Rightarrow> [] | Some i \<Rightarrow> rl_RenameDesc (rs ! i))"

subsection \<open>Previews\<close>

definition MatchCount :: "Rule \<Rightarrow> string list \<Rightarrow> nat" where
  "MatchCount r texts = length [t \<leftarrow> texts. matches t (rl_Match r)]"

definition Covered :: "Rule list \<Rightarrow> string list \<Rightarrow> nat" where
  "Covered rs texts = length [t \<leftarrow> texts. FirstMatch rs t \<noteq> None]"

definition Uncovered :: "Rule list \<Rightarrow> string list \<Rightarrow> nat" where
  "Uncovered rs texts = length texts - Covered rs texts"

definition matchesFull :: "(string \<Rightarrow> string) \<Rightarrow> Rule \<Rightarrow> TxnCtx \<Rightarrow> bool" where
  "matchesFull suggest r t =
     (if rl_Conditions r \<noteq> [] then MatchConditions suggest (rl_Conditions r) (t\<lparr>ct_Currency := []\<rparr>)
      else matches (ct_Payee t @ '' '' @ ct_Desc t @ '' '' @ suggest (ct_Payee t)) (rl_Match r))"

definition MatchCountFull :: "(string \<Rightarrow> string) \<Rightarrow> Rule \<Rightarrow> TxnCtx list \<Rightarrow> nat" where
  "MatchCountFull suggest r txns = length (filter (matchesFull suggest r) txns)"

definition CoveredFull :: "(string \<Rightarrow> string) \<Rightarrow> Rule list \<Rightarrow> TxnCtx list \<Rightarrow> nat" where
  "CoveredFull suggest rs txns = length [t \<leftarrow> txns. FirstMatchFull suggest rs t \<noteq> None]"

record CoverageSummary =
  cs_Covered :: nat
  cs_MaxMatchCount :: nat
  cs_Counts :: "nat list"
  cs_Conflicts :: "(nat \<times> nat option) list"

definition coverage_match :: "(string \<Rightarrow> string) \<Rightarrow> Rule \<Rightarrow> TxnCtx \<Rightarrow> bool" where
  "coverage_match suggest r t =
     (if rl_Conditions r = []
      then matchesLowered (to_lower (ct_Payee t @ '' '' @ ct_Desc t @ '' '' @ suggest (ct_Payee t))) (to_lower (trim_space (rl_Match r)))
      else matchesFull suggest r t)"

definition SummarizeCoverage :: "(string \<Rightarrow> string) \<Rightarrow> Rule list \<Rightarrow> TxnCtx list \<Rightarrow> CoverageSummary" where
  "SummarizeCoverage suggest rs txns =
     (let counts = map (\<lambda>r. length (filter (coverage_match suggest r) txns)) rs
      in \<lparr>cs_Covered = length [t \<leftarrow> txns. list_ex (\<lambda>r. coverage_match suggest r t) rs],
          cs_MaxMatchCount = foldl max 0 counts, cs_Counts = counts, cs_Conflicts = Conflicts rs\<rparr>)"

subsection \<open>The migration of amount conditions\<close>

definition flow_condition :: "string \<Rightarrow> RuleCondition" where
  "flow_condition flow = \<lparr>cd_Field = ConditionFieldFlow, cd_Op = ConditionOpEquals, cd_Value = flow, cd_Currency = []\<rparr>"

text \<open>What the loop makes of one condition, and the flow condition it appends.\<close>

definition migrate_condition :: "bool \<Rightarrow> RuleCondition \<Rightarrow> RuleCondition \<times> RuleCondition list" where
  "migrate_condition hasFlow c =
     (if cd_Field c \<noteq> ConditionFieldAmount then (c, [])
      else case ParseInt (trim_space (cd_Value c)) of
        None \<Rightarrow> (c, [])
      | Some n \<Rightarrow>
          if hasFlow then (c, [])
          else
            let op = cd_Op c; size = FormatInt (amountMagnitude n) in
            if n < 0 \<and> op = ConditionOpLt then (c\<lparr>cd_Op := ConditionOpGt, cd_Value := size\<rparr>, [flow_condition ''outflow''])
            else if n < 0 \<and> op = ConditionOpLte then (c\<lparr>cd_Op := ConditionOpGte, cd_Value := size\<rparr>, [flow_condition ''outflow''])
            else if n < 0 \<and> op = ConditionOpEq then (c\<lparr>cd_Value := size\<rparr>, [flow_condition ''outflow''])
            else if n > 0 \<and> op = ConditionOpEq then (c, [flow_condition ''inflow''])
            else if n = 0 \<and> (op = ConditionOpEq \<or> op = ConditionOpNeq) then (c, [])
            else if n = 0 \<and> op = ConditionOpLt then (c, [flow_condition ''outflow''])
            else if n = 0 \<and> op = ConditionOpGt then (c, [flow_condition ''inflow''])
            else if n > 0 \<and> (op = ConditionOpGt \<or> op = ConditionOpGte) then (c, [flow_condition ''inflow''])
            else (c\<lparr>cd_Field := ConditionFieldLegacySignedAmount\<rparr>, []))"

definition migrate_rule :: "Rule \<Rightarrow> Rule" where
  "migrate_rule r =
     (let hasFlow = list_ex (\<lambda>c. cd_Field c = ConditionFieldFlow) (rl_Conditions r);
          steps = map (migrate_condition hasFlow) (rl_Conditions r)
      in r\<lparr>rl_Conditions := map fst steps @ concat (map snd steps)\<rparr>)"

definition MigrateLegacyRuleSemantics :: "Rule list \<Rightarrow> Rule list \<times> bool" where
  "MigrateLegacyRuleSemantics rs = (let out = map migrate_rule rs in (out, out \<noteq> rs))"

subsection \<open>Shadowed rules\<close>

lemma strip_any_prefix: "strip_any ps (x @ y) = None \<Longrightarrow> strip_any ps x = None"
proof (induction ps)
  case (Cons p ps)
  have "strip_prefix p x = None"
  proof (rule ccontr)
    assume "strip_prefix p x \<noteq> None"
    then obtain r where "x = p @ r" by (auto simp: strip_prefix_Some)
    then have "strip_prefix p (x @ y) = Some (r @ y)" by (simp add: strip_prefix_Some)
    with Cons.prems show False by simp
  qed
  with Cons show ?case by (auto split: option.splits)
qed simp

lemma trim_left_with_stops: "[] \<notin> set ps \<Longrightarrow> strip_any ps (trim_left_with ps s) = None"
proof (induction ps s rule: trim_left_with.induct)
  case (1 ps s)
  then show ?case by (simp add: trim_left_with.simps [of ps s] split: option.split)
qed

lemma trim_left_with_suffix: "\<exists>a. s = a @ trim_left_with ps s"
proof (induction ps s rule: trim_left_with.induct)
  case (1 ps s)
  show ?case
  proof (cases "[] \<in> set ps \<or> strip_any ps s = None")
    case False
    then obtain r where r: "strip_any ps s = Some r" by auto
    with False 1 obtain a where "r = a @ trim_left_with ps r" by blast
    moreover obtain p where "s = p @ r" using strip_any_Some [OF r] by blast
    ultimately show ?thesis using False r by (metis append.assoc option.simps(5) trim_left_with.simps)
  qed (auto simp: trim_left_with.simps [of ps s])
qed

text \<open>The trimmed form of a text has nothing to trim, and neither has its lower case.\<close>

definition trimmed :: "string \<Rightarrow> bool" where
  "trimmed s \<longleftrightarrow> strip_any space_seqs s = None \<and> strip_any (map rev space_seqs) (rev s) = None"

lemma trimmed_id: "trimmed s \<Longrightarrow> trim_space s = s"
  by (simp add: trimmed_def trim_space_def trim_left_def trim_right_def trim_left_with.simps)

lemma trimmed_trim_space: "trimmed (trim_space s)"
proof -
  let ?l = "trim_left s"
  obtain a where a: "rev ?l = a @ trim_left_with (map rev space_seqs) (rev ?l)" using trim_left_with_suffix by blast
  then have "?l = trim_space s @ rev a" unfolding trim_space_def trim_right_def by (metis rev_append rev_rev_ident)
  moreover have "strip_any space_seqs ?l = None"
    unfolding trim_left_def by (rule trim_left_with_stops [OF space_seqs_nonempty])
  ultimately have "strip_any space_seqs (trim_space s) = None" by (metis strip_any_prefix)
  moreover have "strip_any (map rev space_seqs) (rev (trim_space s)) = None"
    unfolding trim_space_def trim_right_def rev_rev_ident by (rule trim_left_with_stops [OF rev_space_seqs_nonempty])
  ultimately show ?thesis by (simp add: trimmed_def)
qed

lemma lower_not_letter: "\<not> rule_letter c \<Longrightarrow> c = to_lower_char d \<longleftrightarrow> c = d"
  by (auto simp: rule_letter_def to_lower_char_def Let_def)

lemma strip_prefix_lower: "list_all (\<lambda>c. \<not> rule_letter c) p \<Longrightarrow> strip_prefix p (to_lower s) = map_option to_lower (strip_prefix p s)"
  by (induction p s rule: strip_prefix.induct) (auto simp: to_lower_def lower_not_letter)

lemma strip_any_lower:
  "list_all (list_all (\<lambda>c. \<not> rule_letter c)) ps \<Longrightarrow> strip_any ps (to_lower s) = map_option to_lower (strip_any ps s)"
  by (induction ps) (auto simp: strip_prefix_lower split: option.split)

lemma space_seqs_letters: "list_all (list_all (\<lambda>c. \<not> rule_letter c)) space_seqs"
    "list_all (list_all (\<lambda>c. \<not> rule_letter c)) (map rev space_seqs)"
  by code_simp+

lemma trimmed_lower: "trimmed s \<Longrightarrow> trimmed (to_lower s)"
  using strip_any_lower [OF space_seqs_letters(1), of s] strip_any_lower [OF space_seqs_letters(2), of "rev s"]
  by (simp add: trimmed_def to_lower_def rev_map)

lemma to_lower_idem [simp]: "to_lower (to_lower s) = to_lower s"
  by (auto simp: to_lower_def to_lower_char_def)

lemma phrase_id: "to_lower (trim_space (to_lower (trim_space s))) = to_lower (trim_space s)"
  by (simp add: trimmed_id trimmed_lower trimmed_trim_space)

text \<open>A phrase occurs where no word goes on to its left, if it begins with a letter.\<close>

definition occurs :: "string \<Rightarrow> string \<Rightarrow> bool" where
  "occurs t p \<longleftrightarrow> (\<exists>a b. t = a @ p @ b \<and> \<not> (rule_letter (hd p) \<and> a \<noteq> [] \<and> isRuleWordRune (last a)))"

lemma matchesRule_occurs:
  "matchesRule text pattern \<longleftrightarrow> to_lower (trim_space pattern) \<noteq> [] \<and> occurs (to_lower text) (to_lower (trim_space pattern))"
proof -
  define t where "t = to_lower text"
  define p where "p = to_lower (trim_space pattern)"
  let ?at = "\<lambda>i. \<not> (rule_letter (hd p) \<and> i > 0 \<and> isRuleWordRune (t ! (i - 1))) \<and> take (length p) (drop i t) = p"
  have "(\<exists>i < Suc (length t - length p). ?at i) \<longleftrightarrow> occurs t p" if "length p \<le> length t"
  proof
    assume "\<exists>i < Suc (length t - length p). ?at i"
    then obtain i where i: "i \<le> length t - length p" "?at i" by (auto simp: less_Suc_eq_le)
    have "t = take i t @ p @ drop (length p) (drop i t)" using i(2) by (metis append_take_drop_id)
    moreover have "last (take i t) = t ! (i - 1)" if "take i t \<noteq> []"
      using that i(1) \<open>length p \<le> length t\<close> by (simp add: last_conv_nth)
    moreover have "i > 0" if "take i t \<noteq> []" using that by (cases i) auto
    ultimately show "occurs t p" unfolding occurs_def using i(2) by metis
  next
    assume "occurs t p"
    then obtain a b where ab: "t = a @ p @ b" "\<not> (rule_letter (hd p) \<and> a \<noteq> [] \<and> isRuleWordRune (last a))"
      unfolding occurs_def by blast
    then have "?at (length a)" by (auto simp: last_conv_nth nth_append)
    moreover have "length a < Suc (length t - length p)" using ab(1) by simp
    ultimately show "\<exists>i < Suc (length t - length p). ?at i" by blast
  qed
  moreover have "length p \<le> length t" if "occurs t p" using that by (auto simp: occurs_def)
  ultimately show ?thesis
    unfolding matchesRule_def Let_def t_def [symmetric] p_def [symmetric]
    by (auto simp: list_ex_iff Bex_def not_less simp del: upt_Suc)
qed

lemma occurs_trans:
  assumes "occurs t p" "occurs p q" "q \<noteq> []"
  shows "occurs t q"
proof -
  obtain a b where ab: "t = a @ p @ b" "\<not> (rule_letter (hd p) \<and> a \<noteq> [] \<and> isRuleWordRune (last a))"
    using assms(1) unfolding occurs_def by blast
  obtain c d where cd: "p = c @ q @ d" "\<not> (rule_letter (hd q) \<and> c \<noteq> [] \<and> isRuleWordRune (last c))"
    using assms(2) unfolding occurs_def by blast
  have "\<not> (rule_letter (hd q) \<and> a @ c \<noteq> [] \<and> isRuleWordRune (last (a @ c)))"
    using ab(2) cd assms(3) by (cases c) auto
  moreover have "t = (a @ c) @ q @ (d @ b)" using ab(1) cd(1) by simp
  ultimately show ?thesis unfolding occurs_def by blast
qed

lemma find_index_Some: "find_index p xs = Some j \<Longrightarrow> j < length xs \<and> p (xs ! j) \<and> (\<forall>i<j. \<not> p (xs ! i))"
  by (auto simp: find_index_def find_Some_iff)

text \<open>C11: A rule that the conflict list reports, as without a phrase or as shadowed, never is the first to
  match, whatever the text, the transaction and the cleaned payee are.\<close>
theorem reported_rules_never_fire:
  assumes "(j, shadow) \<in> set (Conflicts rs)"
  shows "FirstMatch rs text \<noteq> Some j \<and> FirstMatchFull suggest rs t \<noteq> Some j"
proof -
  have plain: "rl_Conditions (rs ! j) = []" using assms by (auto simp: Conflicts_def Let_def split: if_splits)
  have earlier: "\<exists>i<j. rl_Conditions (rs ! i) = [] \<and> matchesRule s (rl_Match (rs ! i))" if "matchesRule s (rl_Match (rs ! j))" for s
  proof -
    have "to_lower (trim_space (rl_Match (rs ! j))) \<noteq> []" using that by (simp add: matchesRule_occurs)
    define shadows where "shadows = (\<lambda>i. rl_Conditions (rs ! i) = [] \<and> to_lower (trim_space (rl_Match (rs ! i))) \<noteq> [] \<and>
      matchesRule (to_lower (trim_space (rl_Match (rs ! j)))) (to_lower (trim_space (rl_Match (rs ! i)))))"
    have "find shadows [0..<j] \<noteq> None"
    proof
      assume "find shadows [0..<j] = None"
      with assms \<open>_ \<noteq> []\<close> show False by (auto simp: Conflicts_def Let_def shadows_def split: if_splits)
    qed
    then obtain i where "i < j" "shadows i" by (auto simp: find_None_iff)
    then have i: "i < j" "rl_Conditions (rs ! i) = []" "to_lower (trim_space (rl_Match (rs ! i))) \<noteq> []"
      "matchesRule (to_lower (trim_space (rl_Match (rs ! j)))) (to_lower (trim_space (rl_Match (rs ! i))))"
      by (simp_all add: shadows_def)
    have "matchesRule s (rl_Match (rs ! i))"
      using that i(3,4) unfolding matchesRule_occurs phrase_id to_lower_idem by (metis occurs_trans)
    with i(1,2) show ?thesis by blast
  qed
  have "FirstMatch rs text \<noteq> Some j"
    using earlier [of "text"] by (auto simp: FirstMatch_def dest!: find_index_Some)
  moreover have "FirstMatchFull suggest rs t \<noteq> Some j"
    using earlier plain
    by (auto simp: FirstMatchFull_def FirstMatchFullWhereCurrency_def ruleMatchesFull_def dest!: find_index_Some)
  ultimately show ?thesis ..
qed

subsection \<open>What the previews count\<close>

lemma strings_Contains_iff: "strings_Contains t p \<longleftrightarrow> (\<exists>a b. t = a @ p @ b)"
proof (induction t p rule: strings_Contains.induct)
  case (2 c s p)
  have "take (length p) (c # s) = p \<longleftrightarrow> (\<exists>b. c # s = p @ b)"
    by (metis append_eq_conv_conj append_take_drop_id)
  moreover have "(\<exists>a b. c # s = a @ p @ b) \<longleftrightarrow> (\<exists>b. c # s = p @ b) \<or> (\<exists>a b. s = a @ p @ b)"
    by (metis append_Cons append_Nil list.exhaust list.inject)
  ultimately show ?case using 2 by simp
qed auto

lemma preview_counts_matches: "ruleMatchesFull suggest (t\<lparr>ct_Currency := []\<rparr>) r \<Longrightarrow> matchesFull suggest r t"
  by (auto simp: ruleMatchesFull_def matchesFull_def matchesRule_occurs occurs_def matches_def matchesLowered_def
      strings_Contains_iff to_lower_def Let_def split: if_splits)

text \<open>A preview counts a transaction that the rule does not match: the phrase is inside a word.\<close>

lemma preview_counts_more:
  "let r = \<lparr>rl_ID = ''r'', rl_Match = ''uber'', rl_SetCategoryID = ''rides'', rl_SetTags = [], rl_RenameDesc = [],
       rl_SetBillAccountID = [], rl_SetMemberID = [], rl_SetReviewed = False, rl_SetExcludeFromReports = False,
       rl_Order = 0, rl_Conditions = [], rl_HitCount = 0, rl_LastRunAt = 0\<rparr>;
     t = \<lparr>ct_Payee = ''kuberbank'', ct_Desc = [], ct_AmountMinor = - 100, ct_Currency = [], ct_AccountID = [], ct_matchDate = (\<lambda>op v. False)\<rparr>
   in MatchCountFull (\<lambda>p. p) r [t] = 1 \<and> CoveredFull (\<lambda>p. p) [r] [t] = 0"
proof -
  have "trim_space ''uber'' = ''uber''" by (rule trim_space_id) (simp add: is_graph_def)
  moreover have "to_lower ''uber'' = ''uber''" "to_lower ''kuberbank  kuberbank'' = ''kuberbank  kuberbank''"
    by (simp_all add: to_lower_def to_lower_char_def)
  moreover have "strings_Contains ''kuberbank  kuberbank'' ''uber''" by simp
  moreover have "\<not> list_ex (\<lambda>start. \<not> (start > 0 \<and> isRuleWordRune (''kuberbank  kuberbank'' ! (start - 1))) \<and>
      take 4 (drop start ''kuberbank  kuberbank'') = ''uber'') [0..<17]"
    by (simp add: upt_rec [of _ 17] isRuleWordRune_def rule_letter_def)
  ultimately show ?thesis
    by (simp add: MatchCountFull_def CoveredFull_def matchesFull_def matches_def matchesLowered_def FirstMatchFull_def
        FirstMatchFullWhereCurrency_def find_index_def ruleMatchesFull_def matchesRule_def rule_letter_def isRuleWordRune_def Let_def)
qed

subsection \<open>The migration keeps what rules match\<close>

lemma ParseInt_range: "ParseInt s = Some n \<Longrightarrow> is_i64 n"
  by (auto simp: ParseInt_def is_i64_def Let_def split: if_splits)

lemma utoa_trimmed: "trim_space (utoa n) = utoa n"
  using utoa_facts [of n] is_digit_facts
  by (intro trim_space_id) (auto simp: allDigits_def list_all_iff)

lemma ParseInt_FormatInt: "0 \<le> n \<Longrightarrow> n < 2 ^ 63 \<Longrightarrow> ParseInt (trim_space (FormatInt n)) = Some n"
proof -
  assume n: "0 \<le> n" "n < 2 ^ 63"
  let ?s = "utoa (nat n)"
  have "is_digit (hd ?s)" "?s \<noteq> []" using utoa_facts [of "nat n"] by (auto simp: allDigits_def list_all_iff)
  then have "hd ?s \<noteq> CHR ''-''" "hd ?s \<noteq> CHR ''+''" using is_digit_facts by blast+
  with n show ?thesis using utoa_facts [of "nat n"] by (simp add: FormatInt_def utoa_trimmed ParseInt_def Let_def)
qed

text \<open>Before the migration an amount condition compares the signed amount.\<close>

definition legacy_condition :: "RuleCondition \<Rightarrow> RuleCondition" where
  "legacy_condition c = (if cd_Field c = ConditionFieldAmount then c\<lparr>cd_Field := ConditionFieldLegacySignedAmount\<rparr> else c)"

definition convertible :: "RuleCondition \<Rightarrow> bool" where
  "convertible c \<longleftrightarrow> cd_Field c = ConditionFieldAmount \<longrightarrow>
     ParseInt (trim_space (cd_Value c)) \<noteq> Some min_i64 \<and>
     \<not> (cd_Op c = ConditionOpLt \<and> ParseInt (trim_space (cd_Value c)) = Some 0)"

lemma flow_words: "trim_space ''inflow'' = ''inflow''" "trim_space ''outflow'' = ''outflow''"
    "to_lower ''inflow'' = ''inflow''" "to_lower ''outflow'' = ''outflow''"
  by (simp_all add: trim_space_id is_graph_def to_lower_def to_lower_char_def)

lemma flow_condition_matches: "matchOneCondition suggest t (flow_condition ''inflow'') = (ct_AmountMinor t > 0)"
    "matchOneCondition suggest t (flow_condition ''outflow'') = (ct_AmountMinor t < 0)"
  by (simp_all add: matchOneCondition_def flow_condition_def matchFlow_def flow_words Let_def)

lemma magnitude_simps: "is_i64 n \<Longrightarrow> n \<noteq> min_i64 \<Longrightarrow> amountMagnitude n = \<bar>n\<bar>"
  by (auto simp: amountMagnitude_def)

lemma migrate_condition_matches:
  assumes "convertible c" "is_i64 (ct_AmountMinor t)" "ct_AmountMinor t \<noteq> min_i64"
  shows "list_all (matchOneCondition suggest t) (fst (migrate_condition False c) # snd (migrate_condition False c)) \<longleftrightarrow>
    matchOneCondition suggest t (legacy_condition c)"
proof (cases "cd_Field c = ConditionFieldAmount")
  case False
  then show ?thesis by (simp add: migrate_condition_def legacy_condition_def)
next
  case amount: True
  show ?thesis
  proof (cases "ParseInt (trim_space (cd_Value c))")
    case None
    with amount show ?thesis
      by (simp add: migrate_condition_def legacy_condition_def matchOneCondition_def matchAmount_def matchSignedAmount_def Let_def)
  next
    case (Some n)
    have n: "is_i64 n" "n \<noteq> min_i64" using Some assms(1) amount ParseInt_range by (auto simp: convertible_def)
    then have size: "ParseInt (trim_space (FormatInt (amountMagnitude n))) = Some \<bar>n\<bar>"
      by (subst ParseInt_FormatInt) (auto simp: magnitude_simps is_i64_def)
    define a where "a = ct_AmountMinor t"
    have a: "amountMagnitude (ct_AmountMinor t) = \<bar>a\<bar>" using assms(2,3) by (simp add: a_def magnitude_simps)
    define scope where "scope = currency_scope c t"
    have idem: "amountMagnitude \<bar>n\<bar> = \<bar>n\<bar>" using n by (auto simp: amountMagnitude_def is_i64_def)
    note eval = matchOneCondition_def matchAmount_def matchSignedAmount_def currency_scope_def Let_def
    have upd: "matchOneCondition suggest t (c\<lparr>cd_Op := op, cd_Value := FormatInt (amountMagnitude n)\<rparr>) = (scope \<and> compare_op op \<bar>a\<bar> \<bar>n\<bar>)"
      "matchOneCondition suggest t (c\<lparr>cd_Value := FormatInt (amountMagnitude n)\<rparr>) = (scope \<and> compare_op (cd_Op c) \<bar>a\<bar> \<bar>n\<bar>)"
      "matchOneCondition suggest t c = (scope \<and> compare_op (cd_Op c) \<bar>a\<bar> \<bar>n\<bar>)"
      "matchOneCondition suggest t (c\<lparr>cd_Field := ConditionFieldLegacySignedAmount\<rparr>) = (scope \<and> compare_op (cd_Op c) a n)" for op
      using amount Some size a n
      by (simp_all add: eval scope_def a_def [symmetric] magnitude_simps idem)
    have legacy: "matchOneCondition suggest t (legacy_condition c) = (scope \<and> compare_op (cd_Op c) a n)"
      using amount upd(4) by (simp add: legacy_condition_def)
    have mig: "migrate_condition False c =
      (let op = cd_Op c; size = FormatInt (amountMagnitude n) in
            if n < 0 \<and> op = ConditionOpLt then (c\<lparr>cd_Op := ConditionOpGt, cd_Value := size\<rparr>, [flow_condition ''outflow''])
            else if n < 0 \<and> op = ConditionOpLte then (c\<lparr>cd_Op := ConditionOpGte, cd_Value := size\<rparr>, [flow_condition ''outflow''])
            else if n < 0 \<and> op = ConditionOpEq then (c\<lparr>cd_Value := size\<rparr>, [flow_condition ''outflow''])
            else if n > 0 \<and> op = ConditionOpEq then (c, [flow_condition ''inflow''])
            else if n = 0 \<and> (op = ConditionOpEq \<or> op = ConditionOpNeq) then (c, [])
            else if n = 0 \<and> op = ConditionOpLt then (c, [flow_condition ''outflow''])
            else if n = 0 \<and> op = ConditionOpGt then (c, [flow_condition ''inflow''])
            else if n > 0 \<and> (op = ConditionOpGt \<or> op = ConditionOpGte) then (c, [flow_condition ''inflow''])
            else (c\<lparr>cd_Field := ConditionFieldLegacySignedAmount\<rparr>, []))"
      using amount Some by (simp add: migrate_condition_def Let_def)
    have zero: "\<not> (cd_Op c = ConditionOpLt \<and> n = 0)" using assms(1) amount Some by (simp add: convertible_def)
    consider "cd_Op c = ConditionOpLt" | "cd_Op c = ConditionOpLte" | "cd_Op c = ConditionOpEq" | "cd_Op c = ConditionOpGt"
      | "cd_Op c = ConditionOpGte" | "cd_Op c = ConditionOpNeq"
      | "cd_Op c \<notin> {ConditionOpLt, ConditionOpLte, ConditionOpEq, ConditionOpGt, ConditionOpGte, ConditionOpNeq}" by blast
    then show ?thesis
      unfolding legacy mig Let_def
      by cases (use zero in \<open>auto simp: upd flow_condition_matches a_def [symmetric] compare_op_def split: if_splits\<close>)
  qed
qed

text \<open>C12: The migration of a rule that has no flow condition keeps which transactions its conditions match, when
  the amount conditions compared signed amounts before; the least amount, as a value or of the transaction,
  and the comparison below zero are left out.\<close>
theorem migration_keeps_matches:
  assumes "\<not> list_ex (\<lambda>c. cd_Field c = ConditionFieldFlow) (rl_Conditions r)" "list_all convertible (rl_Conditions r)"
    "is_i64 (ct_AmountMinor t)" "ct_AmountMinor t \<noteq> min_i64"
  shows "MatchConditions suggest (rl_Conditions (migrate_rule r)) t \<longleftrightarrow>
    MatchConditions suggest (map legacy_condition (rl_Conditions r)) t"
proof -
  have "list_all (matchOneCondition suggest t) (map (fst \<circ> migrate_condition False) cs @ concat (map (snd \<circ> migrate_condition False) cs)) \<longleftrightarrow>
      list_all (matchOneCondition suggest t) (map legacy_condition cs)" if "list_all convertible cs" for cs
    using that
  proof (induction cs)
    case (Cons c cs)
    then show ?case using migrate_condition_matches [of c t suggest] assms(3,4) by auto
  qed simp
  from this [OF assms(2)] assms(1) show ?thesis by (simp add: MatchConditions_def migrate_rule_def Let_def)
qed

text \<open>A second migration changes nothing.\<close>

lemma migrate_condition_quiet:
  "snd (migrate_condition False c) = [] \<Longrightarrow> fst (migrate_condition False c) = c \<or>
     cd_Field (fst (migrate_condition False c)) = ConditionFieldLegacySignedAmount"
  by (auto simp: migrate_condition_def Let_def split: option.splits if_splits)

lemma migrate_condition_stays:
  assumes "snd (migrate_condition False c) = []"
  shows "migrate_condition False (fst (migrate_condition False c)) = (fst (migrate_condition False c), [])"
  using migrate_condition_quiet [OF assms]
proof
  assume c: "fst (migrate_condition False c) = c"
  show ?thesis unfolding c by (rule prod_eqI) (simp_all only: c assms fst_conv snd_conv)
next
  assume "cd_Field (fst (migrate_condition False c)) = ConditionFieldLegacySignedAmount"
  then show ?thesis by (simp add: migrate_condition_def [of False "fst (migrate_condition False c)"])
qed

lemma migrate_condition_flow: "migrate_condition True c = (c, [])"
  by (auto simp: migrate_condition_def Let_def split: option.split)

lemma migrate_condition_fields:
  "f \<in> set (snd (migrate_condition h c)) \<Longrightarrow> cd_Field f = ConditionFieldFlow"
  "cd_Field (fst (migrate_condition h c)) = ConditionFieldFlow \<longleftrightarrow> cd_Field c = ConditionFieldFlow"
  by (auto simp: migrate_condition_def flow_condition_def Let_def split: option.splits if_splits)

lemma migration_idempotent: "migrate_rule (migrate_rule r) = migrate_rule r"
proof -
  have id: "map fst (map (migrate_condition True) cs) @ concat (map snd (map (migrate_condition True) cs)) = cs" for cs
    by (induction cs) (simp_all add: migrate_condition_flow)
  let ?flow = "list_ex (\<lambda>c. cd_Field c = ConditionFieldFlow)"
  show ?thesis
  proof (cases "?flow (rl_Conditions (migrate_rule r))")
    case True
    then show ?thesis by (simp only: migrate_rule_def [of "migrate_rule r"] Let_def id) simp
  next
    case False
    define h where "h = ?flow (rl_Conditions r)"
    have conds: "rl_Conditions (migrate_rule r) = map fst (map (migrate_condition h) (rl_Conditions r)) @
        concat (map snd (map (migrate_condition h) (rl_Conditions r)))"
      by (simp add: migrate_rule_def h_def Let_def)
    have kept: "cd_Field d \<noteq> ConditionFieldFlow" if "d \<in> set (rl_Conditions (migrate_rule r))" for d
      using False that unfolding list_ex_iff by blast
    have "cd_Field c \<noteq> ConditionFieldFlow" if "c \<in> set (rl_Conditions r)" for c
      using kept [of "fst (migrate_condition h c)"] that migrate_condition_fields(2) [of h c] by (simp add: conds)
    then have h: "h = False" by (simp add: h_def list_ex_iff)
    have none: "snd (migrate_condition False c) = []" if "c \<in> set (rl_Conditions r)" for c
    proof (rule ccontr)
      assume "snd (migrate_condition False c) \<noteq> []"
      then obtain f where f: "f \<in> set (snd (migrate_condition False c))" by (meson list.set_sel(1))
      with that have "f \<in> set (rl_Conditions (migrate_rule r))" unfolding conds h by auto
      with kept migrate_condition_fields(1) [OF f] show False by blast
    qed
    have "concat (map snd (map (migrate_condition False) (rl_Conditions r))) = []" using none by simp
    with conds h have cs: "rl_Conditions (migrate_rule r) = map (fst \<circ> migrate_condition False) (rl_Conditions r)" by simp
    have none: "\<forall>c \<in> set (rl_Conditions r). snd (migrate_condition False c) = []" using none by blast
    have "map fst (map (migrate_condition False) ds) @ concat (map snd (map (migrate_condition False) ds)) = ds"
      if "ds = map (fst \<circ> migrate_condition False) es" "\<forall>c \<in> set es. snd (migrate_condition False c) = []" for ds es
      using that by (induction es arbitrary: ds) (auto simp: migrate_condition_stays)
    note same = this [OF cs none]
    show ?thesis by (simp only: migrate_rule_def [of "migrate_rule r"] Let_def False same) simp
  qed
qed

text \<open>The exception: a condition below zero keeps its comparison, which no magnitude satisfies.\<close>

lemma below_zero_never_matches:
  "ParseInt (trim_space (cd_Value c)) = Some 0 \<Longrightarrow> cd_Field c = ConditionFieldAmount \<Longrightarrow> cd_Op c = ConditionOpLt \<Longrightarrow>
   is_i64 (ct_AmountMinor t) \<Longrightarrow> fst (migrate_condition False c) = c \<and> \<not> matchOneCondition suggest t c"
  by (auto simp: migrate_condition_def matchOneCondition_def matchAmount_def compare_op_def amountMagnitude_def Let_def)

subsection \<open>Witnesses\<close>

definition phrase_rule :: "string \<Rightarrow> RuleCondition list \<Rightarrow> Rule" where
  "phrase_rule phrase conditions = \<lparr>rl_ID = phrase, rl_Match = phrase, rl_SetCategoryID = [], rl_SetTags = [], rl_RenameDesc = [],
     rl_SetBillAccountID = [], rl_SetMemberID = [], rl_SetReviewed = False, rl_SetExcludeFromReports = False,
     rl_Order = 0, rl_Conditions = conditions, rl_HitCount = 0, rl_LastRunAt = 0\<rparr>"

lemma reported_rules_never_fire_witness:
  "FirstMatch [phrase_rule ''uber'' [], phrase_rule ''uber'' []] ''uber'' \<noteq> Some 1"
proof -
  have low: "to_lower (trim_space ''uber'') = ''uber''"
    by (simp add: trim_space_id is_graph_def to_lower_def to_lower_char_def)
  then have "occurs (to_lower ''uber'') (to_lower (trim_space ''uber''))"
    unfolding occurs_def by (intro exI [of _ "[]"]) (simp add: to_lower_def to_lower_char_def)
  with low have "matchesRule ''uber'' ''uber''" by (simp add: matchesRule_occurs)
  with low have "(1, Some 0) \<in> set (Conflicts [phrase_rule ''uber'' [], phrase_rule ''uber'' []])"
    by (simp add: Conflicts_def phrase_rule_def Let_def)
  from reported_rules_never_fire [OF this, THEN conjunct1] show ?thesis .
qed

lemma migration_keeps_matches_witness:
  "let c = \<lparr>cd_Field = ConditionFieldAmount, cd_Op = ConditionOpLt, cd_Value = ''-5'', cd_Currency = []\<rparr>;
       t = \<lparr>ct_Payee = [], ct_Desc = [], ct_AmountMinor = - 8, ct_Currency = [], ct_AccountID = [], ct_matchDate = (\<lambda>op v. False)\<rparr>
   in MatchConditions (\<lambda>p. p) (rl_Conditions (migrate_rule (phrase_rule [] [c]))) t \<longleftrightarrow>
      MatchConditions (\<lambda>p. p) (map legacy_condition [c]) t"
  unfolding Let_def
proof -
  let ?c = "\<lparr>cd_Field = ConditionFieldAmount, cd_Op = ConditionOpLt, cd_Value = ''-5'', cd_Currency = []\<rparr>"
  let ?t = "\<lparr>ct_Payee = [], ct_Desc = [], ct_AmountMinor = - 8, ct_Currency = [], ct_AccountID = [], ct_matchDate = (\<lambda>op v. False)\<rparr>"
  have "trim_space ''-5'' = ''-5''" by (simp add: trim_space_id is_graph_def)
  moreover have "ParseInt ''-5'' = Some (- 5)"
    by (simp add: ParseInt_def allDigits_def is_digit_def digit_val_def Let_def)
  ultimately have "list_all convertible [?c]" by (simp add: convertible_def)
  then show "MatchConditions (\<lambda>p. p) (rl_Conditions (migrate_rule (phrase_rule [] [?c]))) ?t \<longleftrightarrow>
      MatchConditions (\<lambda>p. p) (map legacy_condition [?c]) ?t"
    using migration_keeps_matches [of "phrase_rule [] [?c]" ?t "\<lambda>p. p"] by (simp add: phrase_rule_def is_i64_def)
qed

end
