(* ===== verification/Paging.thy ===== *)
theory Paging
  imports Go_Prelude
begin

text \<open>
  Pages of a list (\<open>internal/pagination\<close>) and the delays between attempts to reconnect
  (\<open>backoff/backoff.go\<close>), with the wrap-around of int64. Shows that the pages of a list are the list, and
  that the delay doubles up to its cap however long the outage is.
\<close>

subsection \<open>Pages\<close>

definition TotalPages :: "int \<Rightarrow> int \<Rightarrow> int" where
  "TotalPages cnt sz =
     (if cnt \<le> 0 then 1 else if sz \<le> 0 then 1 else wrap64 (wrap64 (cnt + sz) - 1) sdiv sz)"

definition Clamp_page :: "int \<Rightarrow> int \<Rightarrow> int \<Rightarrow> int" where
  "Clamp_page page cnt sz =
     (if page < 1 then 1 else let tp = TotalPages cnt sz in if page > tp then tp else page)"

definition Bounds :: "int \<Rightarrow> int \<Rightarrow> int \<Rightarrow> int \<times> int" where
  "Bounds page cnt sz =
     (if cnt \<le> 0 then (0, 0)
      else if sz \<le> 0 then (0, cnt)
      else
        let page = Clamp_page page cnt sz; start = wrap64 ((page - 1) * sz); stop = wrap64 (start + sz)
        in (start, if stop > cnt then cnt else stop))"

text \<open>Slicing panics out of range: \<open>None\<close>.\<close>

definition Slice :: "'a list \<Rightarrow> int \<Rightarrow> int \<Rightarrow> 'a list option" where
  "Slice items page sz =
     (let (start, stop) = Bounds page (int (length items)) sz
      in if start < 0 \<or> stop < start \<or> stop > int (length items) then None
         else Some (take (nat (stop - start)) (drop (nat start) items)))"

definition Window_rows :: "int \<Rightarrow> int \<Rightarrow> int \<Rightarrow> int \<times> int" where
  "Window_rows page cnt sz =
     (let (start, stop) = Bounds page cnt sz in if cnt \<le> 0 \<or> stop = 0 then (0, 0) else (start + 1, stop))"

lemma concat_chunks: "concat (map (\<lambda>k. take s (drop (k * s) xs)) [0..<n]) = take (n * s) xs"
proof (induction n)
  case (Suc n)
  have "take (Suc n * s) xs = take (n * s) xs @ take s (drop (n * s) xs)"
    using take_add [of "n * s" s xs] by (simp add: add.commute)
  with Suc show ?case by simp
qed simp

lemma TotalPages_eq:
  assumes "0 < n" "0 < s" "n + s \<le> max_i64"
  shows "TotalPages n s = (n + s - 1) div s" "1 \<le> TotalPages n s" "(TotalPages n s - 1) * s < n" "n \<le> TotalPages n s * s"
proof -
  have range: "is_i64 (n + s)" "is_i64 (n + s - 1)" using assms by (simp_all add: is_i64_def)
  then show eq: "TotalPages n s = (n + s - 1) div s" using assms by (simp add: TotalPages_def sdiv_pos)
  define q where "q = (n + s - 1) div s"
  have q: "q * s \<le> n + s - 1" "n + s - 1 < (q + 1) * s"
  proof -
    define r where "r = (n + s - 1) mod s"
    have "q * s + r = n + s - 1" unfolding q_def r_def by (rule div_mult_mod_eq)
    moreover have "0 \<le> r" "r < s" using assms(2) by (simp_all add: r_def)
    ultimately show "q * s \<le> n + s - 1" "n + s - 1 < (q + 1) * s" by (simp_all add: distrib_right)
  qed
  then show "(TotalPages n s - 1) * s < n" "n \<le> TotalPages n s * s" by (simp_all add: eq q_def [symmetric] algebra_simps)
  with assms have "0 < TotalPages n s * s" by linarith
  with assms show "1 \<le> TotalPages n s" by (simp add: zero_less_mult_iff)
qed

lemma Slice_page:
  assumes "items \<noteq> []" "0 < s" "int (length items) + int s \<le> max_i64" "int k < TotalPages (int (length items)) (int s)"
  shows "Slice items (int k + 1) (int s) = Some (take s (drop (k * s) items))"
proof -
  let ?n = "int (length items)"
  have n: "0 < ?n" "0 < int s" using assms(1,2) by simp_all
  note pages = TotalPages_eq [OF n assms(3)]
  have "int k * int s \<le> (TotalPages ?n (int s) - 1) * int s" using assms(4) by (intro mult_right_mono) simp_all
  with pages(3) have start: "int k * int s < ?n" by linarith
  moreover have "0 \<le> int k * int s" by simp
  ultimately have "is_i64 (int k * int s)" "is_i64 (int k * int s + int s)"
    using assms(3) unfolding is_i64_def by linarith+
  with assms(4) n have "Bounds (int k + 1) ?n (int s) = (int k * int s, min ?n (int k * int s + int s))"
    by (simp add: Bounds_def Clamp_page_def Let_def min_def)
  moreover have "take (nat (min ?n (int k * int s + int s) - int k * int s)) (drop (nat (int k * int s)) items) = take s (drop (k * s) items)"
  proof -
    have "nat (int k * int s) = k * s" by (metis nat_int of_nat_mult)
    moreover have "nat (min ?n (int k * int s + int s) - int k * int s) = min (length items - k * s) s"
      using start by (simp add: min_def nat_diff_distrib' flip: of_nat_mult of_nat_add) linarith
    ultimately show ?thesis by (simp add: min_def)
  qed
  moreover have "\<not> int k * int s < 0" "int k * int s \<le> min (int (length items)) (int k * int s + int s)"
    using start by (simp_all add: not_less)
  ultimately show ?thesis by (simp add: Slice_def not_less)
qed

text \<open>The pages of a list, each by its number, are the list, cut in order and without a row left out or
  shown twice.\<close>
lemma pages_are_the_list:
  assumes "items \<noteq> []" "0 < s" "int (length items) + int s \<le> max_i64"
  shows "concat (map (\<lambda>k. the (Slice items (int k + 1) (int s))) [0..<nat (TotalPages (int (length items)) (int s))]) = items \<and>
    list_all (\<lambda>k. Slice items (int k + 1) (int s) \<noteq> None) [0..<nat (TotalPages (int (length items)) (int s))]"
proof -
  let ?p = "nat (TotalPages (int (length items)) (int s))"
  have slice: "Slice items (int k + 1) (int s) = Some (take s (drop (k * s) items))" if "k \<in> set [0..<?p]" for k
    using that by (intro Slice_page assms) simp
  have "int (length items) \<le> int (?p * s)" using TotalPages_eq(2,4) [of "int (length items)" "int s"] assms by simp
  then have "length items \<le> ?p * s" by linarith
  moreover have "map (\<lambda>k. the (Slice items (int k + 1) (int s))) [0..<?p] = map (\<lambda>k. take s (drop (k * s) items)) [0..<?p]"
    using slice by (intro map_cong) simp_all
  ultimately have "concat (map (\<lambda>k. the (Slice items (int k + 1) (int s))) [0..<?p]) = items"
    by (simp only: concat_chunks take_all)
  then show ?thesis using slice by (simp add: list_all_iff)
qed

subsection \<open>Delays\<close>

fun delay_loop :: "nat \<Rightarrow> int \<Rightarrow> int \<Rightarrow> int" where
  "delay_loop 0 d cap = (if d > cap then cap else d)"
| "delay_loop (Suc k) d cap =
     (let d = wrap64 (d * 2) in if d \<ge> cap \<or> d \<le> 0 then cap else delay_loop k d cap)"

definition Delay :: "int \<Rightarrow> int \<Rightarrow> int \<Rightarrow> int" where
  "Delay attempt base cap =
     (if base \<le> 0 then 0
      else let cap = (if cap < base then base else cap)
        in if attempt \<le> 0 then base else delay_loop (nat attempt) base cap)"

lemma double_wraps: "0 < d \<Longrightarrow> d \<le> max_i64 \<Longrightarrow> wrap64 (d * 2) = (if d * 2 \<le> max_i64 then d * 2 else d * 2 - 2 ^ 64)"
proof -
  assume d: "0 < d" "d \<le> max_i64"
  show ?thesis
  proof (cases "d * 2 \<le> max_i64")
    case False
    have "d * 2 + two63 = d * 2 - two64 + two63 + 1 * two64" by simp
    then have "(d * 2 + two63) mod two64 = (d * 2 - two64 + two63) mod two64" by (simp only: mod_mult_self1)
    then have "wrap64 (d * 2) = wrap64 (d * 2 - 2 ^ 64)" unfolding wrap64_def by simp
    moreover have "is_i64 (d * 2 - 2 ^ 64)" using d False by (simp add: is_i64_def)
    ultimately show ?thesis using False by simp
  qed (use d in \<open>simp add: is_i64_def\<close>)
qed

lemma delay_loop_eq: "0 < d \<Longrightarrow> d \<le> cap \<Longrightarrow> cap \<le> max_i64 \<Longrightarrow> delay_loop k d cap = min cap (d * 2 ^ k)"
proof (induction k arbitrary: d)
  case (Suc k)
  have big: "d * 2 \<le> d * 2 ^ Suc k" using Suc.prems(1) by simp
  show ?case
  proof (cases "d * 2 < cap")
    case True
    with Suc have "delay_loop k (d * 2) cap = min cap (d * 2 * 2 ^ k)" by simp
    with True Suc.prems show ?thesis by (simp add: double_wraps Let_def mult_ac)
  next
    case False
    then have "delay_loop (Suc k) d cap = cap" using Suc.prems by (simp add: double_wraps Let_def)
    with False big show ?thesis by linarith
  qed
qed simp

text \<open>The delay before an attempt is the base doubled that often, up to the cap, for any number of attempts.\<close>
lemma Delay_doubles_to_cap:
  assumes "0 < base" "is_i64 base" "is_i64 cap"
  shows "Delay attempt base cap = min (max cap base) (base * 2 ^ nat attempt)"
proof (cases "attempt \<le> 0")
  case False
  have "(if cap < base then base else cap) = max cap base" by simp
  then have "Delay attempt base cap = delay_loop (nat attempt) base (max cap base)"
    using False assms(1) by (simp add: Delay_def Let_def)
  also have "\<dots> = min (max cap base) (base * 2 ^ nat attempt)"
    using assms by (intro delay_loop_eq) (simp_all add: is_i64_def)
  finally show ?thesis .
qed (use assms in \<open>simp add: Delay_def\<close>)

lemma paging_examples:
  "Bounds 7 312 50 = (300, 312)" "Window_rows 9 312 50 = (301, 312)" "Slice [1, 2, 3 :: nat] 2 2 = Some [3]"
  "Delay 6 2000000000 120000000000 = 120000000000"
  by code_simp+

end
