(* ===== verification/Calendar.thy ===== *)
theory Calendar
  imports Go_Prelude
begin

text \<open>
  Calendar dates and reporting periods, \<open>internal/dateutil\<close> and \<open>internal/period\<close>: the Gregorian
  calendar of \<open>time.Date\<close>, month, week and fiscal-month boundaries, and the window the dashboard
  steps. A \<open>time.Time\<close> is its wall clock reading in nanoseconds since 1970 and the offset of its
  zone; a location is a fixed offset, so daylight saving is left out. Years, months and days are
  unbounded integers. Weeks, months, quarters, years and fiscal months are instances of one
  interface, a numbering of consecutive units of days (locale \<open>calendar_unit\<close>). Shows that the
  ranges built partition the calendar, that stepping and counting units agree, and that windows
  keep their ends in order.
\<close>

subsection \<open>Days and dates\<close>

definition leap :: "int \<Rightarrow> bool" where
  "leap y \<longleftrightarrow> y mod 4 = 0 \<and> (y mod 100 \<noteq> 0 \<or> y mod 400 = 0)"

text \<open>Days from the first of January of year 1.\<close>

definition days_before_year :: "int \<Rightarrow> int" where
  "days_before_year y = 365 * (y - 1) + (y - 1) div 4 - (y - 1) div 100 + (y - 1) div 400"

definition days_before_month :: "bool \<Rightarrow> int \<Rightarrow> int" where
  "days_before_month l m =
     (if m \<le> 1 then 0 else if m = 2 then 31
      else (if l then 1 else 0) +
        (if m = 3 then 59 else if m = 4 then 90 else if m = 5 then 120 else if m = 6 then 151
         else if m = 7 then 181 else if m = 8 then 212 else if m = 9 then 243 else if m = 10 then 273
         else if m = 11 then 304 else if m = 12 then 334 else 365))"

text \<open>The day number of month \<open>i\<close>, counted from January of year 0, and that of a date, whose month
  and day may be out of range as \<open>time.Date\<close> allows.\<close>

definition month_start :: "int \<Rightarrow> int" where
  "month_start i = days_before_year (i div 12) + days_before_month (leap (i div 12)) (i mod 12 + 1) - 719162"

definition unix_day :: "int \<Rightarrow> int \<Rightarrow> int \<Rightarrow> int" where
  "unix_day y m d = month_start (12 * y + (m - 1)) + (d - 1)"

definition year_of :: "int \<Rightarrow> int" where
  "year_of n = (let n = n + 719162; y = (400 * n) div 146097 + 1
     in if n < days_before_year y then y - 1 else if n \<ge> days_before_year (y + 1) then y + 1 else y)"

definition month_of :: "int \<Rightarrow> int" where
  "month_of n = (let y = year_of n; yd = n + 719162 - days_before_year y
     in int (length [m \<leftarrow> [1..12]. days_before_month (leap y) m \<le> yd]))"

definition month_index :: "int \<Rightarrow> int" where
  "month_index n = 12 * year_of n + (month_of n - 1)"

definition civil :: "int \<Rightarrow> int \<times> int \<times> int" where
  "civil n = (year_of n, month_of n, n - month_start (month_index n) + 1)"

lemma div_bounds: "0 < (c :: int) \<Longrightarrow> c * (x div c) \<le> x \<and> x < c * (x div c) + c"
  using mult_div_mod_eq [of c x] pos_mod_bound [of c x] pos_mod_sign [of c x] by linarith

lemma div_mod_succ:
  assumes "0 < (c :: int)"
  shows "(i + 1) div c = (if i mod c = c - 1 then i div c + 1 else i div c)"
    "(i + 1) mod c = (if i mod c = c - 1 then 0 else i mod c + 1)"
proof -
  have i: "c * (i div c) + i mod c = i" by simp
  have "(i + 1) div c = (if i mod c = c - 1 then i div c + 1 else i div c) \<and>
    (i + 1) mod c = (if i mod c = c - 1 then 0 else i mod c + 1)"
  proof (cases "i mod c = c - 1")
    case True
    with i have "i + 1 = c * (i div c + 1) + 0" by (simp add: algebra_simps)
    from int_div_pos_eq [OF this] int_mod_pos_eq [OF this] True assms show ?thesis by simp
  next
    case False
    with pos_mod_bound [OF assms, of i] have "i mod c + 1 < c" by linarith
    moreover have "i + 1 = c * (i div c) + (i mod c + 1)" using i by simp
    ultimately show ?thesis using False pos_mod_sign [OF assms, of i]
        int_div_pos_eq [of "i + 1" c "i div c" "i mod c + 1"] int_mod_pos_eq [of "i + 1" c "i div c" "i mod c + 1"] by simp
  qed
  then show "(i + 1) div c = (if i mod c = c - 1 then i div c + 1 else i div c)"
    "(i + 1) mod c = (if i mod c = c - 1 then 0 else i mod c + 1)" by blast+
qed

lemma year_arith: "365 * y + a - b + c - (365 * (y - 1) + a' - b' + c') = 365 + (a - a') - (b - b') + (c - c' :: int)"
  by simp

lemma leap_arith: "(C \<Longrightarrow> B) \<Longrightarrow> (B \<Longrightarrow> A) \<Longrightarrow>
    365 + (if A then 1 else 0) - (if B then 1 else 0) + (if C then 1 else 0) = (if A \<and> (\<not> B \<or> C) then 366 else 365 :: int)"
  by (cases A; cases B; cases C) simp_all

lemma year_length: "days_before_year (y + 1) = days_before_year y + (if leap y then 366 else 365)"
proof -
  have step: "y div c - (y - 1) div c = (if y mod c = 0 then 1 else 0)" if "1 < c" for c
  proof -
    from that have "0 < c" by simp
    from div_mod_succ [OF this, of "y - 1"] pos_mod_sign [OF this, of "y - 1"] show ?thesis by (simp split: if_splits)
  qed
  have imp: "y mod 100 = 0" if "y mod 400 = 0" using that dvd_trans [of 100 400 y] by (simp add: mod_eq_0_iff_dvd)
  have imp': "y mod 4 = 0" if "y mod 100 = 0" using that dvd_trans [of 4 100 y] by (simp add: mod_eq_0_iff_dvd)
  have "days_before_year (y + 1) - days_before_year y =
      365 + (y div 4 - (y - 1) div 4) - (y div 100 - (y - 1) div 100) + (y div 400 - (y - 1) div 400)"
    unfolding days_before_year_def add_diff_cancel_right' by (rule year_arith)
  also have "\<dots> = 365 + (if y mod 4 = 0 then 1 else 0) - (if y mod 100 = 0 then 1 else 0) + (if y mod 400 = 0 then 1 else 0)"
    by (simp only: step rel_simps)
  also have "\<dots> = (if leap y then 366 else 365)" unfolding leap_def using imp imp' by (rule leap_arith)
  finally show ?thesis by (simp only: diff_eq_eq add.commute)
qed

lemma year_of_bounds:
  "days_before_year (year_of n) \<le> n + 719162 \<and> n + 719162 < days_before_year (year_of n + 1)"
proof -
  define k where "k = n + 719162"
  define y where "y = (400 * k) div 146097 + 1"
  have est: "146097 * (y - 1) \<le> 400 * k" "400 * k < 146097 * y"
    using div_bounds [of 146097 "400 * k"]
    unfolding y_def by simp_all
  have approx: "146097 * (z - 1) - 699 \<le> 400 * days_before_year z" "400 * days_before_year z \<le> 146097 * (z - 1) + 396" for z
    using div_bounds [of 4 "z - 1"] div_bounds [of 100 "z - 1"] div_bounds [of 400 "z - 1"]
    unfolding days_before_year_def by simp_all
  have "k < days_before_year (y + 2)" "days_before_year (y - 1) \<le> k"
    using est approx(1) [of "y + 2"] approx(2) [of "y - 1"] by (simp_all add: algebra_simps)
  then show ?thesis by (auto simp: year_of_def Let_def y_def [symmetric] k_def [symmetric] add.assoc)
qed

lemma month_cases:
  assumes "1 \<le> (m :: int)" "m \<le> 12"
  shows "m = 1 \<or> m = 2 \<or> m = 3 \<or> m = 4 \<or> m = 5 \<or> m = 6 \<or> m = 7 \<or> m = 8 \<or> m = 9 \<or> m = 10 \<or> m = 11 \<or> m = 12"
  using assms by presburger

lemma days_before_month_mono: "1 \<le> m \<Longrightarrow> m \<le> 12 \<Longrightarrow>
    days_before_month l m + 28 \<le> days_before_month l (m + 1) \<and> days_before_month l (m + 1) \<le> days_before_month l m + 31"
  by (drule (1) month_cases) (elim disjE; simp add: days_before_month_def)

lemma days_before_month_ends [simp]:
  "days_before_month l 1 = 0" "days_before_month l 13 = (if l then 366 else 365)"
  by (simp_all add: days_before_month_def)

lemma month_start_next: "month_start i + 28 \<le> month_start (i + 1) \<and> month_start (i + 1) \<le> month_start i + 31"
proof -
  have "1 \<le> i mod 12 + 1" "i mod 12 + 1 \<le> 12" using pos_mod_bound [of 12 i] pos_mod_sign [of 12 i] by linarith+
  from days_before_month_mono [OF this, of "leap (i div 12)"] show ?thesis
    using year_length [of "i div 12"] by (cases "i mod 12 = 11") (simp_all add: month_start_def div_mod_succ)
qed

lemma month_of_bounds:
  "1 \<le> month_of n \<and> month_of n \<le> 12 \<and>
   days_before_month (leap (year_of n)) (month_of n) \<le> n + 719162 - days_before_year (year_of n) \<and>
   n + 719162 - days_before_year (year_of n) < days_before_month (leap (year_of n)) (month_of n + 1)"
proof -
  define l where "l = leap (year_of n)"
  define yd where "yd = n + 719162 - days_before_year (year_of n)"
  have yd: "0 \<le> yd" "yd < (if l then 366 else 365)"
    using year_of_bounds [of n] year_length [of "year_of n"] by (simp_all add: yd_def l_def)
  have "[1..12] = [1, 2, 3, 4, 5, 6, 7, 8, 9, 10, 11, 12 :: int]" by (simp add: upto.simps)
  then have "month_of n = int (length [m \<leftarrow> [1, 2, 3, 4, 5, 6, 7, 8, 9, 10, 11, 12]. days_before_month l m \<le> yd])"
    by (simp add: month_of_def Let_def yd_def l_def)
  with yd show ?thesis unfolding l_def [symmetric] yd_def [symmetric]
    by (cases l) (simp_all add: days_before_month_def split: if_splits)
qed

lemma month_index_bounds: "month_start (month_index n) \<le> n \<and> n < month_start (month_index n + 1)"
proof -
  note B = month_of_bounds [of n]
  have i: "month_index n div 12 = year_of n" "month_index n mod 12 = month_of n - 1"
    using B by (simp_all add: month_index_def)
  show ?thesis
  proof (cases "month_of n = 12")
    case True
    then have "month_index n + 1 = 12 * (year_of n + 1)" by (simp add: month_index_def)
    with i B True show ?thesis using year_of_bounds [of n] by (simp add: month_start_def add.commute [of 1])
  next
    case False
    with B have "(month_index n + 1) div 12 = year_of n" "(month_index n + 1) mod 12 = month_of n"
      by (simp_all add: month_index_def)
    with i B show ?thesis by (simp add: month_start_def)
  qed
qed

subsection \<open>Units of days\<close>

text \<open>A numbering of consecutive units: where unit \<open>i\<close> starts, and the unit a day lies in.\<close>

locale calendar_unit =
  fixes start :: "int \<Rightarrow> int" and index :: "int \<Rightarrow> int"
  assumes inside: "start (index n) \<le> n" "n < start (index n + 1)"
    and next_start: "start i < start (i + 1)"
begin

lemma start_mono: "i \<le> j \<Longrightarrow> start i \<le> start j"
  by (induction j rule: int_ge_induct) (auto intro: order.trans less_imp_le next_start)

lemma start_strict: "i < j \<Longrightarrow> start i < start j"
  using start_mono [of "i + 1" j] next_start [of i] by linarith

lemma start_less [simp]: "start i < start j \<longleftrightarrow> i < j"
  using start_mono [of j i] start_strict [of i j] by linarith

lemma start_eq [simp]: "start i = start j \<longleftrightarrow> i = j"
  by (metis less_irrefl linorder_less_linear start_strict)

lemma index_iff: "index n = i \<longleftrightarrow> start i \<le> n \<and> n < start (i + 1)"
proof
  assume n: "start i \<le> n \<and> n < start (i + 1)"
  with inside [of n] have "start i < start (index n + 1)" "start (index n) < start (i + 1)" by linarith+
  then show "index n = i" by simp
qed (use inside in auto)

lemma index_start [simp]: "index (start i) = i"
  by (simp add: index_iff next_start)

end

definition week_start :: "int \<Rightarrow> int \<Rightarrow> int" where "week_start w i = 7 * i + w - 4"
definition week_index :: "int \<Rightarrow> int \<Rightarrow> int" where "week_index w n = (n + 4 - w) div 7"

text \<open>The months, quarters and years are blocks of \<open>k\<close> months.\<close>

lemma month_unit: "calendar_unit month_start month_index"
  using month_index_bounds month_start_next by unfold_locales (auto, smt (verit))

interpretation months: calendar_unit month_start month_index by (rule month_unit)

lemma month_blocks: "0 < k \<Longrightarrow> calendar_unit (\<lambda>i. month_start (k * i)) (\<lambda>n. month_index n div k)"
proof unfold_locales
  fix n i assume k: "(0::int) < k"
  define q r where "q = month_index n div k" and "r = month_index n mod k"
  have "k * q + r = month_index n" "0 \<le> r" "r < k" using k by (simp_all add: q_def r_def)
  then have "k * q \<le> month_index n" "month_index n + 1 \<le> k * (q + 1)" by (simp_all add: distrib_left)
  then show "month_start (k * (month_index n div k)) \<le> n" "n < month_start (k * (month_index n div k + 1))"
    using months.inside [of n] months.start_mono unfolding q_def by (meson order.trans order.strict_trans2)+
  show "month_start (k * i) < month_start (k * (i + 1))" using k by (simp add: algebra_simps)
qed

end
