(* ===== verification/Periods.thy ===== *)
theory Periods
  imports Calendar
begin

text \<open>
  The boundaries of \<open>internal/dateutil\<close> and the periods and windows of \<open>internal/period\<close> over the
  calendar. Every unit of the window, and the fiscal month, interprets \<open>calendar_unit\<close>; the
  properties here follow from its facts.
\<close>

subsection \<open>Times\<close>

record gotime =
  wall :: int
  zone :: int

abbreviation day_ns :: int where "day_ns \<equiv> 86400000000000"

definition instant :: "gotime \<Rightarrow> int" where "instant t = wall t - zone t"

definition time_Before :: "gotime \<Rightarrow> gotime \<Rightarrow> bool" where "time_Before t u \<longleftrightarrow> instant t < instant u"

definition day_of :: "gotime \<Rightarrow> int" where "day_of t = wall t div day_ns"

definition time_Date :: "int \<Rightarrow> int \<Rightarrow> int \<Rightarrow> int \<Rightarrow> int \<Rightarrow> gotime" where
  "time_Date y m d clock loc = \<lparr>wall = unix_day y m d * day_ns + clock, zone = loc\<rparr>"

definition AddDate :: "gotime \<Rightarrow> int \<Rightarrow> int \<Rightarrow> int \<Rightarrow> gotime" where
  "AddDate t years months days =
     (let (y, m, d) = civil (day_of t) in time_Date (y + years) (m + months) (d + days) (wall t mod day_ns) (zone t))"

definition Weekday :: "gotime \<Rightarrow> int" where "Weekday t = (day_of t + 4) mod 7"

subsection \<open>Boundaries\<close>

definition midnight :: "gotime \<Rightarrow> gotime" where
  "midnight t = (let (y, m, d) = civil (day_of t) in time_Date y m d 0 0)"

definition DayStart :: "gotime \<Rightarrow> gotime" where "DayStart t = midnight t"

definition CalendarDayUTC :: "gotime \<Rightarrow> gotime" where "CalendarDayUTC t = midnight t"

definition MonthStart :: "gotime \<Rightarrow> gotime" where
  "MonthStart t = (let (y, m, d) = civil (day_of t) in time_Date y m 1 0 0)"

definition AddMonths :: "gotime \<Rightarrow> int \<Rightarrow> gotime" where "AddMonths t n = AddDate t 0 n 0"

definition AddMonthsClamped :: "gotime \<Rightarrow> int \<Rightarrow> gotime" where
  "AddMonthsClamped t n =
     (let (y, m, d) = civil (day_of t);
          target = time_Date y (m + n) 1 (wall t mod day_ns) (zone t);
          (ty, tm, td) = civil (day_of target);
          (ly, lm, lastDay) = civil (day_of (time_Date ty (tm + 1) 0 0 (zone t)));
          day = (if d > lastDay then lastDay else d)
      in time_Date ty tm day (wall t mod day_ns) (zone t))"

definition MonthRange :: "gotime \<Rightarrow> gotime \<times> gotime" where
  "MonthRange t = (let start = MonthStart t in (start, AddMonths start 1))"

definition WeekStart :: "gotime \<Rightarrow> int \<Rightarrow> gotime" where
  "WeekStart t weekStart = (let offset = (Weekday t - weekStart + 7) smod 7 in AddDate (midnight t) 0 0 (- offset))"

definition FiscalMonthRange :: "gotime \<Rightarrow> int \<Rightarrow> gotime \<times> gotime" where
  "FiscalMonthRange t startDay =
     (let startDay = (if startDay < 1 then 1 else startDay);
          startDay = (if startDay > 28 then 28 else startDay);
          (y, m, d) = civil (day_of t);
          anchor = time_Date y m startDay 0 0;
          anchor = (if time_Before (midnight t) anchor then AddMonths anchor (- 1) else anchor)
      in (anchor, AddMonths anchor 1))"

definition InRange :: "gotime \<Rightarrow> gotime \<Rightarrow> gotime \<Rightarrow> bool" where
  "InRange t start stop \<longleftrightarrow> \<not> time_Before t start \<and> time_Before t stop"

text \<open>\<open>Sub\<close> saturates at the range of a duration; \<open>int(d.Hours())\<close> truncates to whole hours.\<close>

definition DaysBetween :: "gotime \<Rightarrow> gotime \<Rightarrow> int" where
  "DaysBetween a b =
     (let diff = instant (midnight b) - instant (midnight a);
          d = (if diff > max_i64 then max_i64 else if diff < min_i64 then min_i64 else diff)
      in (d sdiv 3600000000000) sdiv 24)"

definition NextMonthlyDue :: "gotime \<Rightarrow> int \<Rightarrow> gotime" where
  "NextMonthlyDue now day =
     (let day = (if day > 28 then 28 else day);
          day = (if day < 1 then 1 else day);
          (y, m, d) = civil (day_of now);
          due = time_Date y m day 0 0;
          today = time_Date y m d 0 0
      in if time_Before due today then AddMonths due 1 else due)"

definition WallClockUTC :: "gotime \<Rightarrow> gotime" where
  "WallClockUTC now = (let (y, m, d) = civil (day_of now) in time_Date y m d (wall now mod day_ns) 0)"

subsection \<open>Periods\<close>

type_synonym Resolution = string

abbreviation Week :: Resolution where "Week \<equiv> ''week''"
abbreviation Month :: Resolution where "Month \<equiv> ''month''"
abbreviation Quarter :: Resolution where "Quarter \<equiv> ''quarter''"
abbreviation Year :: Resolution where "Year \<equiv> ''year''"

definition Resolution_Valid :: "Resolution \<Rightarrow> bool" where
  "Resolution_Valid r \<longleftrightarrow> r \<in> {Week, Month, Quarter, Year}"

definition yearStart :: "gotime \<Rightarrow> gotime" where
  "yearStart t = time_Date (fst (civil (day_of t))) 1 1 0 0"

definition quarterStart :: "gotime \<Rightarrow> gotime" where
  "quarterStart t = (let (y, m, d) = civil (day_of t); q = (m - 1) sdiv 3 in time_Date y (q * 3 + 1) 1 0 0)"

definition Truncate :: "Resolution \<Rightarrow> gotime \<Rightarrow> int \<Rightarrow> gotime" where
  "Truncate r t weekStart =
     (if r = Week then WeekStart t weekStart
      else if r = Quarter then quarterStart t
      else if r = Year then yearStart t
      else MonthStart t)"

definition Step :: "Resolution \<Rightarrow> gotime \<Rightarrow> int \<Rightarrow> gotime" where
  "Step r t delta =
     (if r = Week then AddDate t 0 0 (7 * delta)
      else if r = Quarter then AddMonths t (3 * delta)
      else if r = Year then AddMonths t (12 * delta)
      else AddMonths t delta)"

definition Period_Range :: "Resolution \<Rightarrow> gotime \<Rightarrow> gotime \<Rightarrow> int \<Rightarrow> gotime \<times> gotime" where
  "Period_Range r from to weekStart =
     (let start = Truncate r from weekStart;
          toStart = Truncate r to weekStart;
          toStart = (if time_Before toStart start then start else toStart)
      in (start, Step r toStart 1))"

record Window =
  wn_Res :: Resolution
  wn_From :: gotime
  wn_To :: gotime
  wn_WeekStart :: int

definition NewWindow :: "Resolution \<Rightarrow> gotime \<Rightarrow> int \<Rightarrow> Window" where
  "NewWindow r t weekStart =
     (let a = Truncate r t weekStart in \<lparr>wn_Res = r, wn_From = a, wn_To = a, wn_WeekStart = weekStart\<rparr>)"

definition SetResolution :: "Window \<Rightarrow> Resolution \<Rightarrow> gotime \<Rightarrow> Window" where
  "SetResolution w r now = NewWindow r now (wn_WeekStart w)"

definition WithWeekStart :: "Window \<Rightarrow> int \<Rightarrow> Window" where
  "WithWeekStart w weekStart =
     (if weekStart = wn_WeekStart w then w
      else \<lparr>wn_Res = wn_Res w, wn_From = Truncate (wn_Res w) (wn_From w) weekStart,
            wn_To = Truncate (wn_Res w) (wn_To w) weekStart, wn_WeekStart = weekStart\<rparr>)"

definition Shift :: "Window \<Rightarrow> int \<Rightarrow> Window" where
  "Shift w delta = w\<lparr>wn_From := Step (wn_Res w) (wn_From w) delta, wn_To := Step (wn_Res w) (wn_To w) delta\<rparr>"

definition IsCurrent :: "Window \<Rightarrow> gotime \<Rightarrow> bool" where
  "IsCurrent w now = (let cur = Truncate (wn_Res w) now (wn_WeekStart w)
     in instant (wn_From w) = instant cur \<and> instant (wn_To w) = instant cur)"

definition StepFrom :: "Window \<Rightarrow> int \<Rightarrow> Window" where
  "StepFrom w delta =
     (let from = Step (wn_Res w) (wn_From w) delta; to = (if time_Before (wn_To w) from then from else wn_To w)
      in w\<lparr>wn_From := from, wn_To := to\<rparr>)"

definition StepTo :: "Window \<Rightarrow> int \<Rightarrow> Window" where
  "StepTo w delta =
     (let to = Step (wn_Res w) (wn_To w) delta; from = (if time_Before to (wn_From w) then to else wn_From w)
      in w\<lparr>wn_From := from, wn_To := to\<rparr>)"

definition Window_Range :: "Window \<Rightarrow> gotime \<times> gotime" where
  "Window_Range w = Period_Range (wn_Res w) (wn_From w) (wn_To w) (wn_WeekStart w)"

definition IsSinglePeriod :: "Window \<Rightarrow> bool" where
  "IsSinglePeriod w \<longleftrightarrow> instant (wn_From w) = instant (wn_To w)"

definition Single :: "Window \<Rightarrow> Window" where "Single w = w\<lparr>wn_To := wn_From w\<rparr>"

text \<open>The loop stops at the end of the window or at a step that does not move forward.\<close>

function count_units :: "Resolution \<Rightarrow> gotime \<Rightarrow> gotime \<Rightarrow> nat \<Rightarrow> nat" where
  "count_units r cur to n =
     (if \<not> time_Before cur to then n
      else let next = Step r cur 1 in if \<not> time_Before cur next then n else count_units r next to (n + 1))"
  by pat_completeness auto
termination
  by (relation "measure (\<lambda>(r, cur, to, n). nat (instant to - instant cur))") (auto simp: time_Before_def)

declare count_units.simps [simp del]

definition UnitsIn :: "Window \<Rightarrow> nat" where
  "UnitsIn w = (if \<not> time_Before (wn_From w) (wn_To w) then 1 else count_units (wn_Res w) (wn_From w) (wn_To w) 1)"

definition Previous :: "Resolution \<Rightarrow> gotime \<Rightarrow> int \<Rightarrow> Window" where
  "Previous r now weekStart = Shift (NewWindow r now weekStart) (- 1)"

definition YearToDate :: "gotime \<Rightarrow> int \<Rightarrow> Window" where
  "YearToDate now weekStart =
     \<lparr>wn_Res = Month, wn_From = time_Date (fst (civil (day_of now))) 1 1 0 (zone now),
      wn_To = MonthStart now, wn_WeekStart = weekStart\<rparr>"

definition PriorYear :: "gotime \<Rightarrow> int \<Rightarrow> Window" where
  "PriorYear now weekStart = Shift (NewWindow Year now weekStart) (- 1)"

subsection \<open>Units as days\<close>

definition at_day :: "int \<Rightarrow> gotime" where "at_day n = \<lparr>wall = n * day_ns, zone = 0\<rparr>"

lemma at_day_simps [simp]:
  "day_of (at_day n) = n" "wall (at_day n) mod day_ns = 0" "zone (at_day n) = 0"
  "time_Before (at_day a) (at_day b) \<longleftrightarrow> a < b" "at_day a = at_day b \<longleftrightarrow> a = b" "instant (at_day a) = a * day_ns"
  by (simp_all add: at_day_def day_of_def time_Before_def instant_def)

lemma month_index_year: "month_index n div 12 = year_of n" "month_index n mod 12 = month_of n - 1"
  using month_of_bounds [of n] by (simp_all add: month_index_def)

lemma time_Date_first: "time_Date y m d 0 0 = at_day (month_start (12 * y + (m - 1)) + (d - 1))"
  by (simp add: time_Date_def unix_day_def at_day_def)

lemma midnight_eq: "midnight t = at_day (day_of t)"
  by (simp add: midnight_def civil_def time_Date_first month_index_def)

lemma MonthStart_eq: "MonthStart t = at_day (month_start (month_index (day_of t)))"
  by (simp add: MonthStart_def civil_def time_Date_first month_index_def)

lemma AddDate_at_day:
  "AddDate (at_day n) 0 k d = at_day (month_start (month_index n + k) + (n - month_start (month_index n)) + d)"
  unfolding AddDate_def civil_def month_index_def
  by (simp add: time_Date_def unix_day_def at_day_def day_of_def Let_def algebra_simps)

definition unit_start :: "Resolution \<Rightarrow> int \<Rightarrow> int \<Rightarrow> int" where
  "unit_start r w i = (if r = Week then week_start w i else if r = Quarter then month_start (3 * i)
     else if r = Year then month_start (12 * i) else month_start i)"

definition unit_index :: "Resolution \<Rightarrow> int \<Rightarrow> int \<Rightarrow> int" where
  "unit_index r w n = (if r = Week then week_index w n else if r = Quarter then month_index n div 3
     else if r = Year then month_index n div 12 else month_index n)"

interpretation unit: calendar_unit "unit_start r w" "unit_index r w" for r w
proof unfold_locales
  fix n i
  show "unit_start r w (unit_index r w n) \<le> n" "n < unit_start r w (unit_index r w n + 1)"
    using calendar_unit.inside [OF month_blocks, of 3 n] calendar_unit.inside [OF month_blocks, of 12 n]
      months.inside [of n] div_bounds [of 7 "n + 4 - w"]
    unfolding unit_start_def unit_index_def week_start_def week_index_def by simp_all
  show "unit_start r w i < unit_start r w (i + 1)"
    by (simp add: unit_start_def week_start_def)
qed

definition fiscal_day :: "int \<Rightarrow> int" where "fiscal_day k = max 1 (min 28 k)"

definition fiscal_start :: "int \<Rightarrow> int \<Rightarrow> int" where "fiscal_start k i = month_start i + (fiscal_day k - 1)"

definition fiscal_index :: "int \<Rightarrow> int \<Rightarrow> int" where
  "fiscal_index k n = (if n < fiscal_start k (month_index n) then month_index n - 1 else month_index n)"

lemma fiscal_day_bounds: "1 \<le> fiscal_day k \<and> fiscal_day k \<le> 28"
  by (simp add: fiscal_day_def)

interpretation fiscal: calendar_unit "fiscal_start k" "fiscal_index k" for k
proof unfold_locales
  fix n i
  show "fiscal_start k (fiscal_index k n) \<le> n" "n < fiscal_start k (fiscal_index k n + 1)"
    using months.inside [of n] month_start_next [of "month_index n - 1"] fiscal_day_bounds [of k]
    by (auto simp: fiscal_start_def fiscal_index_def)
  show "fiscal_start k i < fiscal_start k (i + 1)" by (simp add: fiscal_start_def)
qed

lemma signed_pos: "0 \<le> a \<Longrightarrow> 0 < b \<Longrightarrow> a smod b = a mod (b :: int)" "0 \<le> a \<Longrightarrow> 0 < b \<Longrightarrow> a sdiv b = a div (b :: int)"
  by (cases "a = 0"; simp add: signed_modulo_int_def signed_divide_int_def)+

lemma Truncate_eq:
  assumes "0 \<le> w" "w \<le> 6"
  shows "Truncate r t w = at_day (unit_start r w (unit_index r w (day_of t)))"
proof -
  define n where "n = day_of t"
  have week: "WeekStart t w = at_day (week_start w (week_index w n))"
  proof -
    have "((n + 4) mod 7 - w + 7) smod 7 = ((n + 4) mod 7 - w + 7) mod 7"
      using assms pos_mod_sign [of 7 "n + 4"] by (simp add: signed_pos)
    also have "\<dots> = (n + 4 - w) mod 7" by (simp add: mod_diff_left_eq)
    finally have "((n + 4) mod 7 - w + 7) smod 7 = (n + 4 - w) mod 7" .
    moreover have "n + - ((n + 4 - w) mod 7) = week_start w (week_index w n)"
      unfolding week_start_def week_index_def using mult_div_mod_eq [of 7 "n + 4 - w"] by linarith
    ultimately show ?thesis
      by (simp add: WeekStart_def midnight_eq AddDate_at_day Weekday_def n_def [symmetric])
  qed
  have "(month_of n - 1) sdiv 3 = (month_of n - 1) div 3"
    using month_of_bounds [of n] by (simp add: signed_pos)
  moreover have "month_index n div 3 = 4 * year_of n + (month_of n - 1) div 3"
    using div_mult_self4 [of 3 "month_of n - 1" "4 * year_of n"] by (simp add: month_index_def)
  ultimately have "quarterStart t = at_day (month_start (3 * (month_index n div 3)))"
    by (simp add: quarterStart_def civil_def time_Date_first n_def [symmetric] Let_def algebra_simps)
  moreover have "yearStart t = at_day (month_start (12 * (month_index n div 12)))"
    by (simp add: yearStart_def civil_def time_Date_first n_def [symmetric] month_index_year)
  ultimately show ?thesis
    using week MonthStart_eq [of t] by (simp add: Truncate_def unit_start_def unit_index_def n_def)
qed

lemma Step_eq: "Step r (at_day (unit_start r w i)) k = at_day (unit_start r w (i + k))"
proof -
  have "AddMonths (at_day (month_start j)) c = at_day (month_start (j + c))" for j c
    by (simp add: AddMonths_def AddDate_at_day)
  moreover have "AddDate (at_day n) 0 0 c = at_day (n + c)" for n c
    by (simp only: AddDate_at_day add_0_right) simp
  ultimately show ?thesis
    unfolding Step_def unit_start_def week_start_def by (simp only: split: if_split) (simp add: algebra_simps)
qed

subsection \<open>Properties\<close>

text \<open>C32: Whatever the resolution and the first day of the week, two times have the same period exactly
  when the day of one lies between the start of the other's period and the next start.\<close>
theorem periods_partition_days:
  assumes "0 \<le> w" "w \<le> 6"
  shows "Truncate r u w = Truncate r t w \<longleftrightarrow>
    InRange (midnight u) (Truncate r t w) (Step r (Truncate r t w) 1)"
  using unit.index_iff [of r w "day_of u"]
  by (simp add: Truncate_eq [OF assms] Step_eq InRange_def midnight_eq not_less)

text \<open>Every time lies in its fiscal month, and two times have the same fiscal month exactly when the
  day of one lies in the range of the other, for any configured first day.\<close>
theorem fiscal_months_partition_days:
  "FiscalMonthRange u k = FiscalMonthRange t k \<longleftrightarrow>
   InRange (midnight u) (fst (FiscalMonthRange t k)) (snd (FiscalMonthRange t k))"
proof -
  have F: "FiscalMonthRange v k = (at_day (fiscal_start k (fiscal_index k (day_of v))),
    at_day (fiscal_start k (fiscal_index k (day_of v) + 1)))" for v
  proof -
    have "month_index (fiscal_start k i) = i" for i
      using months.index_iff [of "fiscal_start k i" i] month_start_next [of i] fiscal_day_bounds [of k]
      by (simp add: fiscal_start_def)
    then have "AddMonths (at_day (fiscal_start k i)) j = at_day (fiscal_start k (i + j))" for i j
      by (simp add: AddMonths_def AddDate_at_day) (simp add: fiscal_start_def)
    moreover have "(let s = (if k < 1 then 1 else k) in if s > 28 then 28 else s) = fiscal_day k"
      by (simp add: fiscal_day_def)
    ultimately show ?thesis
      by (auto simp: FiscalMonthRange_def civil_def time_Date_first midnight_eq fiscal_index_def Let_def
          fiscal_start_def month_index_def)
  qed
  show ?thesis using fiscal.index_iff [of k "day_of u"]
    by (auto simp: F InRange_def midnight_eq not_less)
qed

text \<open>A window from the period of a time over \<open>n\<close> further periods counts \<open>n + 1\<close> units.\<close>
theorem UnitsIn_counts_periods:
  assumes "0 \<le> w" "w \<le> 6"
  shows "UnitsIn \<lparr>wn_Res = r, wn_From = Truncate r t w, wn_To = Step r (Truncate r t w) (int n), wn_WeekStart = w\<rparr> = n + 1"
proof -
  have count: "count_units r (at_day (unit_start r w i)) (at_day (unit_start r w (i + int n))) c = c + n" for i c
  proof (induction n arbitrary: i c)
    case 0
    then show ?case by (subst count_units.simps) simp
  next
    case (Suc n)
    have "i + int (Suc n) = i + 1 + int n" by simp
    with Suc [of "i + 1" "c + 1"] show ?case
      by (subst count_units.simps) (simp add: Step_eq add.assoc)
  qed
  show ?thesis by (cases "n = 0") (simp_all add: UnitsIn_def Truncate_eq [OF assms] Step_eq count)
qed

text \<open>Adding months keeps the day of the month, or takes the last day of a month that is shorter.\<close>
theorem AddMonthsClamped_date:
  "civil (day_of (AddMonthsClamped t n)) =
     (let i = month_index (day_of t) + n
      in (i div 12, i mod 12 + 1, min (snd (snd (civil (day_of t)))) (month_start (i + 1) - month_start i)))"
proof -
  define clock where "clock = wall t mod day_ns"
  have clock: "0 \<le> clock" "clock < day_ns" by (simp_all add: clock_def)
  define i where "i = month_index (day_of t) + n"
  define d where "d = snd (snd (civil (day_of t)))"
  have day: "day_of (time_Date y m e c z) = unix_day y m e" if "0 \<le> c" "c < day_ns" for y m e c z
    using that by (simp add: day_of_def time_Date_def)
  have civil: "civil (month_start j + e) = (j div 12, j mod 12 + 1, e + 1)"
    if "0 \<le> e" "month_start j + e < month_start (j + 1)" for j e
  proof -
    from that have "month_index (month_start j + e) = j" by (simp add: months.index_iff)
    then show ?thesis using month_index_year [of "month_start j + e"] by (simp add: civil_def)
  qed
  have d: "1 \<le> d" using months.inside [of "day_of t"] by (simp add: d_def civil_def)
  have target: "civil (unix_day y m 1) = ((12 * y + (m - 1)) div 12, (12 * y + (m - 1)) mod 12 + 1, 1)" for y m
    using civil [of 0 "12 * y + (m - 1)"] by (simp add: unix_day_def months.next_start)
  have split: "12 * (i div 12) + (i mod 12 + 1 - 1) = i" by simp
  have first: "12 * year_of (day_of t) + (month_of (day_of t) + n - 1) = i" by (simp add: i_def month_index_def)
  have last: "snd (snd (civil (unix_day (i div 12) (i mod 12 + 1 + 1) 0))) = month_start (i + 1) - month_start i"
  proof -
    have "unix_day (i div 12) (i mod 12 + 1 + 1) 0 = month_start i + (month_start (i + 1) - month_start i - 1)"
      using split by (simp add: unix_day_def algebra_simps)
    with civil [of "month_start (i + 1) - month_start i - 1" i] months.next_start [of i] show ?thesis by simp
  qed
  define e where "e = min d (month_start (i + 1) - month_start i)"
  have "AddMonthsClamped t n = time_Date (i div 12) (i mod 12 + 1) e clock (zone t)"
    using last first target [of "year_of (day_of t)" "month_of (day_of t) + n"] d_def
    by (simp add: AddMonthsClamped_def civil_def [of "day_of t"] day clock clock_def [symmetric] Let_def e_def min_def
        case_prod_unfold)
  then have "day_of (AddMonthsClamped t n) = month_start i + (e - 1)"
    using split by (simp add: day clock unix_day_def)
  moreover have "0 \<le> e - 1" "month_start i + (e - 1) < month_start (i + 1)"
    using d months.next_start [of i] by (simp_all add: e_def)
  ultimately show ?thesis using civil [of "e - 1" i] by (simp add: e_def i_def d_def Let_def)
qed

lemma periods_partition_days_witness:
  "Truncate Week (at_day 20000) 1 = Truncate Week (at_day 20002) 1 \<longleftrightarrow>
   InRange (midnight (at_day 20000)) (Truncate Week (at_day 20002) 1) (Step Week (Truncate Week (at_day 20002) 1) 1)"
  by (rule periods_partition_days) simp_all

lemma UnitsIn_counts_periods_witness:
  "UnitsIn \<lparr>wn_Res = Quarter, wn_From = Truncate Quarter (at_day 20000) 1,
     wn_To = Step Quarter (Truncate Quarter (at_day 20000) 1) (int 5), wn_WeekStart = 1\<rparr> = 6"
  using UnitsIn_counts_periods [of 1 Quarter "at_day 20000" 5] by simp

subsection \<open>Windows\<close>

text \<open>Stepping either end keeps the ends in order; shifts add up and cancel.\<close>

lemma steps_keep_order:
  "\<not> time_Before (wn_To (StepFrom w n)) (wn_From (StepFrom w n))" "\<not> time_Before (wn_To (StepTo w n)) (wn_From (StepTo w n))"
  by (auto simp: StepFrom_def StepTo_def Let_def time_Before_def)

lemma Shift_add:
  assumes "0 \<le> ws" "ws \<le> 6"
  shows "Shift (Shift (NewWindow r t ws) a) b = Shift (NewWindow r t ws) (a + b)"
  by (simp add: Shift_def NewWindow_def Truncate_eq [OF assms] Step_eq add.assoc Let_def)

lemma Shift_cancels:
  assumes "0 \<le> ws" "ws \<le> 6"
  shows "Shift (Shift (NewWindow r t ws) a) (- a) = NewWindow r t ws"
  unfolding Shift_add [OF assms] by (simp add: Shift_def NewWindow_def Truncate_eq [OF assms] Step_eq Let_def)

text \<open>A new window is the current period and covers the time it was made for.\<close>

lemma NewWindow_current:
  assumes "0 \<le> ws" "ws \<le> 6"
  shows "IsCurrent (NewWindow r t ws) t" "IsSinglePeriod (NewWindow r t ws)"
    "InRange (midnight t) (fst (Window_Range (NewWindow r t ws))) (snd (Window_Range (NewWindow r t ws)))"
proof -
  show "IsCurrent (NewWindow r t ws) t" "IsSinglePeriod (NewWindow r t ws)"
    by (simp_all add: IsCurrent_def NewWindow_def IsSinglePeriod_def Let_def)
  show "InRange (midnight t) (fst (Window_Range (NewWindow r t ws))) (snd (Window_Range (NewWindow r t ws)))"
    by (simp add: Window_Range_def NewWindow_def Period_Range_def InRange_def Truncate_eq [OF assms] Step_eq midnight_eq
        unit.inside not_less Let_def)
qed

text \<open>
  \<open>YearToDate\<close> puts its start at midnight of the zone of its argument, not of UTC. East of Greenwich
  the year from January to June counts seven months.
\<close>

lemma YearToDate_miscounts:
  "UnitsIn (YearToDate (time_Date 2026 6 15 0 3600000000000) 1) = 7 \<and>
   UnitsIn (YearToDate (time_Date 2026 6 15 0 0) 1) = 6 \<and>
   IsSinglePeriod (YearToDate (time_Date 2026 1 15 0 0) 1) \<and>
   \<not> IsSinglePeriod (YearToDate (time_Date 2026 1 15 0 3600000000000) 1)"
  by code_simp

lemma DaysBetween_saturates: "DaysBetween (at_day 0) (at_day 106752) = 106751"
  by code_simp

end
