(* ===== verification/Recurring.thy ===== *)
theory Recurring
  imports Domain Periods
begin

text \<open>
  Recurring cash flows, \<open>domain/recurring_advance.go\<close> and the type \<open>Recurring\<close> of
  \<open>domain/entities.go\<close>, and how their due occurrences are posted: the transaction of
  \<open>store/transaction_batch.go\<close> and the catch-up loop of \<open>appstate/appstate.go\<close>. The rows of an
  occurrence are an argument. The JSON of a row is taken to hold exactly its fields, and an
  occurrence is named by the recurring id and the date that the code formats into its operation id.
  Shows that schedules move forward, and that whatever copies, retries and failures the attempts
  have, the occurrences of a schedule are posted once each, in order, with none left out.
\<close>

subsection \<open>Cadences\<close>

type_synonym RecurringCadence = string

abbreviation CadenceDaily :: RecurringCadence where "CadenceDaily \<equiv> ''daily''"
abbreviation CadenceWeekly :: RecurringCadence where "CadenceWeekly \<equiv> ''weekly''"
abbreviation CadenceBiweekly :: RecurringCadence where "CadenceBiweekly \<equiv> ''biweekly''"
abbreviation CadenceMonthly :: RecurringCadence where "CadenceMonthly \<equiv> ''monthly''"
abbreviation CadenceSemimonthly :: RecurringCadence where "CadenceSemimonthly \<equiv> ''semimonthly''"
abbreviation CadenceQuarterly :: RecurringCadence where "CadenceQuarterly \<equiv> ''quarterly''"
abbreviation CadenceYearly :: RecurringCadence where "CadenceYearly \<equiv> ''yearly''"

definition daysInMonth :: "int \<Rightarrow> int \<Rightarrow> int" where
  "daysInMonth y m = snd (snd (civil (day_of (time_Date y (m + 1) 0 0 0))))"

definition monthDate :: "gotime \<Rightarrow> int \<Rightarrow> int \<Rightarrow> gotime" where
  "monthDate from months anchorDay =
     (let (y, m, d) = civil (day_of from); clock = wall from mod day_ns;
          (dy, dm, dd) = civil (day_of (time_Date y (m + months) 1 clock (zone from)));
          anchorDay = (if anchorDay > daysInMonth dy dm then daysInMonth dy dm else anchorDay)
      in time_Date dy dm anchorDay clock (zone from))"

definition Cadence_Next :: "RecurringCadence \<Rightarrow> gotime \<Rightarrow> gotime" where
  "Cadence_Next c from = (let (y, m, d) = civil (day_of from) in
     if c = CadenceDaily then AddDate from 0 0 1
     else if c = CadenceWeekly then AddDate from 0 0 7
     else if c = CadenceBiweekly then AddDate from 0 0 14
     else if c = CadenceSemimonthly then
       if d < 15 then time_Date y m 15 (wall from mod day_ns) (zone from) else monthDate from 1 1
     else if c = CadenceQuarterly then monthDate from 3 d
     else if c = CadenceYearly then monthDate from 12 d
     else monthDate from 1 d)"

definition Cadence_Prev :: "RecurringCadence \<Rightarrow> gotime \<Rightarrow> gotime" where
  "Cadence_Prev c from = (let (y, m, d) = civil (day_of from) in
     if c = CadenceDaily then AddDate from 0 0 (- 1)
     else if c = CadenceWeekly then AddDate from 0 0 (- 7)
     else if c = CadenceBiweekly then AddDate from 0 0 (- 14)
     else if c = CadenceSemimonthly then
       if d \<ge> 15 then time_Date y m 1 (wall from mod day_ns) (zone from) else monthDate from (- 1) 15
     else if c = CadenceQuarterly then monthDate from (- 3) d
     else if c = CadenceYearly then monthDate from (- 12) d
     else monthDate from (- 1) d)"

record Recurring =
  rr_ID :: string
  rr_Label :: string
  rr_Amount :: Money
  rr_Cadence :: RecurringCadence
  rr_NextDue :: gotime
  rr_AccountID :: string
  rr_CategoryID :: string
  rr_Autopost :: bool
  rr_Autopay :: bool
  rr_SmoothIntoBudgets :: bool
  rr_Paused :: bool
  rr_Service :: bool
  rr_Provider :: string

definition Recurring_Active :: "Recurring \<Rightarrow> bool" where "Recurring_Active r \<longleftrightarrow> \<not> rr_Paused r"

definition Smooths :: "Recurring \<Rightarrow> bool" where
  "Smooths r \<longleftrightarrow> rr_SmoothIntoBudgets r \<and> rr_Cadence r \<in> {CadenceQuarterly, CadenceYearly}"

definition MonthlyEquivalent :: "Recurring \<Rightarrow> int" where
  "MonthlyEquivalent r = (let a = Amount (rr_Amount r); c = rr_Cadence r in
     if c = CadenceWeekly then wrap64 (a * 52) sdiv 12
     else if c = CadenceBiweekly then wrap64 (a * 26) sdiv 12
     else if c = CadenceSemimonthly then wrap64 (a * 2)
     else if c = CadenceQuarterly then a sdiv 3
     else if c = CadenceYearly then a sdiv 12
     else a)"

definition Advance :: "Recurring \<Rightarrow> Recurring" where
  "Advance r = r\<lparr>rr_NextDue := Cadence_Next (rr_Cadence r) (rr_NextDue r)\<rparr>"

subsection \<open>Where a cadence lands\<close>

lemma day_of_Date: "0 \<le> c \<Longrightarrow> c < day_ns \<Longrightarrow> day_of (time_Date y m e c z) = unix_day y m e"
  by (simp add: day_of_def time_Date_def)

lemma clock_bounds [simp]: "0 \<le> wall t mod day_ns" "wall t mod day_ns < day_ns"
  by simp_all

lemma civil_in_month:
  assumes "0 \<le> e" "month_start j + e < month_start (j + 1)"
  shows "civil (month_start j + e) = (j div 12, j mod 12 + 1, e + 1)"
proof -
  from assms have "month_index (month_start j + e) = j" by (simp add: months.index_iff)
  then show ?thesis using month_index_year [of "month_start j + e"] by (simp add: civil_def)
qed

lemma unix_day_index: "unix_day (j div 12) (j mod 12 + 1) e = month_start j + (e - 1)"
  by (simp add: unix_day_def)

lemma daysInMonth_eq: "daysInMonth (j div 12) (j mod 12 + 1) = month_start (j + 1) - month_start j"
proof -
  have "unix_day (j div 12) (j mod 12 + 1 + 1) 0 = month_start j + (month_start (j + 1) - month_start j - 1)"
    using mult_div_mod_eq [of 12 j] by (simp add: unix_day_def algebra_simps)
  with civil_in_month [of "month_start (j + 1) - month_start j - 1" j] months.next_start [of j]
  show ?thesis by (simp add: daysInMonth_def day_of_Date)
qed

definition place :: "gotime \<Rightarrow> int \<Rightarrow> gotime" where
  "place t n = \<lparr>wall = n * day_ns + wall t mod day_ns, zone = zone t\<rparr>"

lemma place_simps [simp]: "day_of (place t n) = n" "zone (place t n) = zone t" "place t (day_of t) = t"
  by (simp_all add: place_def day_of_def)

lemma place_Before [simp]: "time_Before (place t m) (place t n) \<longleftrightarrow> m < n"
  by (simp add: place_def time_Before_def instant_def)

lemma AddDate_days: "AddDate t 0 0 d = place t (day_of t + d)"
  by (simp add: AddDate_def civil_def time_Date_def unix_day_def place_def month_index_def Let_def)

lemma monthDate_eq:
  "monthDate t k a = place t (let j = month_index (day_of t) + k in month_start j + (min a (month_start (j + 1) - month_start j) - 1))"
proof -
  define j where "j = month_index (day_of t) + k"
  have "unix_day (year_of (day_of t)) (month_of (day_of t) + k) 1 = month_start j + 0"
    by (simp add: unix_day_def j_def month_index_def algebra_simps)
  then have "civil (day_of (time_Date (year_of (day_of t)) (month_of (day_of t) + k) 1 (wall t mod day_ns) (zone t))) =
      (j div 12, j mod 12 + 1, 1)"
    using civil_in_month [of 0 j] months.next_start [of j] by (simp add: day_of_Date)
  then show ?thesis
    by (simp add: monthDate_def civil_def [of "day_of t"] daysInMonth_eq min_def place_def time_Date_def unix_day_index
        j_def [symmetric] Let_def)
qed

text \<open>Every cadence steps to a later day, at the same time of day.\<close>

lemma Next_forward: "\<exists>n > day_of t. Cadence_Next c t = place t n"
proof -
  let ?i = "month_index (day_of t)" and ?d = "snd (snd (civil (day_of t)))"
  have d: "?d = day_of t - month_start ?i + 1" "1 \<le> ?d" "day_of t < month_start (?i + 1)"
    using months.inside [of "day_of t"] by (simp_all add: civil_def)
  have month: "\<exists>n > day_of t. monthDate t k a = place t n" if "1 \<le> k" "1 \<le> a" for k a
  proof -
    define e where "e = min a (month_start (?i + k + 1) - month_start (?i + k))"
    have "1 \<le> e" using that month_start_next [of "?i + k"] by (simp add: e_def)
    moreover have "month_start (?i + 1) \<le> month_start (?i + k)" using that months.start_mono by simp
    ultimately have "day_of t < month_start (?i + k) + (e - 1)" using d(3) by linarith
    moreover have "monthDate t k a = place t (month_start (?i + k) + (e - 1))" by (simp add: monthDate_eq e_def Let_def)
    ultimately show ?thesis by blast
  qed
  have semi: "\<exists>n > day_of t. time_Date (year_of (day_of t)) (month_of (day_of t)) 15 (wall t mod day_ns) (zone t) = place t n"
    if "?d < 15"
    using that d(1) by (intro exI [of _ "month_start ?i + 14"])
      (simp add: time_Date_def place_def unix_day_def month_index_def)
  have days: "\<exists>n > day_of t. AddDate t 0 0 k = place t n" if "0 < k" for k
    using that by (intro exI [of _ "day_of t + k"]) (simp add: AddDate_days)
  show ?thesis
    using days [of 1] days [of 7] days [of 14] month [of 1 1] month [of 3 ?d] month [of 12 ?d] month [of 1 ?d] semi d(2)
    by (simp add: Cadence_Next_def civil_def Let_def)
qed

lemma Advance_simps [simp]: "rr_ID (Advance r) = rr_ID r"
  by (simp add: Advance_def)

lemma Advance_forward:
  "day_of (rr_NextDue r) < day_of (rr_NextDue (Advance r))" "time_Before (rr_NextDue r) (rr_NextDue (Advance r))"
proof -
  obtain n where n: "n > day_of (rr_NextDue r)" "rr_NextDue (Advance r) = place (rr_NextDue r) n"
    using Next_forward [of "rr_NextDue r" "rr_Cadence r"] by (auto simp: Advance_def)
  then show "day_of (rr_NextDue r) < day_of (rr_NextDue (Advance r))" by simp
  from n place_Before [of "rr_NextDue r" "day_of (rr_NextDue r)" n] show "time_Before (rr_NextDue r) (rr_NextDue (Advance r))"
    by (simp del: place_Before)
qed

subsection \<open>Posting an occurrence\<close>

type_synonym operation_id = "string \<times> int \<times> int \<times> int"

definition occurrence_id :: "Recurring \<Rightarrow> operation_id" where
  "occurrence_id r = (rr_ID r, civil (day_of (rr_NextDue r)))"

record recurring_store =
  rx_recurring :: "(string, Recurring) go_map"
  rx_receipts :: "(operation_id, Transaction list) go_map"
  rx_transactions :: "(string, Transaction) go_map"

datatype posting_error = InvalidOccurrence | DatabaseError | ChangedBeforePosting | InsertRefused

fun insert_rows :: "Transaction list \<Rightarrow> (string, Transaction) go_map \<Rightarrow> (string, Transaction) go_map option" where
  "insert_rows [] rows = Some rows"
| "insert_rows (t # ts) rows =
     (if tx_ID t = [] \<or> map_of rows (tx_ID t) \<noteq> None then None else insert_rows ts (map_put (tx_ID t) t rows))"

text \<open>\<open>reads\<close> and \<open>writes\<close> say whether the database serves the statements that read and those that
  write, the commit among them; what fails is rolled back.\<close>

definition PutRecurringOccurrenceAtomic ::
  "bool \<Rightarrow> bool \<Rightarrow> operation_id \<Rightarrow> Recurring \<Rightarrow> Recurring \<Rightarrow> Transaction list \<Rightarrow> recurring_store \<Rightarrow>
     (posting_error + bool) \<times> recurring_store" where
  "PutRecurringOccurrenceAtomic reads writes operation before' after' txns st =
     (if rr_ID before' = [] \<or> rr_ID before' \<noteq> rr_ID after' \<or> txns = [] \<or> \<not> time_Before (rr_NextDue before') (rr_NextDue after')
      then (Inl InvalidOccurrence, st)
      else if \<not> reads then (Inl DatabaseError, st)
      else case map_of (rx_recurring st) (rr_ID before') of
        None \<Rightarrow> (Inl DatabaseError, st)
      | Some current \<Rightarrow>
          let posted = (map_of (rx_receipts st) operation = None) in
          if current \<noteq> before' then (if \<not> posted then (Inr False, st) else (Inl ChangedBeforePosting, st))
          else case (if posted then insert_rows txns (rx_transactions st) else Some (rx_transactions st)) of
            None \<Rightarrow> (Inl InsertRefused, st)
          | Some rows \<Rightarrow>
              if \<not> writes then (Inl DatabaseError, st)
              else (Inr posted,
                st\<lparr>rx_transactions := rows,
                   rx_receipts := (if posted then map_put operation txns (rx_receipts st) else rx_receipts st),
                   rx_recurring := map_put (rr_ID before') after' (rx_recurring st)\<rparr>))"

text \<open>The posting of an occurrence, by hand or by the loop, whose rows are \<open>txns\<close>.\<close>

definition payable :: "Recurring \<Rightarrow> bool" where
  "payable r \<longleftrightarrow> Recurring_Active r \<and> instant (rr_NextDue r) \<noteq> zero_time \<and>
     (case AbsChecked (rr_Amount r) of Inl e \<Rightarrow> False | Inr m \<Rightarrow> True)"

definition postRecurringOccurrence ::
  "bool \<Rightarrow> bool \<Rightarrow> Recurring \<Rightarrow> Transaction list \<Rightarrow> recurring_store \<Rightarrow> (posting_error + bool) \<times> recurring_store" where
  "postRecurringOccurrence reads writes r txns st =
     (if \<not> payable r then (Inl InvalidOccurrence, st)
      else PutRecurringOccurrenceAtomic reads writes (occurrence_id r) r (Advance r) txns st)"

text \<open>Attempts from any copy of a recurring item, between other writes to the transactions.\<close>

datatype posting_event = Attempt bool bool Recurring "Transaction list" | OtherRows "(string, Transaction) go_map"

fun posting_step :: "posting_event \<Rightarrow> recurring_store \<Rightarrow> operation_id list \<times> recurring_store" where
  "posting_step (Attempt reads writes r txns) st =
     (let (res, st') = postRecurringOccurrence reads writes r txns st
      in (if res = Inr True then [occurrence_id r] else [], st'))"
| "posting_step (OtherRows rows) st = ([], st\<lparr>rx_transactions := rows\<rparr>)"

fun posting_run :: "posting_event list \<Rightarrow> recurring_store \<Rightarrow> operation_id list \<times> recurring_store" where
  "posting_run [] st = ([], st)"
| "posting_run (e # es) st =
     (let (ids, st1) = posting_step e st; (ids', st2) = posting_run es st1 in (ids @ ids', st2))"

abbreviation nth_due :: "Recurring \<Rightarrow> nat \<Rightarrow> Recurring" where "nth_due r n \<equiv> (Advance ^^ n) r"

lemma nth_due_ID [simp]: "rr_ID (nth_due r n) = rr_ID r"
  by (induction n) simp_all

lemma nth_due_increasing: "m < n \<Longrightarrow> day_of (rr_NextDue (nth_due r m)) < day_of (rr_NextDue (nth_due r n))"
  by (induction n) (auto simp: less_Suc_eq intro: order.strict_trans Advance_forward(1))

lemma civil_inject: "civil m = civil n \<Longrightarrow> m = n"
  by (auto simp: civil_def month_index_def)

lemma occurrence_id_inject: "occurrence_id (nth_due r m) = occurrence_id (nth_due r n) \<longleftrightarrow> m = n"
  using nth_due_increasing [of m n r] nth_due_increasing [of n m r]
  by (auto simp: occurrence_id_def dest!: civil_inject) (metis less_irrefl linorder_less_linear)

text \<open>How far the schedule that began as \<open>r\<close> has come.\<close>

definition progressed :: "Recurring \<Rightarrow> nat \<Rightarrow> recurring_store \<Rightarrow> bool" where
  "progressed r n st \<longleftrightarrow> map_of (rx_recurring st) (rr_ID r) = Some (nth_due r n) \<and>
     (\<forall>k. map_of (rx_receipts st) (occurrence_id (nth_due r k)) \<noteq> None \<longleftrightarrow> k < n)"

text \<open>An attempt changes nothing, or it finds its copy current and advances it.\<close>

lemma attempt_cases:
  assumes "postRecurringOccurrence reads writes c txns st = (res, st')"
  obtains (nothing) "st' = st" "res \<noteq> Inr True"
  | (advanced) rows where "map_of (rx_recurring st) (rr_ID c) = Some c"
      "st' = st\<lparr>rx_transactions := rows,
         rx_receipts := (if map_of (rx_receipts st) (occurrence_id c) = None
           then map_put (occurrence_id c) txns (rx_receipts st) else rx_receipts st),
         rx_recurring := map_put (rr_ID c) (Advance c) (rx_recurring st)\<rparr>"
      "res = Inr (map_of (rx_receipts st) (occurrence_id c) = None)"
      "map_of (rx_receipts st) (occurrence_id c) = None \<longrightarrow> insert_rows txns (rx_transactions st) = Some rows"
proof -
  note defs = postRecurringOccurrence_def PutRecurringOccurrenceAtomic_def Let_def Advance_forward(2)
  let ?new = "map_of (rx_receipts st) (occurrence_id c) = None"
  let ?rows = "if ?new then insert_rows txns (rx_transactions st) else Some (rx_transactions st)"
  let ?call = "postRecurringOccurrence reads writes c txns st"
  show thesis
  proof (cases "payable c \<and> rr_ID c \<noteq> [] \<and> txns \<noteq> [] \<and> reads \<and> writes \<and>
      map_of (rx_recurring st) (rr_ID c) = Some c \<and> ?rows \<noteq> None")
    case True
    then obtain rows where rows: "?rows = Some rows" by blast
    from True rows have "?call = (Inr ?new, st\<lparr>rx_transactions := rows,
         rx_receipts := (if ?new then map_put (occurrence_id c) txns (rx_receipts st) else rx_receipts st),
         rx_recurring := map_put (rr_ID c) (Advance c) (rx_recurring st)\<rparr>)"
      by (simp add: defs)
    with assms True rows show thesis by (intro advanced [of rows]) (simp_all split: if_splits)
  next
    case False
    then have "snd ?call = st \<and> fst ?call \<noteq> Inr True"
      by (auto simp: defs split: option.split)
    with assms have "st' = st" "res \<noteq> Inr True" by simp_all
    then show thesis by (rule nothing)
  qed
qed

lemma posting_step_progress:
  assumes "progressed r n st" "posting_step e st = (ids, st')"
  shows "\<exists>m. progressed r m st' \<and> n \<le> m \<and> [i \<leftarrow> ids. fst i = rr_ID r] = map (\<lambda>k. occurrence_id (nth_due r k)) [n..<m]"
proof (cases e)
  case (OtherRows rows)
  with assms show ?thesis by (intro exI [of _ n]) (auto simp: progressed_def)
next
  case (Attempt reads writes c txns)
  obtain res where put: "postRecurringOccurrence reads writes c txns st = (res, st')"
      "ids = (if res = Inr True then [occurrence_id c] else [])"
    using assms(2) Attempt by (auto split: prod.splits)
  from put(1) show ?thesis
  proof (cases rule: attempt_cases)
    case nothing
    with put(2) assms(1) show ?thesis by (intro exI [of _ n]) simp
  next
    case (advanced rows)
    show ?thesis
    proof (cases "rr_ID c = rr_ID r")
      case True
      with advanced(1) assms(1) have c: "c = nth_due r n" by (simp add: progressed_def)
      with assms(1) have new: "map_of (rx_receipts st) (occurrence_id c) = None" by (auto simp: progressed_def)
      have "progressed r (Suc n) st'"
        using assms(1) True new c by (auto simp: progressed_def advanced(2) update_conv' occurrence_id_inject less_Suc_eq)
      moreover have "ids = [occurrence_id (nth_due r n)]" using put(2) advanced(3) new c by simp
      ultimately show ?thesis by (intro exI [of _ "Suc n"]) (simp add: occurrence_id_def)
    next
      case False
      then have "occurrence_id c \<noteq> occurrence_id (nth_due r k)" "occurrence_id (nth_due r k) \<noteq> occurrence_id c" for k
        by (auto simp: occurrence_id_def)
      with assms(1) False have "progressed r n st'" by (auto simp: progressed_def advanced(2) update_conv')
      moreover have "[i \<leftarrow> ids. fst i = rr_ID r] = []" using put(2) False by (simp add: occurrence_id_def)
      ultimately show ?thesis by (intro exI [of _ n]) simp
    qed
  qed
qed

text \<open>C13: Whatever copies of a recurring item the attempts to post it start from, in whichever order they
  come and whichever statements the database refuses, the occurrences of its schedule are posted in
  order, each exactly once and none left out, and the schedule stands at the first that is not posted.\<close>
theorem occurrences_posted_once_in_order:
  assumes "progressed r 0 st" "posting_run events st = (ids, st')"
  shows "\<exists>n. [i \<leftarrow> ids. fst i = rr_ID r] = map (\<lambda>k. occurrence_id (nth_due r k)) [0..<n] \<and>
    map_of (rx_recurring st') (rr_ID r) = Some (nth_due r n)"
proof -
  have "\<exists>m. progressed r m st' \<and> n \<le> m \<and> [i \<leftarrow> ids. fst i = rr_ID r] = map (\<lambda>k. occurrence_id (nth_due r k)) [n..<m]"
    if "progressed r n st" "posting_run events st = (ids, st')" for n
    using that
  proof (induction events arbitrary: n st ids)
    case (Cons e es)
    obtain a st1 b where step: "posting_step e st = (a, st1)" "posting_run es st1 = (b, st')" "ids = a @ b"
      using Cons.prems(2) by (auto split: prod.splits)
    from posting_step_progress [OF Cons.prems(1) step(1)] obtain k where k: "progressed r k st1" "n \<le> k"
      "[i \<leftarrow> a. fst i = rr_ID r] = map (\<lambda>k. occurrence_id (nth_due r k)) [n..<k]" by blast
    from Cons.IH [OF k(1) step(2)] obtain m where m: "progressed r m st'" "k \<le> m"
      "[i \<leftarrow> b. fst i = rr_ID r] = map (\<lambda>k. occurrence_id (nth_due r k)) [k..<m]" by blast
    have "[n..<m] = [n..<k] @ [k..<m]" using k(2) m(2) by (metis le_add_diff_inverse upt_add_eq_append)
    with k(2,3) m step(3) show ?case by (intro exI [of _ m]) simp
  qed auto
  from this [OF assms] show ?thesis by (auto simp: progressed_def)
qed

lemma occurrences_posted_once_in_order_witness:
  "let r = \<lparr>rr_ID = ''rent'', rr_Label = [], rr_Amount = \<lparr>Amount = - 900, Currency = ''EUR''\<rparr>, rr_Cadence = CadenceMonthly,
         rr_NextDue = at_day 20483, rr_AccountID = ''a'', rr_CategoryID = [], rr_Autopost = True, rr_Autopay = False,
         rr_SmoothIntoBudgets = False, rr_Paused = False, rr_Service = False, rr_Provider = []\<rparr>;
       st = \<lparr>rx_recurring = [(''rent'', r)], rx_receipts = [], rx_transactions = []\<rparr>;
       pay = (\<lambda>i. [Transaction_zero\<lparr>tx_ID := i\<rparr>])
   in \<exists>n. [i \<leftarrow> fst (posting_run [Attempt True True r (pay ''t1''), Attempt True True r (pay ''t1''),
         Attempt True True (Advance r) (pay ''t2'')] st). fst i = ''rent''] =
       map (\<lambda>k. occurrence_id (nth_due r k)) [0..<n]"
  unfolding Let_def
proof -
  let ?r = "\<lparr>rr_ID = ''rent'', rr_Label = [], rr_Amount = \<lparr>Amount = - 900, Currency = ''EUR''\<rparr>, rr_Cadence = CadenceMonthly,
         rr_NextDue = at_day 20483, rr_AccountID = ''a'', rr_CategoryID = [], rr_Autopost = True, rr_Autopay = False,
         rr_SmoothIntoBudgets = False, rr_Paused = False, rr_Service = False, rr_Provider = []\<rparr>"
  let ?st = "\<lparr>rx_recurring = [(''rent'', ?r)], rx_receipts = [], rx_transactions = []\<rparr>"
  let ?pay = "\<lambda>i. [Transaction_zero\<lparr>tx_ID := i\<rparr>]"
  have "progressed ?r 0 ?st" by (simp add: progressed_def)
  from occurrences_posted_once_in_order [OF this prod.collapse [symmetric], of
      "[Attempt True True ?r (?pay ''t1''), Attempt True True ?r (?pay ''t1''), Attempt True True (Advance ?r) (?pay ''t2'')]"]
  show "\<exists>n. [i \<leftarrow> fst (posting_run [Attempt True True ?r (?pay ''t1''), Attempt True True ?r (?pay ''t1''),
         Attempt True True (Advance ?r) (?pay ''t2'')] ?st). fst i = ''rent''] =
       map (\<lambda>k. occurrence_id (nth_due ?r k)) [0..<n]" by auto
qed

end
