(* ===== verification/CatchUp.thy ===== *)
theory CatchUp
  imports Recurring
begin

text \<open>
  The catch-up loop of \<open>appstate/appstate.go\<close> that posts every due occurrence of the automatic
  recurring items. The database is an argument that says which occurrences it serves, reading and
  writing, and so are the rows of an occurrence and whether the role may write. Shows that the loop is
  a run of posting attempts, what a failure leaves behind, and that a served loop leaves nothing due.
\<close>

type_synonym database = "operation_id \<Rightarrow> bool \<times> bool"

definition is_due :: "gotime \<Rightarrow> Recurring \<Rightarrow> bool" where
  "is_due through r \<longleftrightarrow> \<not> time_Before through (CalendarDayUTC (rr_NextDue r))"

definition automatic :: "Recurring \<Rightarrow> bool" where
  "automatic r \<longleftrightarrow> Recurring_Active r \<and> rr_Autopost r \<and> rr_AccountID r \<noteq> []"

text \<open>The inner loop: what it posted, where it failed, and the store it leaves.\<close>

fun catch_up :: "nat \<Rightarrow> database \<Rightarrow> (Recurring \<Rightarrow> Transaction list) \<Rightarrow> gotime \<Rightarrow> Recurring \<Rightarrow> recurring_store \<Rightarrow>
    operation_id list \<times> (operation_id \<times> posting_error) list \<times> recurring_store" where
  "catch_up 0 db rows through r st = ([], [], st)"
| "catch_up (Suc guard) db rows through r st =
     (if \<not> is_due through r then ([], [], st)
      else case postRecurringOccurrence (fst (db (occurrence_id r))) (snd (db (occurrence_id r))) r (rows r) st of
        (Inl e, st') \<Rightarrow> ([], [(occurrence_id r, e)], st')
      | (Inr created, st') \<Rightarrow>
          let (posted, failures, st'') = catch_up guard db rows through (Advance r) st'
          in (if created then occurrence_id r # posted else posted, failures, st''))"

fun catch_up_all :: "database \<Rightarrow> (Recurring \<Rightarrow> Transaction list) \<Rightarrow> gotime \<Rightarrow> Recurring list \<Rightarrow> recurring_store \<Rightarrow>
    operation_id list \<times> (operation_id \<times> posting_error) list \<times> recurring_store" where
  "catch_up_all db rows through [] st = ([], [], st)"
| "catch_up_all db rows through (r # rs) st =
     (let (posted, failures, st1) = (if automatic r then catch_up 600 db rows through r st else ([], [], st));
          (posted', failures', st2) = catch_up_all db rows through rs st1
      in (posted @ posted', failures @ failures', st2))"

definition withoutServices :: "Recurring list \<Rightarrow> Recurring list" where
  "withoutServices rs = [r \<leftarrow> rs. \<not> rr_Service r]"

definition Recurring_items :: "recurring_store \<Rightarrow> Recurring list" where
  "Recurring_items st = withoutServices (map snd (rx_recurring st))"

datatype role_error = RoleForbidden

definition PostDueRecurring :: "bool \<Rightarrow> database \<Rightarrow> (Recurring \<Rightarrow> Transaction list) \<Rightarrow> gotime \<Rightarrow> recurring_store \<Rightarrow>
    role_error + operation_id list \<times> (operation_id \<times> posting_error) list \<times> recurring_store" where
  "PostDueRecurring may_write db rows asOf st =
     (if \<not> may_write then Inl RoleForbidden
      else Inr (catch_up_all db rows (CalendarDayUTC asOf) (Recurring_items st) st))"

subsection \<open>The loop is a run of attempts\<close>

lemma is_due_day: "is_due (CalendarDayUTC asOf) r \<longleftrightarrow> day_of (rr_NextDue r) \<le> day_of asOf"
  by (simp add: is_due_def CalendarDayUTC_def midnight_eq time_Before_def instant_def at_day_def linorder_not_less)

lemma posting_run_append:
  "posting_run (es @ es') st =
     (let (ids, st1) = posting_run es st; (ids', st2) = posting_run es' st1 in (ids @ ids', st2))"
  by (induction es arbitrary: st) (auto simp: Let_def split: prod.splits)

lemma catch_up_is_run:
  "catch_up guard db rows through r st = (posted, failures, st') \<Longrightarrow> \<exists>events. posting_run events st = (posted, st')"
proof (induction guard arbitrary: r st posted failures st')
  case 0
  then show ?case by (intro exI [of _ "[]"]) simp
next
  case (Suc guard)
  let ?e = "Attempt (fst (db (occurrence_id r))) (snd (db (occurrence_id r))) r (rows r)"
  obtain res st1 where post: "postRecurringOccurrence (fst (db (occurrence_id r))) (snd (db (occurrence_id r))) r (rows r) st = (res, st1)"
    by (metis surj_pair)
  show ?case
  proof (cases "is_due through r")
    case False
    with Suc.prems show ?thesis by (intro exI [of _ "[]"]) simp
  next
    case due: True
    show ?thesis
    proof (cases res)
      case (Inl e)
      with Suc.prems due post show ?thesis by (intro exI [of _ "[?e]"]) simp
    next
      case (Inr created)
      obtain p f s where rec: "catch_up guard db rows through (Advance r) st1 = (p, f, s)" by (metis surj_pair)
      from Suc.IH [OF rec] obtain events where "posting_run events st1 = (p, s)" by blast
      with Suc.prems due post Inr rec show ?thesis
        by (intro exI [of _ "?e # events"]) (auto split: if_splits)
    qed
  qed
qed

lemma catch_up_all_is_run:
  "catch_up_all db rows through rs st = (posted, failures, st') \<Longrightarrow> \<exists>events. posting_run events st = (posted, st')"
proof (induction rs arbitrary: st posted failures st')
  case Nil
  then show ?case by (intro exI [of _ "[]"]) simp
next
  case (Cons r rs)
  obtain p f s where one: "(if automatic r then catch_up 600 db rows through r st else ([], [], st)) = (p, f, s)"
    by (metis surj_pair)
  obtain p' f' s' where more: "catch_up_all db rows through rs s = (p', f', s')" by (metis surj_pair)
  have "\<exists>events. posting_run events st = (p, s)"
    using one by (auto split: if_splits dest: catch_up_is_run intro: exI [of _ "[]"])
  then obtain es es' where "posting_run es st = (p, s)" "posting_run es' s = (p', s')"
    using Cons.IH [OF more] by blast
  moreover have "posted = p @ p'" "st' = s'" using Cons.prems one more by (simp_all add: Let_def)
  ultimately show ?case by (intro exI [of _ "es @ es'"]) (simp add: posting_run_append)
qed

subsection \<open>What the loop leaves\<close>

text \<open>An attempt on the current copy either fails and changes nothing or advances it.\<close>

lemma attempt_current:
  assumes "postRecurringOccurrence reads writes r txns st = (Inr created, st')" "map_of (rx_recurring st) (rr_ID r) = Some r"
  obtains rows where "st' = st\<lparr>rx_transactions := rows,
         rx_receipts := (if created then map_put (occurrence_id r) txns (rx_receipts st) else rx_receipts st),
         rx_recurring := map_put (rr_ID r) (Advance r) (rx_recurring st)\<rparr>"
      "created \<longleftrightarrow> map_of (rx_receipts st) (occurrence_id r) = None"
      "if created then insert_rows txns (rx_transactions st) = Some rows else rows = rx_transactions st"
proof -
  have "\<exists>rows. st' = st\<lparr>rx_transactions := rows,
         rx_receipts := (if created then map_put (occurrence_id r) txns (rx_receipts st) else rx_receipts st),
         rx_recurring := map_put (rr_ID r) (Advance r) (rx_recurring st)\<rparr> \<and>
      (created \<longleftrightarrow> map_of (rx_receipts st) (occurrence_id r) = None) \<and>
      (if created then insert_rows txns (rx_transactions st) = Some rows else rows = rx_transactions st)"
    using assms by (auto simp: postRecurringOccurrence_def PutRecurringOccurrenceAtomic_def Let_def split: if_splits option.splits)
  with that show thesis by blast
qed

lemma nth_due_Advance: "nth_due (Advance r) n = nth_due r (Suc n)"
  by (simp add: funpow_swap1)

definition caught_up :: "nat \<Rightarrow> gotime \<Rightarrow> Recurring \<Rightarrow> (operation_id \<times> posting_error) list \<Rightarrow> recurring_store \<Rightarrow> bool" where
  "caught_up guard through r failures st \<longleftrightarrow> (\<exists>n\<le>guard. map_of (rx_recurring st) (rr_ID r) = Some (nth_due r n) \<and>
     (\<forall>k<n. is_due through (nth_due r k) \<and> map_of (rx_receipts st) (occurrence_id (nth_due r k)) \<noteq> None) \<and>
     (n = guard \<or> \<not> is_due through (nth_due r n) \<or> occurrence_id (nth_due r n) \<in> fst ` set failures))"

lemma catch_up_item:
  assumes "catch_up guard db rows through r st = (posted, failures, st')" "map_of (rx_recurring st) (rr_ID r) = Some r"
  shows "caught_up guard through r failures st' \<and>
    (\<forall>i. i \<noteq> rr_ID r \<longrightarrow> map_of (rx_recurring st') i = map_of (rx_recurring st) i) \<and>
    (\<forall>i. map_of (rx_receipts st) i \<noteq> None \<longrightarrow> map_of (rx_receipts st') i \<noteq> None)"
  using assms
proof (induction guard arbitrary: r st posted failures st')
  case 0
  then show ?case by (simp add: caught_up_def)
next
  case (Suc guard)
  obtain res st1 where post: "postRecurringOccurrence (fst (db (occurrence_id r))) (snd (db (occurrence_id r))) r (rows r) st = (res, st1)"
    by (metis surj_pair)
  show ?case
  proof (cases "is_due through r")
    case False
    with Suc.prems show ?thesis by (auto simp: caught_up_def intro: exI [of _ 0])
  next
    case due: True
    show ?thesis
    proof (cases res)
      case (Inl e)
      have "st1 = st" using post Inl by (cases rule: attempt_cases) auto
      with Suc.prems due post Inl show ?thesis by (auto simp: caught_up_def intro: exI [of _ 0])
    next
      case (Inr created)
      obtain p f s where rec: "catch_up guard db rows through (Advance r) st1 = (p, f, s)" by (metis surj_pair)
      from Suc.prems due post Inr rec have result: "failures = f" "st' = s" by (auto split: if_splits)
      from attempt_current [OF post [unfolded Inr] Suc.prems(2)] obtain rws where st1:
        "st1 = st\<lparr>rx_transactions := rws,
           rx_receipts := (if created then map_put (occurrence_id r) (rows r) (rx_receipts st) else rx_receipts st),
           rx_recurring := map_put (rr_ID r) (Advance r) (rx_recurring st)\<rparr>"
        "created \<longleftrightarrow> map_of (rx_receipts st) (occurrence_id r) = None" by metis
      then have "map_of (rx_recurring st1) (rr_ID (Advance r)) = Some (Advance r)" by (simp add: update_conv')
      note IH = Suc.IH [OF rec this]
      then obtain n where n: "n \<le> guard" "map_of (rx_recurring s) (rr_ID r) = Some (nth_due r (Suc n))"
        "\<And>k. k < n \<Longrightarrow> is_due through (nth_due r (Suc k)) \<and> map_of (rx_receipts s) (occurrence_id (nth_due r (Suc k))) \<noteq> None"
        "n = guard \<or> \<not> is_due through (nth_due r (Suc n)) \<or> occurrence_id (nth_due r (Suc n)) \<in> fst ` set f"
        by (auto simp: caught_up_def nth_due_Advance simp del: funpow.simps)
      have receipt: "map_of (rx_receipts st1) (occurrence_id r) \<noteq> None" using st1 by (auto simp: update_conv')
      have "caught_up (Suc guard) through r f s"
        unfolding caught_up_def
      proof (intro exI [of _ "Suc n"] conjI allI impI)
        fix k assume "k < Suc n"
        then show "is_due through (nth_due r k)" using due n(3) [of "k - 1"] by (cases k) auto
        have "map_of (rx_receipts s) (occurrence_id r) \<noteq> None" using IH receipt by blast
        with \<open>k < Suc n\<close> n(3) [of "k - 1"] show "map_of (rx_receipts s) (occurrence_id (nth_due r k)) \<noteq> None"
          by (cases k) auto
      qed (use n in auto)
      moreover have "map_of (rx_receipts st1) i \<noteq> None" if "map_of (rx_receipts st) i \<noteq> None" for i
        using that by (simp add: st1(1) update_conv')
      ultimately show ?thesis using IH by (simp add: result st1(1) update_conv')
    qed
  qed
qed

lemma caught_up_later:
  assumes "caught_up guard through r failures st" "set failures \<subseteq> set failures'"
    "map_of (rx_recurring st') (rr_ID r) = map_of (rx_recurring st) (rr_ID r)"
    "\<And>i. map_of (rx_receipts st) i \<noteq> None \<Longrightarrow> map_of (rx_receipts st') i \<noteq> None"
  shows "caught_up guard through r failures' st'"
proof -
  from assms(1) obtain n where "n \<le> guard" "map_of (rx_recurring st) (rr_ID r) = Some (nth_due r n)"
    "\<forall>k<n. is_due through (nth_due r k) \<and> map_of (rx_receipts st) (occurrence_id (nth_due r k)) \<noteq> None"
    "n = guard \<or> \<not> is_due through (nth_due r n) \<or> occurrence_id (nth_due r n) \<in> fst ` set failures"
    unfolding caught_up_def by blast
  moreover have "fst ` set failures \<subseteq> fst ` set failures'" using assms(2) by (rule image_mono)
  ultimately show ?thesis
    unfolding caught_up_def assms(3) using assms(4) by (intro exI [of _ n]) (simp, blast)
qed

lemma catch_up_all_items:
  assumes "catch_up_all db rows through rs st = (posted, failures, st')"
    "distinct (map rr_ID rs)" "\<And>r. r \<in> set rs \<Longrightarrow> map_of (rx_recurring st) (rr_ID r) = Some r"
  shows "(\<forall>r \<in> set rs. automatic r \<longrightarrow> caught_up 600 through r failures st') \<and>
    (\<forall>i. i \<notin> rr_ID ` {r \<in> set rs. automatic r} \<longrightarrow> map_of (rx_recurring st') i = map_of (rx_recurring st) i) \<and>
    (\<forall>i. map_of (rx_receipts st) i \<noteq> None \<longrightarrow> map_of (rx_receipts st') i \<noteq> None)"
  using assms
proof (induction rs arbitrary: st posted failures st')
  case Nil
  then show ?case by simp
next
  case (Cons r rs)
  obtain p f s where one: "(if automatic r then catch_up 600 db rows through r st else ([], [], st)) = (p, f, s)"
    by (metis surj_pair)
  obtain p' f' s' where more: "catch_up_all db rows through rs s = (p', f', s')" by (metis surj_pair)
  have result: "failures = f @ f'" "st' = s'" using Cons.prems(1) one more by (simp_all add: Let_def)
  have first: "automatic r \<longrightarrow> caught_up 600 through r f s"
    "\<forall>i. i \<notin> rr_ID ` {q \<in> {r}. automatic q} \<longrightarrow> map_of (rx_recurring s) i = map_of (rx_recurring st) i"
    "\<forall>i. map_of (rx_receipts st) i \<noteq> None \<longrightarrow> map_of (rx_receipts s) i \<noteq> None"
    using one catch_up_item [of 600 db rows through r st p f s] Cons.prems(3) [of r] by (auto split: if_splits)
  have others: "rr_ID q \<noteq> rr_ID r" if "q \<in> set rs" for q
    using Cons.prems(2) that by (metis distinct.simps(2) image_eqI list.simps(9) set_map)
  have "map_of (rx_recurring s) (rr_ID q) = Some q" if "q \<in> set rs" for q
  proof -
    have "rr_ID q \<notin> rr_ID ` {q \<in> {r}. automatic q}" using others [OF that] by auto
    with first(2) Cons.prems(3) [of q] that show ?thesis by simp
  qed
  with Cons.IH [OF more] Cons.prems(2) have IH: "\<forall>q \<in> set rs. automatic q \<longrightarrow> caught_up 600 through q f' s'"
    "\<forall>i. i \<notin> rr_ID ` {q \<in> set rs. automatic q} \<longrightarrow> map_of (rx_recurring s') i = map_of (rx_recurring s) i"
    "\<forall>i. map_of (rx_receipts s) i \<noteq> None \<longrightarrow> map_of (rx_receipts s') i \<noteq> None" by simp_all
  have "map_of (rx_recurring s') (rr_ID r) = map_of (rx_recurring s) (rr_ID r)"
    using IH(2) others by force
  with first(1) IH(3) have "automatic r \<longrightarrow> caught_up 600 through r failures st'"
    by (auto simp: result intro!: caught_up_later [of 600 through r f s])
  moreover have "\<forall>q \<in> set rs. automatic q \<longrightarrow> caught_up 600 through q failures st'"
  proof (intro ballI impI)
    fix q assume "q \<in> set rs" "automatic q"
    with IH(1) have "caught_up 600 through q f' s'" by blast
    then show "caught_up 600 through q failures st'"
      unfolding result by (rule caught_up_later) simp_all
  qed
  moreover have "map_of (rx_recurring st') i = map_of (rx_recurring st) i"
    if "i \<notin> rr_ID ` {q \<in> set (r # rs). automatic q}" for i
  proof -
    from that have "i \<notin> rr_ID ` {q \<in> {r}. automatic q}" "i \<notin> rr_ID ` {q \<in> set rs. automatic q}" by auto
    then show ?thesis unfolding result(2) using IH(2) first(2) by (metis (no_types, lifting))
  qed
  ultimately show ?case using first(3) IH(3) by (simp add: result)
qed

subsection \<open>Nothing is refused when the database serves\<close>

text \<open>The rows of an occurrence carry ids of their own, which no other row of the store has.\<close>

definition rows_new :: "(Recurring \<Rightarrow> Transaction list) \<Rightarrow> recurring_store \<Rightarrow> bool" where
  "rows_new rows st \<longleftrightarrow>
     (\<forall>r. rows r \<noteq> [] \<and> distinct (map tx_ID (rows r)) \<and> [] \<notin> tx_ID ` set (rows r)) \<and>
     (\<forall>r r'. occurrence_id r \<noteq> occurrence_id r' \<longrightarrow> tx_ID ` set (rows r) \<inter> tx_ID ` set (rows r') = {}) \<and>
     (\<forall>r. map_of (rx_receipts st) (occurrence_id r) = None \<longrightarrow>
        (\<forall>t \<in> set (rows r). map_of (rx_transactions st) (tx_ID t) = None))"

definition ordinary :: "Recurring \<Rightarrow> bool" where
  "ordinary r \<longleftrightarrow> rr_ID r \<noteq> [] \<and> \<not> (\<exists>e. AbsChecked (rr_Amount r) = Inl e) \<and>
     0 \<le> day_of (rr_NextDue r) \<and> zone (rr_NextDue r) \<le> day_ns"

lemma ordinary_payable: "ordinary r \<Longrightarrow> Recurring_Active r \<Longrightarrow> payable r"
proof -
  assume "ordinary r" "Recurring_Active r"
  then have "0 \<le> wall (rr_NextDue r)" by (simp add: ordinary_def day_of_def pos_imp_zdiv_nonneg_iff)
  with \<open>ordinary r\<close> have "instant (rr_NextDue r) \<noteq> zero_time" by (simp add: ordinary_def instant_def zero_time_def)
  with \<open>ordinary r\<close> \<open>Recurring_Active r\<close> show "payable r" by (auto simp: payable_def ordinary_def split: sum.split)
qed

lemma Advance_ordinary: "ordinary r \<Longrightarrow> ordinary (Advance r)" "Recurring_Active (Advance r) = Recurring_Active r"
proof -
  assume "ordinary r"
  obtain n where "n > day_of (rr_NextDue r)" "Cadence_Next (rr_Cadence r) (rr_NextDue r) = place (rr_NextDue r) n"
    using Next_forward by blast
  with \<open>ordinary r\<close> show "ordinary (Advance r)" by (simp add: ordinary_def Advance_def)
qed (simp add: Advance_def Recurring_Active_def)

lemma insert_rows_new:
  assumes "distinct (map tx_ID ts)" "[] \<notin> tx_ID ` set ts" "\<forall>t \<in> set ts. map_of rows (tx_ID t) = None"
  obtains rows' where "insert_rows ts rows = Some rows'"
    "\<And>i. map_of rows' i = None \<longleftrightarrow> map_of rows i = None \<and> i \<notin> tx_ID ` set ts"
proof -
  have "\<exists>rows'. insert_rows ts rows = Some rows' \<and>
    (\<forall>i. map_of rows' i = None \<longleftrightarrow> map_of rows i = None \<and> i \<notin> tx_ID ` set ts)"
    using assms
  proof (induction ts arbitrary: rows)
    case (Cons t ts)
    have "\<forall>u \<in> set ts. map_of (map_put (tx_ID t) t rows) (tx_ID u) = None" using Cons.prems by (auto simp: update_conv' image_iff)
    with Cons.IH Cons.prems obtain rows' where "insert_rows ts (map_put (tx_ID t) t rows) = Some rows'"
      "\<forall>i. map_of rows' i = None \<longleftrightarrow> map_of (map_put (tx_ID t) t rows) i = None \<and> i \<notin> tx_ID ` set ts" by force
    with Cons.prems show ?case by (auto simp: update_conv')
  qed simp
  with that show thesis by blast
qed

lemma catch_up_served:
  assumes "catch_up guard db rows through r st = (posted, failures, st')" "map_of (rx_recurring st) (rr_ID r) = Some r"
    "db = (\<lambda>i. (True, True))" "rows_new rows st" "ordinary r" "Recurring_Active r"
  shows "failures = [] \<and> rows_new rows st'"
  using assms(1,2,4-)
proof (induction guard arbitrary: r st posted failures st')
  case (Suc guard)
  show ?case
  proof (cases "is_due through r")
    case due: True
    let ?new = "map_of (rx_receipts st) (occurrence_id r) = None"
    have own: "rows r \<noteq> []" "distinct (map tx_ID (rows r))" "[] \<notin> tx_ID ` set (rows r)"
      "?new \<Longrightarrow> \<forall>t \<in> set (rows r). map_of (rx_transactions st) (tx_ID t) = None"
      using Suc.prems(3) by (auto simp: rows_new_def)
    obtain rws where rws: "(if ?new then insert_rows (rows r) (rx_transactions st) else Some (rx_transactions st)) = Some rws"
      "\<And>i. map_of rws i = None \<longleftrightarrow> map_of (rx_transactions st) i = None \<and> (?new \<longrightarrow> i \<notin> tx_ID ` set (rows r))"
    proof (cases ?new)
      case True
      from insert_rows_new [OF own(2,3) own(4) [OF True]] True that show ?thesis by (metis (no_types, lifting))
    qed (use that in auto)
    define st1 where "st1 = st\<lparr>rx_transactions := rws,
         rx_receipts := (if ?new then map_put (occurrence_id r) (rows r) (rx_receipts st) else rx_receipts st),
         rx_recurring := map_put (rr_ID r) (Advance r) (rx_recurring st)\<rparr>"
    have post: "postRecurringOccurrence True True r (rows r) st = (Inr ?new, st1)"
      using Suc.prems(2,4,5) own(1) rws(1) ordinary_payable [of r] Advance_forward(2) [of r]
      by (auto simp: postRecurringOccurrence_def PutRecurringOccurrenceAtomic_def st1_def ordinary_def Let_def)
    have new1: "rows_new rows st1"
      using Suc.prems(3) unfolding rows_new_def
      by (auto simp: st1_def rws(2) update_conv' split: if_splits) blast+
    obtain p f s where rec: "catch_up guard db rows through (Advance r) st1 = (p, f, s)" by (metis surj_pair)
    have "f = [] \<and> rows_new rows s"
      using Suc.prems(4,5) by (intro Suc.IH [OF rec _ new1]) (simp_all add: st1_def update_conv' Advance_ordinary)
    with Suc.prems(1) due post rec assms(3) show ?thesis by (auto split: if_splits)
  qed (use Suc.prems in simp)
qed simp

lemma catch_up_all_served:
  assumes "catch_up_all db rows through rs st = (posted, failures, st')" "distinct (map rr_ID rs)"
    "\<And>r. r \<in> set rs \<Longrightarrow> map_of (rx_recurring st) (rr_ID r) = Some r \<and> ordinary r"
    "db = (\<lambda>i. (True, True))" "rows_new rows st"
  shows "failures = []"
  using assms(1-3,5)
proof (induction rs arbitrary: st posted failures st')
  case (Cons r rs)
  obtain p f s where one: "(if automatic r then catch_up 600 db rows through r st else ([], [], st)) = (p, f, s)"
    by (metis surj_pair)
  obtain p' f' s' where more: "catch_up_all db rows through rs s = (p', f', s')" by (metis surj_pair)
  have first: "f = [] \<and> rows_new rows s" "\<And>i. i \<noteq> rr_ID r \<Longrightarrow> map_of (rx_recurring s) i = map_of (rx_recurring st) i"
    using one catch_up_served [where guard = 600 and r = r and st = st and db = db and rows = rows and through = through
        and posted = p and failures = f and st' = s, OF _ _ assms(4)]
      catch_up_item [of 600 db rows through r st p f s] Cons.prems(3) [of r] Cons.prems(4)
    by (auto simp: automatic_def split: if_splits)
  have "f' = []"
  proof (rule Cons.IH [OF more])
    fix q assume "q \<in> set rs"
    with Cons.prems(2,3) first(2) [of "rr_ID q"] show "map_of (rx_recurring s) (rr_ID q) = Some q \<and> ordinary q"
      by (metis distinct.simps(2) image_eqI list.set_intros(2) list.simps(9) set_map)
  qed (use Cons.prems(2) first in auto)
  with first Cons.prems(1) one more show ?case by (simp add: Let_def)
qed simp

text \<open>The rows of the recurring table are stored under their own ids.\<close>

definition recurring_table :: "recurring_store \<Rightarrow> bool" where
  "recurring_table st \<longleftrightarrow> map_ok (rx_recurring st) \<and> (\<forall>(i, r) \<in> set (rx_recurring st). i = rr_ID r)"

lemma recurring_items:
  assumes "recurring_table st"
  shows "distinct (map rr_ID (Recurring_items st))"
    "r \<in> set (Recurring_items st) \<Longrightarrow> map_of (rx_recurring st) (rr_ID r) = Some r"
proof -
  have "map fst (rx_recurring st) = map rr_ID (map snd (rx_recurring st))"
    using assms by (auto simp: recurring_table_def)
  with assms have "distinct (map rr_ID (map snd (rx_recurring st)))" by (simp add: recurring_table_def)
  then show "distinct (map rr_ID (Recurring_items st))"
    by (simp add: Recurring_items_def withoutServices_def distinct_map_filter)
  show "r \<in> set (Recurring_items st) \<Longrightarrow> map_of (rx_recurring st) (rr_ID r) = Some r"
    using assms by (auto simp: Recurring_items_def withoutServices_def recurring_table_def intro!: map_of_is_SomeI)
qed



end
