(* ===== verification/FormulaParser.thy ===== *)
theory FormulaParser
  imports Go_Prelude Float64 "HOL-Library.List_Lexorder" "HOL-Library.Char_ord"
begin

text \<open>
  The formula language, \<open>internal/formula\<close>: the tokenizer (\<open>token.go\<close>) and the recursive-descent parser
  (\<open>parser.go\<close>). A token list of the parser is what is left of its tokens from its position on, and
  its depth is the nesting it may still open. Errors carry the position, not the wording. The grammar
  is stated by inductive relations between trees and the tokens they cover; the parser is shown to
  accept exactly its sentences within the nesting bound, and to build the one tree each of them has.
\<close>

subsection \<open>Tokens\<close>

datatype TokenKind = TNumber | TIdent | TString | TOp | TLParen | TRParen | TComma | TEOF

record Token =
  tk_Kind :: TokenKind
  tk_Text :: string
  tk_Pos :: nat

datatype formula_error =
  TooLong
| BadNumber nat
| UnterminatedString nat
| UnexpectedCharacter nat
| NestedTooDeeply nat
| Unexpected nat
| ChainedComparison nat
| ExpectedParen nat

definition MaxSourceLen :: nat where "MaxSourceLen = 32 * 1024"

definition isDigit :: "char \<Rightarrow> bool" where
  "isDigit c \<longleftrightarrow> 48 \<le> (of_char c :: nat) \<and> (of_char c :: nat) \<le> 57"

definition isAlpha :: "char \<Rightarrow> bool" where
  "isAlpha c \<longleftrightarrow> 97 \<le> (of_char c :: nat) \<and> (of_char c :: nat) \<le> 122 \<or> 65 \<le> (of_char c :: nat) \<and> (of_char c :: nat) \<le> 90"

definition isAlnum :: "char \<Rightarrow> bool" where
  "isAlnum c \<longleftrightarrow> isAlpha c \<or> isDigit c"

definition isBlank :: "char \<Rightarrow> bool" where
  "isBlank c \<longleftrightarrow> of_char c \<in> {32, 9, 10, 13 :: nat}"

text \<open>The exponent a number may go on with: its text and what follows it.\<close>

definition exponent :: "string \<Rightarrow> string \<times> string" where
  "exponent s = (case s of [] \<Rightarrow> ([], s)
     | c # s1 \<Rightarrow>
         if c \<notin> {CHR ''e'', CHR ''E''} then ([], s)
         else
           let (sign, s2) = (case s1 of d # s1' \<Rightarrow> if d \<in> {CHR ''+'', CHR ''-''} then ([d], s1') else ([], s1)
                            | [] \<Rightarrow> ([], s1))
           in (case s2 of [] \<Rightarrow> ([], s)
             | d # _ \<Rightarrow> if isDigit d then (c # sign @ takeWhile isDigit s2, dropWhile isDigit s2) else ([], s)))"

definition numeric :: "char \<Rightarrow> bool" where "numeric c \<longleftrightarrow> isDigit c \<or> c = CHR ''.''"

definition number_token :: "nat \<Rightarrow> string \<Rightarrow> formula_error + Token \<times> string" where
  "number_token i s =
     (let body = takeWhile numeric s; (expo, rest) = exponent (dropWhile numeric s)
      in if length [c \<leftarrow> body. c = CHR ''.''] > 1 then Inl (BadNumber i)
         else Inr (\<lparr>tk_Kind = TNumber, tk_Text = body @ expo, tk_Pos = i\<rparr>, rest))"

definition word_char :: "char \<Rightarrow> bool" where "word_char c \<longleftrightarrow> isAlnum c \<or> c = CHR ''_''"

definition string_token :: "nat \<Rightarrow> string \<Rightarrow> formula_error + Token \<times> string" where
  "string_token i s =
     (let body = takeWhile (\<lambda>c. c \<noteq> CHR 0x22) s; rest = dropWhile (\<lambda>c. c \<noteq> CHR 0x22) s
      in if rest = [] then Inl (UnterminatedString i)
         else Inr (\<lparr>tk_Kind = TString, tk_Text = body, tk_Pos = i\<rparr>, tl rest))"

text \<open>One round of the loop: a token or a blank (\<open>None\<close>), and the rest of the input.\<close>

fun next_token :: "nat \<Rightarrow> string \<Rightarrow> formula_error + Token option \<times> string" where
  "next_token i [] = Inl (UnexpectedCharacter i)"
| "next_token i (c # s) =
     (let one = (\<lambda>kind. Inr (Some \<lparr>tk_Kind = kind, tk_Text = [c], tk_Pos = i\<rparr>, s))
      in if isBlank c then Inr (None, s)
      else if isDigit c \<or> c = CHR ''.'' \<and> s \<noteq> [] \<and> isDigit (hd s) then
        bindE (number_token i (c # s)) (\<lambda>(t, rest). Inr (Some t, rest))
      else if isAlpha c \<or> c = CHR ''_'' then
        Inr (Some \<lparr>tk_Kind = TIdent, tk_Text = takeWhile word_char (c # s), tk_Pos = i\<rparr>, dropWhile word_char (c # s))
      else if c = CHR 0x22 then bindE (string_token i s) (\<lambda>(t, rest). Inr (Some t, rest))
      else if c = CHR ''('' then one TLParen
      else if c = CHR '')'' then one TRParen
      else if c = CHR '','' then one TComma
      else if c \<in> {CHR ''+'', CHR ''-'', CHR ''*'', CHR ''/'', CHR ''%''} then one TOp
      else if c \<in> {CHR ''='', CHR ''!'', CHR ''<'', CHR ''>''} then
        (if s \<noteq> [] \<and> hd s = CHR ''='' then Inr (Some \<lparr>tk_Kind = TOp, tk_Text = [c, CHR ''=''], tk_Pos = i\<rparr>, tl s)
         else if c \<in> {CHR ''='', CHR ''!''} then Inl (UnexpectedCharacter i)
         else one TOp)
      else Inl (UnexpectedCharacter i))"

lemma length_dropWhile_lt: "P (hd s) \<Longrightarrow> s \<noteq> [] \<Longrightarrow> length (dropWhile P s) < length s"
  by (cases s) (simp_all add: le_imp_less_Suc length_dropWhile_le)

lemma exponent_split: "exponent s = (e, r) \<Longrightarrow> s = e @ r"
  by (auto simp: exponent_def Let_def split: list.splits if_splits)

lemma number_token_shrinks:
  "number_token i s = Inr (t, rest) \<Longrightarrow> s \<noteq> [] \<Longrightarrow> numeric (hd s) \<Longrightarrow> length rest < length s"
  using length_dropWhile_lt [of numeric s] exponent_split [of "dropWhile numeric s"]
  by (auto simp: number_token_def Let_def split: prod.splits if_splits)

lemma string_token_shrinks: "string_token i s = Inr (t, rest) \<Longrightarrow> length rest < length s"
  using length_dropWhile_le [of "\<lambda>c. c \<noteq> CHR 0x22" s]
  by (cases "dropWhile (\<lambda>c. c \<noteq> CHR 0x22) s") (auto simp: string_token_def Let_def)

lemma if_eqE: "(if b then x else y) = z \<Longrightarrow> (x = z \<Longrightarrow> P) \<Longrightarrow> (y = z \<Longrightarrow> P) \<Longrightarrow> P"
  by (cases b) simp_all

lemma next_token_cases:
  assumes "next_token i (c # s) = Inr (t, rest)"
  obtains (blank) "t = None" "rest = s"
  | (number) u where "number_token i (c # s) = Inr (u, rest)" "t = Some u" "numeric c"
  | (word) "t = Some \<lparr>tk_Kind = TIdent, tk_Text = takeWhile word_char (c # s), tk_Pos = i\<rparr>"
      "rest = dropWhile word_char (c # s)" "word_char c"
  | (quoted) u where "string_token i s = Inr (u, rest)" "t = Some u"
  | (symbol) u where "t = Some u" "tk_Kind u \<in> {TOp, TLParen, TRParen, TComma}" "rest = s \<or> rest = tl s"
proof -
  note defs = next_token.simps Let_def bindE_Inr_iff
  let ?number = "isDigit c \<or> c = CHR ''.'' \<and> s \<noteq> [] \<and> isDigit (hd s)"
  consider "isBlank c" | "\<not> isBlank c" ?number | "\<not> isBlank c" "\<not> ?number" "isAlpha c \<or> c = CHR ''_''"
    | "\<not> isBlank c" "\<not> ?number" "\<not> (isAlpha c \<or> c = CHR ''_'')" "c = CHR 0x22"
    | "\<not> isBlank c" "\<not> ?number" "\<not> (isAlpha c \<or> c = CHR ''_'')" "c \<noteq> CHR 0x22" by blast
  then show thesis
  proof cases
    case 1
    with assms show thesis by (intro blank) (simp_all add: defs)
  next
    case 2
    with assms have "\<exists>u. number_token i (c # s) = Inr (u, rest) \<and> t = Some u" by (auto simp: defs)
    with 2 number show thesis by (auto simp: numeric_def)
  next
    case 3
    with assms show thesis by (intro word) (auto simp: defs word_char_def isAlnum_def)
  next
    case 4
    with assms have "\<exists>u. string_token i s = Inr (u, rest) \<and> t = Some u" by (auto simp: defs)
    with quoted show thesis by auto
  next
    case 5
    then have "rest = s \<or> rest = tl s" using assms unfolding defs by (simp split: if_split_asm)
    moreover have "case t of None \<Rightarrow> False | Some u \<Rightarrow> tk_Kind u \<in> {TOp, TLParen, TRParen, TComma}"
      using assms unfolding defs if_not_P [OF 5(1)] if_not_P [OF 5(2)] if_not_P [OF 5(3)] if_not_P [OF 5(4)]
      by (elim if_eqE; auto)
    ultimately show thesis using symbol by (cases t) auto
  qed
qed

lemma next_token_shrinks:
  assumes "next_token i s = Inr (t, rest)"
  shows "length rest < length s"
proof (cases s)
  case (Cons c s')
  with assms have "next_token i (c # s') = Inr (t, rest)" by simp
  then show ?thesis
  proof (cases rule: next_token_cases)
    case number
    from number_token_shrinks [OF number(1)] number(3) Cons show ?thesis by simp
  next
    case word
    with Cons length_dropWhile_lt [of word_char "c # s'"] show ?thesis by simp
  next
    case quoted
    with Cons string_token_shrinks show ?thesis by fastforce
  qed (use Cons in auto)
qed (use assms in simp)

lemma next_token_kind:
  assumes "next_token i s = Inr (Some t, rest)"
  shows "tk_Kind t \<noteq> TEOF"
proof (cases s)
  case (Cons c s')
  with assms have "next_token i (c # s') = Inr (Some t, rest)" by simp
  then show ?thesis
    by (cases rule: next_token_cases)
      (auto simp: number_token_def string_token_def Let_def split: prod.splits if_split_asm)
qed (use assms in simp)

function lex :: "nat \<Rightarrow> string \<Rightarrow> formula_error + Token list" where
  "lex i s =
     (if s = [] then Inr [\<lparr>tk_Kind = TEOF, tk_Text = [], tk_Pos = i\<rparr>]
      else case next_token i s of Inl e \<Rightarrow> Inl e
      | Inr (t, rest) \<Rightarrow> bindE (lex (i + (length s - length rest)) rest)
          (\<lambda>ts. Inr (case t of None \<Rightarrow> ts | Some t \<Rightarrow> t # ts)))"
  by pat_completeness auto
termination by (relation "measure (\<lambda>(i, s). length s)") (auto dest: next_token_shrinks)

declare lex.simps [simp del]

definition Tokenize :: "string \<Rightarrow> formula_error + Token list" where
  "Tokenize input = (if length input > MaxSourceLen then Inl TooLong else lex 0 input)"

subsection \<open>Trees\<close>

datatype Node =
  NumberLit f64
| StringLit string
| Ident string
| Unary string Node
| Binary string Node Node
| Call string "Node list"

text \<open>\<open>strconv.ParseFloat\<close> on the texts the tokenizer makes: the decimal's value, correctly rounded,
  or an error when that is infinite.\<close>

definition digits_value :: "string \<Rightarrow> int" where
  "digits_value s = foldl (\<lambda>n c. 10 * n + (int (of_char c) - 48)) 0 s"

definition exponent_value :: "string \<Rightarrow> int" where
  "exponent_value e = (case e of [] \<Rightarrow> 0
     | _ # s \<Rightarrow> if s \<noteq> [] \<and> hd s = CHR ''-'' then - digits_value (tl s)
         else if s \<noteq> [] \<and> hd s = CHR ''+'' then digits_value (tl s) else digits_value s)"

definition decimal_value :: "string \<Rightarrow> rat" where
  "decimal_value s =
     (let body = takeWhile numeric s; whole = takeWhile isDigit body;
          frac = filter isDigit (dropWhile isDigit body);
          m = digits_value (whole @ frac); e = exponent_value (dropWhile numeric s) - int (length frac)
      in if e \<ge> 0 then of_int (m * 10 ^ nat e) else of_int m / of_int (10 ^ nat (- e)))"

definition ParseFloat :: "string \<Rightarrow> f64 option" where
  "ParseFloat s = (case round_f64 (decimal_value s) of Fin v \<Rightarrow> Some (Fin v) | _ \<Rightarrow> None)"

subsection \<open>The parser\<close>

type_synonym parser = "Token list \<Rightarrow> formula_error + Node \<times> Token list"

definition maxDepth :: nat where "maxDepth = 2000"

definition cur :: "Token list \<Rightarrow> Token" where
  "cur ts = (case ts of t # _ \<Rightarrow> t | [] \<Rightarrow> \<lparr>tk_Kind = TEOF, tk_Text = [], tk_Pos = 0\<rparr>)"

definition advance :: "Token list \<Rightarrow> Token list" where
  "advance ts = (if length ts > 1 then tl ts else ts)"

definition is_op :: "string set \<Rightarrow> Token \<Rightarrow> bool" where
  "is_op ops t \<longleftrightarrow> tk_Kind t = TOp \<and> tk_Text t \<in> ops"

abbreviation compare_ops :: "string set" where
  "compare_ops \<equiv> {''=='', ''!='', ''<'', ''<='', ''>'', ''>=''}"
abbreviation add_ops :: "string set" where "add_ops \<equiv> {''+'', ''-''}"
abbreviation mul_ops :: "string set" where "mul_ops \<equiv> {''*'', ''/'', ''%''}"

definition isCompare :: "string \<Rightarrow> bool" where "isCompare s \<longleftrightarrow> s \<in> compare_ops"

text \<open>The loops take the number of tokens left as the bound of their rounds: each round uses one.\<close>

fun op_loop :: "string set \<Rightarrow> parser \<Rightarrow> nat \<Rightarrow> Node \<Rightarrow> parser" where
  "op_loop ops p 0 left ts = Inr (left, ts)"
| "op_loop ops p (Suc k) left ts =
     (if is_op ops (cur ts) then
        bindE (p (advance ts)) (\<lambda>(right, rest). op_loop ops p k (Binary (tk_Text (cur ts)) left right) rest)
      else Inr (left, ts))"

definition parseMultiplicative :: "parser \<Rightarrow> parser" where
  "parseMultiplicative p ts = bindE (p ts) (\<lambda>(left, rest). op_loop mul_ops p (length rest) left rest)"

definition parseAdditive :: "parser \<Rightarrow> parser" where
  "parseAdditive p ts =
     bindE (parseMultiplicative p ts) (\<lambda>(left, rest). op_loop add_ops (parseMultiplicative p) (length rest) left rest)"

definition parseComparison :: "parser \<Rightarrow> parser" where
  "parseComparison p ts = bindE (parseAdditive p ts) (\<lambda>(left, rest).
     if tk_Kind (cur rest) = TOp \<and> isCompare (tk_Text (cur rest)) then
       bindE (parseAdditive p (advance rest)) (\<lambda>(right, rest').
         if tk_Kind (cur rest') = TOp \<and> isCompare (tk_Text (cur rest')) then Inl (ChainedComparison (tk_Pos (cur rest')))
         else Inr (Binary (tk_Text (cur rest)) left right, rest'))
     else Inr (left, rest))"

fun arg_loop :: "parser \<Rightarrow> nat \<Rightarrow> Node list \<Rightarrow> Token list \<Rightarrow> formula_error + Node list \<times> Token list" where
  "arg_loop p 0 args ts = bindE (p ts) (\<lambda>(arg, rest). Inr (args @ [arg], rest))"
| "arg_loop p (Suc k) args ts = bindE (p ts) (\<lambda>(arg, rest).
     if tk_Kind (cur rest) = TComma then arg_loop p k (args @ [arg]) (advance rest)
     else Inr (args @ [arg], rest))"

text \<open>\<open>nested\<close> is the parser of expressions one nesting deeper, if that may be opened.\<close>

definition parseCall :: "parser option \<Rightarrow> string \<Rightarrow> parser" where
  "parseCall nested name ts = (case nested of None \<Rightarrow> Inl (NestedTooDeeply (tk_Pos (cur ts)))
     | Some p \<Rightarrow>
       let ts1 = advance ts in
       bindE (if tk_Kind (cur ts1) \<noteq> TRParen then arg_loop p (length ts1) [] ts1 else Inr ([], ts1)) (\<lambda>(args, rest).
         if tk_Kind (cur rest) \<noteq> TRParen then Inl (ExpectedParen (tk_Pos (cur rest)))
         else Inr (Call name args, advance rest)))"

definition parsePrimary :: "parser option \<Rightarrow> parser" where
  "parsePrimary nested ts = (let t = cur ts in case tk_Kind t of
       TNumber \<Rightarrow> (case ParseFloat (tk_Text t) of None \<Rightarrow> Inl (BadNumber (tk_Pos t)) | Some v \<Rightarrow> Inr (NumberLit v, advance ts))
     | TString \<Rightarrow> Inr (StringLit (tk_Text t), advance ts)
     | TIdent \<Rightarrow> (let rest = advance ts in
         if tk_Kind (cur rest) = TLParen then parseCall nested (tk_Text t) rest else Inr (Ident (tk_Text t), rest))
     | TLParen \<Rightarrow> (case nested of None \<Rightarrow> Inl (NestedTooDeeply (tk_Pos t))
         | Some p \<Rightarrow> bindE (p (advance ts)) (\<lambda>(inner, rest).
             if tk_Kind (cur rest) \<noteq> TRParen then Inl (ExpectedParen (tk_Pos (cur rest))) else Inr (inner, advance rest)))
     | _ \<Rightarrow> Inl (Unexpected (tk_Pos t)))"

text \<open>The number is how many nestings may still be entered.\<close>

fun parseUnary :: "nat \<Rightarrow> parser" where
  "parseUnary 0 ts = Inl (NestedTooDeeply (tk_Pos (cur ts)))"
| "parseUnary (Suc d) ts =
     (if is_op add_ops (cur ts) then
        bindE (parseUnary d (advance ts)) (\<lambda>(x, rest). Inr (Unary (tk_Text (cur ts)) x, rest))
      else parsePrimary (case d of 0 \<Rightarrow> None | Suc e \<Rightarrow> Some (parseComparison (\<lambda>us. parseUnary e us))) ts)"

definition parseExpr :: "nat \<Rightarrow> parser" where "parseExpr d = parseComparison (parseUnary d)"

definition Parse :: "string \<Rightarrow> formula_error + Node" where
  "Parse input = bindE (Tokenize input) (\<lambda>toks. bindE (parseExpr maxDepth toks) (\<lambda>(n, rest).
     if tk_Kind (cur rest) \<noteq> TEOF then Inl (Unexpected (tk_Pos (cur rest))) else Inr n))"

subsection \<open>The grammar\<close>

text \<open>
  A chain of operands of \<open>G\<close> joined by operators of one precedence, grouped to the left; a comparison
  of two sums; a list of expressions between commas. Expressions are stated over the unary operands
  \<open>U\<close> they are built from, so that the number of nestings appears in one place.
\<close>

type_synonym phrase = "Node \<Rightarrow> Token list \<Rightarrow> bool"

inductive chain :: "string set \<Rightarrow> phrase \<Rightarrow> phrase" for ops G where
  chain_one: "G n ts \<Longrightarrow> chain ops G n ts"
| chain_more: "chain ops G l ts \<Longrightarrow> is_op ops t \<Longrightarrow> G r us \<Longrightarrow> chain ops G (Binary (tk_Text t) l r) (ts @ t # us)"

abbreviation product :: "phrase \<Rightarrow> phrase" where "product U \<equiv> chain mul_ops U"
abbreviation sum_of :: "phrase \<Rightarrow> phrase" where "sum_of U \<equiv> chain add_ops (product U)"

inductive expression :: "phrase \<Rightarrow> phrase" for U where
  plain: "sum_of U n ts \<Longrightarrow> expression U n ts"
| comparison: "sum_of U l ts \<Longrightarrow> is_op compare_ops t \<Longrightarrow> sum_of U r us \<Longrightarrow> expression U (Binary (tk_Text t) l r) (ts @ t # us)"

inductive arguments :: "phrase \<Rightarrow> Node list \<Rightarrow> Token list \<Rightarrow> bool" for E where
  one_arg: "E n ts \<Longrightarrow> arguments E [n] ts"
| more_args: "arguments E ns ts \<Longrightarrow> tk_Kind c = TComma \<Longrightarrow> E n us \<Longrightarrow> arguments E (ns @ [n]) (ts @ c # us)"

lemma chain_mono [mono]:
  "(\<And>n ts. G n ts \<longrightarrow> H n ts) \<Longrightarrow> chain ops G n ts \<longrightarrow> chain ops H n ts"
proof
  assume le: "\<And>n ts. G n ts \<longrightarrow> H n ts" and "chain ops G n ts"
  from this(2) show "chain ops H n ts" by induction (use le in \<open>auto intro: chain.intros\<close>)
qed

lemma expression_mono [mono]:
  assumes "\<And>n ts. U n ts \<longrightarrow> V n ts"
  shows "expression U n ts \<longrightarrow> expression V n ts"
proof -
  have "sum_of U n ts \<longrightarrow> sum_of V n ts" for n ts using assms by (intro chain_mono) blast
  then show ?thesis by (auto elim!: expression.cases intro: expression.intros)
qed

lemma arguments_mono [mono]:
  "(\<And>n ts. E n ts \<longrightarrow> F n ts) \<Longrightarrow> arguments E ns ts \<longrightarrow> arguments F ns ts"
proof
  assume le: "\<And>n ts. E n ts \<longrightarrow> F n ts" and "arguments E ns ts"
  from this(2) show "arguments F ns ts" by induction (use le in \<open>auto intro: arguments.intros\<close>)
qed

inductive unary :: "nat \<Rightarrow> phrase" and primary :: "nat \<Rightarrow> phrase" where
  sign: "is_op add_ops t \<Longrightarrow> unary d x ts \<Longrightarrow> unary (Suc d) (Unary (tk_Text t) x) (t # ts)"
| no_sign: "primary d x ts \<Longrightarrow> unary (Suc d) x ts"
| number: "tk_Kind t = TNumber \<Longrightarrow> ParseFloat (tk_Text t) = Some v \<Longrightarrow> primary d (NumberLit v) [t]"
| quoted: "tk_Kind t = TString \<Longrightarrow> primary d (StringLit (tk_Text t)) [t]"
| name: "tk_Kind t = TIdent \<Longrightarrow> primary d (Ident (tk_Text t)) [t]"
| parens: "tk_Kind l = TLParen \<Longrightarrow> expression (unary d) x ts \<Longrightarrow> tk_Kind r = TRParen \<Longrightarrow> primary (Suc d) x (l # ts @ [r])"
| call_none: "tk_Kind f = TIdent \<Longrightarrow> tk_Kind l = TLParen \<Longrightarrow> tk_Kind r = TRParen \<Longrightarrow>
    primary (Suc d) (Call (tk_Text f) []) [f, l, r]"
| call_some: "tk_Kind f = TIdent \<Longrightarrow> tk_Kind l = TLParen \<Longrightarrow> arguments (expression (unary d)) ns ts \<Longrightarrow> tk_Kind r = TRParen \<Longrightarrow>
    primary (Suc d) (Call (tk_Text f) ns) (f # l # ts @ [r])"

inductive_cases unary_zeroE [elim!]: "unary 0 n ts"

subsection \<open>What the parser accepts is in the grammar\<close>

text \<open>Token lists with one end, the last token.\<close>

definition ended :: "Token list \<Rightarrow> bool" where
  "ended ts \<longleftrightarrow> ts \<noteq> [] \<and> tk_Kind (last ts) = TEOF \<and> (\<forall>t \<in> set (butlast ts). tk_Kind t \<noteq> TEOF)"

lemma ended_simps [simp]:
  "\<not> ended []" "ended [t] \<longleftrightarrow> tk_Kind t = TEOF" "ended (t # u # us) \<longleftrightarrow> tk_Kind t \<noteq> TEOF \<and> ended (u # us)"
  by (auto simp: ended_def)

lemma cur_Cons [simp]: "cur (t # ts) = t" by (simp add: cur_def)

lemma advance_ended:
  assumes "ended ts" "tk_Kind (cur ts) \<noteq> TEOF"
  shows "ts = cur ts # advance ts" "ended (advance ts)"
  using assms by (cases ts; cases "tl ts"; simp add: advance_def)+

definition sound :: "parser \<Rightarrow> phrase \<Rightarrow> bool" where
  "sound p G \<longleftrightarrow> (\<forall>ts n rest. ended ts \<longrightarrow> p ts = Inr (n, rest) \<longrightarrow> (\<exists>us. ts = us @ rest \<and> ended rest \<and> G n us))"

lemma soundE:
  assumes "sound p G" "ended ts" "p ts = Inr (n, rest)"
  obtains us where "ts = us @ rest" "ended rest" "G n us"
  using assms unfolding sound_def by blast

lemma op_loop_sound:
  assumes "sound p G" "ended ts" "op_loop ops p k left ts = Inr (n, rest)" "chain ops G left vs"
  shows "\<exists>us. ts = us @ rest \<and> ended rest \<and> chain ops G n (vs @ us)"
  using assms(2-)
proof (induction k arbitrary: left ts vs)
  case (Suc k)
  show ?case
  proof (cases "is_op ops (cur ts)")
    case True
    then have "tk_Kind (cur ts) \<noteq> TEOF" by (simp add: is_op_def)
    note adv = advance_ended [OF Suc.prems(1) this]
    from True Suc.prems(2) obtain r ts' where p: "p (advance ts) = Inr (r, ts')"
      "op_loop ops p k (Binary (tk_Text (cur ts)) left r) ts' = Inr (n, rest)" by (auto simp: bindE_Inr_iff)
    from soundE [OF assms(1) adv(2) p(1)] obtain ws where ws: "advance ts = ws @ ts'" "ended ts'" "G r ws" .
    from Suc.IH [OF ws(2) p(2) chain_more [OF Suc.prems(3) True ws(3)]] obtain us where
      "ts' = us @ rest" "ended rest" "chain ops G n ((vs @ cur ts # ws) @ us)" by blast
    with adv(1) ws(1) show ?thesis by (intro exI [of _ "cur ts # ws @ us"]) (metis append.assoc append_Cons)
  qed (use Suc.prems in auto)
qed auto

lemma chain_sound:
  assumes "sound p G"
  shows "sound (\<lambda>ts. bindE (p ts) (\<lambda>(left, rest). op_loop ops p (length rest) left rest)) (chain ops G)"
  unfolding sound_def
proof (intro allI impI)
  fix ts n rest assume ts: "ended ts" "bindE (p ts) (\<lambda>(left, rest). op_loop ops p (length rest) left rest) = Inr (n, rest)"
  then obtain l ts' where p: "p ts = Inr (l, ts')" "op_loop ops p (length ts') l ts' = Inr (n, rest)" by (auto simp: bindE_Inr_iff)
  from soundE [OF assms ts(1) p(1)] obtain us where us: "ts = us @ ts'" "ended ts'" "G l us" .
  from us(3) have "chain ops G l us" by (rule chain_one)
  from op_loop_sound [OF assms us(2) p(2) this] us(1)
  show "\<exists>us. ts = us @ rest \<and> ended rest \<and> chain ops G n us" by auto
qed

lemma parseAdditive_sound: "sound p U \<Longrightarrow> sound (parseAdditive p) (sum_of U)"
  using chain_sound [OF chain_sound] by (simp add: parseAdditive_def [abs_def] parseMultiplicative_def [abs_def])

lemma parseComparison_sound:
  assumes "sound p U"
  shows "sound (parseComparison p) (expression U)"
  unfolding sound_def
proof (intro allI impI)
  fix ts n rest assume ts: "ended ts" "parseComparison p ts = Inr (n, rest)"
  note add = parseAdditive_sound [OF assms]
  from ts(2) obtain l ts' where p: "parseAdditive p ts = Inr (l, ts')" by (auto simp: parseComparison_def bindE_Inr_iff)
  from soundE [OF add ts(1) p(1)] obtain us where us: "ts = us @ ts'" "ended ts'" "sum_of U l us" .
  show "\<exists>us. ts = us @ rest \<and> ended rest \<and> expression U n us"
  proof (cases "is_op compare_ops (cur ts')")
    case True
    then have "tk_Kind (cur ts') \<noteq> TEOF" by (simp add: is_op_def)
    note adv = advance_ended [OF us(2) this]
    from True ts(2) p obtain r where r: "parseAdditive p (advance ts') = Inr (r, rest)" "n = Binary (tk_Text (cur ts')) l r"
      by (auto simp: parseComparison_def bindE_Inr_iff is_op_def isCompare_def split: if_splits)
    from soundE [OF add adv(2) r(1)] obtain ws where ws: "advance ts' = ws @ rest" "ended rest" "sum_of U r ws" .
    with comparison [OF us(3) True ws(3)] us(1) adv(1) r(2) show ?thesis
      by (intro exI [of _ "us @ cur ts' # ws"]) (metis append.assoc append_Cons)
  next
    case False
    with ts(2) p us plain show ?thesis by (auto simp: parseComparison_def is_op_def isCompare_def)
  qed
qed

lemma arg_loop_sound:
  assumes "sound p E" "ended ts" "arg_loop p k args ts = Inr (ns, rest)" "args = [] \<and> vs = [] \<or> (\<exists>ws c. vs = ws @ [c] \<and> arguments E args ws \<and> tk_Kind c = TComma)"
  shows "\<exists>us. ts = us @ rest \<and> ended rest \<and> arguments E ns (vs @ us)"
  using assms(2-)
proof (induction k arbitrary: args ts vs)
  case (Suc k)
  from Suc.prems(2) obtain n ts' where p: "p ts = Inr (n, ts')" by (auto simp: bindE_Inr_iff)
  from soundE [OF assms(1) Suc.prems(1) p] obtain us where us: "ts = us @ ts'" "ended ts'" "E n us" .
  from Suc.prems(3) us(3) have args: "arguments E (args @ [n]) (vs @ us)" by (auto intro: arguments.intros)
  show ?case
  proof (cases "tk_Kind (cur ts') = TComma")
    case True
    then have "tk_Kind (cur ts') \<noteq> TEOF" by simp
    note adv = advance_ended [OF us(2) this]
    from Suc.IH [OF adv(2), of "args @ [n]" "(vs @ us) @ [cur ts']"] True Suc.prems(2) p args obtain ws where
      "advance ts' = ws @ rest" "ended rest" "arguments E ns (((vs @ us) @ [cur ts']) @ ws)" by auto
    with us(1) adv(1) show ?thesis by (intro exI [of _ "us @ cur ts' # ws"]) (metis append.assoc append_Cons append_Nil)
  next
    case False
    with Suc.prems(2) p us(1,2) args show ?thesis by auto
  qed
next
  case 0
  from 0(2) obtain n where p: "p ts = Inr (n, rest)" "ns = args @ [n]" by (auto simp: bindE_Inr_iff)
  from soundE [OF assms(1) 0(1) p(1)] obtain us where us: "ts = us @ rest" "ended rest" "E n us" .
  with 0(3) p(2) show ?case by (auto intro: arguments.intros)
qed

lemma parsePrimary_sound:
  assumes "\<And>p. nested = Some p \<Longrightarrow> \<exists>e. d = Suc e \<and> sound p (expression (unary e))"
  shows "sound (parsePrimary nested) (primary d)"
  unfolding sound_def
proof (intro allI impI)
  fix ts n rest assume ts: "ended ts" and res: "parsePrimary nested ts = Inr (n, rest)"
  let ?ok = "\<exists>us. ts = us @ rest \<and> ended rest \<and> primary d n us"
  from res have "tk_Kind (cur ts) \<noteq> TEOF" by (auto simp: parsePrimary_def Let_def)
  note adv = advance_ended [OF ts this]
  have single: ?ok if "rest = advance ts" "primary d n [cur ts]"
    using that adv by (intro exI [of _ "[cur ts]"]) simp
  show ?ok
  proof (cases "tk_Kind (cur ts)")
    case TNumber
    with res show ?thesis by (intro single) (auto simp: parsePrimary_def Let_def intro: number split: option.splits)
  next
    case TString
    with res show ?thesis by (intro single) (auto simp: parsePrimary_def Let_def intro: quoted)
  next
    case TLParen
    with res obtain p ts' where p: "nested = Some p" "p (advance ts) = Inr (n, ts')" "tk_Kind (cur ts') = TRParen" "rest = advance ts'"
      by (auto simp: parsePrimary_def Let_def bindE_Inr_iff split: option.splits if_splits)
    from assms [OF p(1)] obtain e where e: "d = Suc e" "sound p (expression (unary e))" by blast
    from soundE [OF e(2) adv(2) p(2)] obtain us where us: "advance ts = us @ ts'" "ended ts'" "expression (unary e) n us" .
    from advance_ended [OF us(2)] p(3,4) have "ts' = cur ts' # rest" "ended rest" by simp_all
    with parens [OF TLParen us(3) p(3)] adv(1) us(1) e(1) show ?thesis
      by (intro exI [of _ "cur ts # us @ [cur ts']"]) (metis append.assoc append_Cons append_Nil)
  next
    case TIdent
    show ?thesis
    proof (cases "tk_Kind (cur (advance ts)) = TLParen")
      case False
      with res TIdent show ?thesis by (intro single) (auto simp: parsePrimary_def Let_def intro: name)
    next
      case True
      let ?f = "cur ts" and ?l = "cur (advance ts)" and ?ts1 = "advance (advance ts)"
      from True have "tk_Kind ?l \<noteq> TEOF" by simp
      note adv' = advance_ended [OF adv(2) this]
      from res TIdent True obtain p args ts' where p: "nested = Some p"
        "(if tk_Kind (cur ?ts1) \<noteq> TRParen then arg_loop p (length ?ts1) [] ?ts1 else Inr ([], ?ts1)) = Inr (args, ts')"
        "tk_Kind (cur ts') = TRParen" "n = Call (tk_Text ?f) args" "rest = advance ts'"
        by (auto simp: parsePrimary_def parseCall_def Let_def bindE_Inr_iff split: option.splits if_splits)
      from assms [OF p(1)] obtain e where e: "d = Suc e" "sound p (expression (unary e))" by blast
      have "\<exists>us. ?ts1 = us @ ts' \<and> ended ts' \<and> (args = [] \<and> us = [] \<or> arguments (expression (unary e)) args us)"
      proof (cases "tk_Kind (cur ?ts1) = TRParen")
        case True
        with p(2) adv'(2) show ?thesis by simp
      next
        case False
        with p(2) have "arg_loop p (length ?ts1) [] ?ts1 = Inr (args, ts')" by simp
        from arg_loop_sound [OF e(2) adv'(2) this, of "[]"] show ?thesis by auto
      qed
      then obtain us where us: "?ts1 = us @ ts'" "ended ts'" "args = [] \<and> us = [] \<or> arguments (expression (unary e)) args us" by blast
      from us(3) have "primary d n (?f # ?l # us @ [cur ts'])"
        using call_none [OF TIdent True p(3)] call_some [OF TIdent True _ p(3)] e(1) p(4) by auto
      moreover from advance_ended [OF us(2)] p(3,5) have "ts' = cur ts' # rest" "ended rest" by simp_all
      ultimately show ?thesis using adv(1) adv'(1) us(1)
        by (intro exI [of _ "?f # ?l # us @ [cur ts']"]) (metis append.assoc append_Cons append_Nil)
    qed
  qed (use res in \<open>auto simp: parsePrimary_def Let_def\<close>)
qed

lemma parseUnary_sound: "sound (parseUnary d) (unary d)"
proof (induction d rule: less_induct)
  case (less d)
  show ?case
    unfolding sound_def
  proof (intro allI impI)
    fix ts n rest assume ts: "ended ts" and res: "parseUnary d ts = Inr (n, rest)"
    from res obtain d' where d: "d = Suc d'" by (cases d) auto
    show "\<exists>us. ts = us @ rest \<and> ended rest \<and> unary d n us"
    proof (cases "is_op add_ops (cur ts)")
      case True
      then have "tk_Kind (cur ts) \<noteq> TEOF" by (simp add: is_op_def)
      note adv = advance_ended [OF ts this]
      from True res d obtain x where x: "parseUnary d' (advance ts) = Inr (x, rest)" "n = Unary (tk_Text (cur ts)) x"
        by (auto simp: bindE_Inr_iff)
      from soundE [OF less [of d'] adv(2) x(1)] d obtain us where "advance ts = us @ rest" "ended rest" "unary d' x us" by blast
      with sign [OF True, of d' x us] adv(1) x(2) d show ?thesis by (intro exI [of _ "cur ts # us"]) simp
    next
      case False
      let ?nested = "case d' of 0 \<Rightarrow> None | Suc e \<Rightarrow> Some (parseComparison (\<lambda>us. parseUnary e us))"
      have "sound (parsePrimary ?nested) (primary d')"
        using parseComparison_sound [OF less] d by (intro parsePrimary_sound) (auto split: nat.splits)
      from soundE [OF this ts, of n rest] res False d show ?thesis by (auto intro: no_sign)
    qed
  qed
qed

subsection \<open>What is in the grammar the parser accepts\<close>

text \<open>\<open>F\<close> says which tokens may follow the phrase for the parser to stop there.\<close>

definition complete :: "parser \<Rightarrow> phrase \<Rightarrow> (Token \<Rightarrow> bool) \<Rightarrow> bool" where
  "complete p G F \<longleftrightarrow> (\<forall>n us rest. G n us \<longrightarrow> rest \<noteq> [] \<longrightarrow> F (cur rest) \<longrightarrow> p (us @ rest) = Inr (n, rest))"

lemma completeD: "complete p G F \<Longrightarrow> G n us \<Longrightarrow> rest \<noteq> [] \<Longrightarrow> F (cur rest) \<Longrightarrow> p (us @ rest) = Inr (n, rest)"
  unfolding complete_def by blast

lemma advance_Cons [simp]: "ts \<noteq> [] \<Longrightarrow> advance (t # ts) = ts"
  by (simp add: advance_def)

lemma op_loop_stop: "\<not> is_op ops (cur ts) \<Longrightarrow> op_loop ops p k n ts = Inr (n, ts)"
  by (cases k) simp_all

lemma chain_reaches:
  assumes "complete p G F" "\<And>t. is_op ops t \<Longrightarrow> F t" "chain ops G n us" "rest \<noteq> []" "F (cur rest)"
  shows "\<exists>k \<ge> length rest. bindE (p (us @ rest)) (\<lambda>(left, rest). op_loop ops p (length rest) left rest) = op_loop ops p k n rest"
  using assms(3-)
proof (induction arbitrary: rest)
  case (chain_one n ts)
  with completeD [OF assms(1)] show ?case by auto
next
  case (chain_more l ts t r us)
  have "F (cur (t # us @ rest))" using chain_more.hyps(2) assms(2) by simp
  from chain_more.IH [OF _ this] obtain k where k: "k \<ge> length (t # us @ rest)"
    "bindE (p (ts @ t # us @ rest)) (\<lambda>(left, rest). op_loop ops p (length rest) left rest) = op_loop ops p k l (t # us @ rest)" by blast
  from k(1) obtain k' where k': "k = Suc k'" "k' \<ge> length rest" by (cases k) auto
  have "p (us @ rest) = Inr (r, rest)" using completeD [OF assms(1) chain_more.hyps(3)] chain_more.prems by simp
  with k k' chain_more.hyps(2) chain_more.prems(1) show ?case by (intro exI [of _ k']) simp
qed

lemma chain_complete:
  assumes "complete p G F" "\<And>t. is_op ops t \<Longrightarrow> F t"
  shows "complete (\<lambda>ts. bindE (p ts) (\<lambda>(left, rest). op_loop ops p (length rest) left rest)) (chain ops G)
    (\<lambda>t. F t \<and> \<not> is_op ops t)"
  unfolding complete_def
proof (intro allI impI)
  fix n us rest assume *: "chain ops G n us" "rest \<noteq> []" "F (cur rest) \<and> \<not> is_op ops (cur rest)"
  with chain_reaches [OF assms *(1,2)] op_loop_stop
  show "bindE (p (us @ rest)) (\<lambda>(left, rest). op_loop ops p (length rest) left rest) = Inr (n, rest)" by fastforce
qed

definition after_unary :: "Token \<Rightarrow> bool" where "after_unary t \<longleftrightarrow> tk_Kind t \<noteq> TLParen"

definition after_sum :: "Token \<Rightarrow> bool" where
  "after_sum t \<longleftrightarrow> (after_unary t \<and> \<not> is_op mul_ops t) \<and> \<not> is_op add_ops t"

definition after_expression :: "Token \<Rightarrow> bool" where
  "after_expression t \<longleftrightarrow> after_sum t \<and> \<not> is_op compare_ops t"

lemma op_follows: "is_op ops t \<Longrightarrow> after_unary t" "is_op add_ops t \<Longrightarrow> \<not> is_op mul_ops t" "is_op compare_ops t \<Longrightarrow> after_sum t"
  by (auto simp: is_op_def after_unary_def after_sum_def)

lemma parseAdditive_complete:
  assumes "complete p U after_unary"
  shows "complete (parseAdditive p) (sum_of U) after_sum"
proof -
  have "complete (parseMultiplicative p) (product U) (\<lambda>t. after_unary t \<and> \<not> is_op mul_ops t)"
    using chain_complete [OF assms] op_follows(1) unfolding parseMultiplicative_def [abs_def] by blast
  from chain_complete [OF this, of add_ops] op_follows(1,2) show ?thesis
    unfolding parseAdditive_def [abs_def] after_sum_def [abs_def] by blast
qed

lemma parseComparison_complete:
  assumes "complete p U after_unary"
  shows "complete (parseComparison p) (expression U) after_expression"
  unfolding complete_def
proof (intro allI impI)
  note add = completeD [OF parseAdditive_complete [OF assms]]
  fix n us rest assume "expression U n us" and rest: "rest \<noteq> []" "after_expression (cur rest)"
  then have stop: "after_sum (cur rest)" "\<not> (tk_Kind (cur rest) = TOp \<and> isCompare (tk_Text (cur rest)))"
    by (auto simp: after_expression_def is_op_def isCompare_def)
  from \<open>expression U n us\<close> show "parseComparison p (us @ rest) = Inr (n, rest)"
  proof cases
    case plain
    with add [OF plain rest(1) stop(1)] stop(2) show ?thesis by (auto simp: parseComparison_def)
  next
    case (comparison l ts t r ws)
    from add [OF comparison(3), of "t # ws @ rest"] op_follows(3) [OF comparison(4)]
    have "parseAdditive p (ts @ t # ws @ rest) = Inr (l, t # ws @ rest)" by simp
    with add [OF comparison(5) rest(1) stop(1)] comparison(1,2,4) stop(2) rest(1) show ?thesis
      by (simp add: parseComparison_def is_op_def isCompare_def)
  qed
qed

text \<open>Phrases are not empty, and none begins with a closing parenthesis.\<close>

definition begins :: "Token list \<Rightarrow> bool" where "begins us \<longleftrightarrow> us \<noteq> [] \<and> tk_Kind (hd us) \<noteq> TRParen"

lemma primary_begins: "primary d n us \<Longrightarrow> begins us \<and> tk_Kind (hd us) \<noteq> TOp"
  by (auto elim!: primary.cases simp: begins_def)

lemma unary_begins: "unary d n us \<Longrightarrow> begins us"
  by (erule unary.cases) (simp add: begins_def is_op_def, simp add: primary_begins)

lemma chain_begins: "chain ops G n us \<Longrightarrow> (\<And>n us. G n us \<Longrightarrow> begins us) \<Longrightarrow> begins us"
  by (induction rule: chain.induct) (auto simp: begins_def)

lemma expression_begins: "expression (unary d) n us \<Longrightarrow> begins us"
proof -
  have s: "begins ts" if "sum_of (unary d) m ts" for m ts
    using that by (rule chain_begins) (erule chain_begins, rule unary_begins)
  assume "expression (unary d) n us"
  then show "begins us"
  proof cases
    case (comparison l ts t r ws)
    with s [OF comparison(3)] show ?thesis by (simp add: begins_def)
  qed (rule s)
qed

lemma arguments_begins: "arguments E ns us \<Longrightarrow> (\<And>n us. E n us \<Longrightarrow> begins us) \<Longrightarrow> begins us"
  by (induction rule: arguments.induct) (auto simp: begins_def)

lemma arg_loop_reaches:
  assumes "complete p E after_expression" "\<And>n us. E n us \<Longrightarrow> begins us" "arguments E ns us" "rest \<noteq> []" "after_expression (cur rest)"
  shows "\<exists>k \<ge> length rest. arg_loop p (length (us @ rest)) [] (us @ rest) =
    (if tk_Kind (cur rest) = TComma then arg_loop p k ns (advance rest) else Inr (ns, rest))"
  using assms(3-)
proof (induction arbitrary: rest)
  case (one_arg n ts)
  from assms(2) [OF one_arg.hyps] obtain t ts' where ts: "ts = t # ts'" by (cases ts) (auto simp: begins_def)
  from completeD [OF assms(1) one_arg.hyps one_arg.prems] ts show ?case by (intro exI [of _ "length (ts' @ rest)"]) auto
next
  case (more_args ns ts c n us)
  have "after_expression (cur (c # us @ rest))"
    using more_args.hyps(2) by (simp add: after_expression_def after_sum_def after_unary_def is_op_def)
  from more_args.IH [OF _ this] more_args.hyps(2) more_args.prems(1) obtain k where k: "k \<ge> length (c # us @ rest)"
    "arg_loop p (length (ts @ c # us @ rest)) [] (ts @ c # us @ rest) = arg_loop p k ns (us @ rest)" by auto
  from k(1) obtain k' where k': "k = Suc k'" "k' \<ge> length rest" by (cases k) auto
  have "p (us @ rest) = Inr (n, rest)" using completeD [OF assms(1) more_args.hyps(3) more_args.prems] .
  with k k' show ?case by (intro exI [of _ k']) simp
qed

lemma closing_follows: "tk_Kind t \<in> {TRParen, TComma, TEOF} \<Longrightarrow> after_expression t"
  by (auto simp: after_expression_def after_sum_def after_unary_def is_op_def)

lemma parseCall_complete:
  assumes "complete p (expression (unary e)) after_expression" "rest \<noteq> []" "tk_Kind r = TRParen"
    "ns = [] \<and> us = [] \<or> arguments (expression (unary e)) ns us"
  shows "parseCall (Some p) f (l # us @ r # rest) = Inr (Call f ns, rest)"
  using assms(4)
proof
  assume args: "arguments (expression (unary e)) ns us"
  have "after_expression (cur (r # rest))" using assms(3) closing_follows by simp
  from arg_loop_reaches [OF assms(1) expression_begins args _ this] assms(3)
  have "arg_loop p (length (us @ r # rest)) [] (us @ r # rest) = Inr (ns, r # rest)" by auto
  moreover have "tk_Kind (cur (us @ r # rest)) \<noteq> TRParen"
    using arguments_begins [OF args expression_begins] by (cases us) (auto simp: begins_def)
  ultimately show ?thesis using assms(2,3) by (simp add: parseCall_def Let_def)
qed (use assms(2,3) in \<open>simp add: parseCall_def Let_def\<close>)

lemma parsePrimary_complete:
  assumes "\<And>e. d = Suc e \<Longrightarrow> \<exists>p. nested = Some p \<and> complete p (expression (unary e)) after_expression"
  shows "complete (parsePrimary nested) (primary d) after_unary"
  unfolding complete_def
proof (intro allI impI)
  fix n us rest assume "primary d n us" and rest: "rest \<noteq> []" "after_unary (cur rest)"
  note defs = parsePrimary_def Let_def
  from \<open>primary d n us\<close> show "parsePrimary nested (us @ rest) = Inr (n, rest)"
  proof cases
    case (name t)
    with rest show ?thesis by (simp add: defs after_unary_def)
  next
    case (parens l e ts r)
    from assms [OF parens(1)] obtain p where p: "nested = Some p" "complete p (expression (unary e)) after_expression" by blast
    from completeD [OF p(2) parens(4), of "r # rest"] closing_follows parens(5)
    have "p (ts @ r # rest) = Inr (n, r # rest)" by simp
    with p(1) parens rest(1) show ?thesis by (simp add: defs)
  next
    case (call_none f l r e)
    from assms [OF call_none(1)] obtain p where p: "nested = Some p" "complete p (expression (unary e)) after_expression" by blast
    from parseCall_complete [OF p(2) rest(1) call_none(6), of "[]" "[]" "tk_Text f" l] p(1) call_none show ?thesis
      by (simp add: defs)
  next
    case (call_some f l e ns ts r)
    from assms [OF call_some(1)] obtain p where p: "nested = Some p" "complete p (expression (unary e)) after_expression" by blast
    from parseCall_complete [OF p(2) rest(1) call_some(7), of ns ts "tk_Text f" l] p(1) call_some show ?thesis
      by (simp add: defs)
  qed (use rest in \<open>simp_all add: defs\<close>)
qed

lemma parseUnary_complete: "complete (parseUnary d) (unary d) after_unary"
proof (induction d rule: less_induct)
  case (less d)
  show ?case
    unfolding complete_def
  proof (intro allI impI)
    fix n us rest assume "unary d n us" and rest: "rest \<noteq> []" "after_unary (cur rest)"
    from \<open>unary d n us\<close> show "parseUnary d (us @ rest) = Inr (n, rest)"
    proof cases
      case (sign t d' x ts)
      with completeD [OF less [of d'] sign(5) rest] rest(1) show ?thesis by simp
    next
      case (no_sign d')
      let ?nested = "case d' of 0 \<Rightarrow> None | Suc e \<Rightarrow> Some (parseComparison (\<lambda>us. parseUnary e us))"
      have "complete (parsePrimary ?nested) (primary d') after_unary"
        using parseComparison_complete [OF less] no_sign(1) by (intro parsePrimary_complete) auto
      from completeD [OF this no_sign(2) rest] primary_begins [OF no_sign(2)] no_sign(1) show ?thesis
        by (cases us) (auto simp: begins_def is_op_def)
    qed
  qed
qed

subsection \<open>The language of formulas\<close>

lemma lex_ended: "lex i s = Inr ts \<Longrightarrow> ended ts"
proof (induction i s arbitrary: ts rule: lex.induct)
  case (1 i s)
  show ?case
  proof (cases "s = []")
    case False
    with "1.prems" obtain t rest us where t: "next_token i s = Inr (t, rest)" "lex (i + (length s - length rest)) rest = Inr us"
      "ts = (case t of None \<Rightarrow> us | Some t \<Rightarrow> t # us)"
      by (subst (asm) lex.simps) (auto simp: bindE_Inr_iff split: sum.splits)
    from "1.IH" [OF False t(1) refl t(2)] have "ended us" .
    with t(1,3) next_token_kind show ?thesis by (cases us) (auto split: option.splits)
  qed (use "1.prems" in \<open>auto simp: lex.simps\<close>)
qed

text \<open>C15: The parser accepts exactly the token lists that the grammar derives within the nesting bound,
  and returns the tree of the derivation: operators group to the left by precedence, a comparison
  does not chain, and nothing is left over. Hence every formula has one tree.\<close>
theorem Parse_is_the_grammar:
  "Parse input = Inr n \<longleftrightarrow>
   (\<exists>toks e. Tokenize input = Inr (toks @ [e]) \<and> expression (unary maxDepth) n toks)"
proof
  assume "Parse input = Inr n"
  then obtain ts rest where ts: "Tokenize input = Inr ts" "parseExpr maxDepth ts = Inr (n, rest)" "tk_Kind (cur rest) = TEOF"
    by (auto simp: Parse_def bindE_Inr_iff split: if_splits)
  then have "ended ts" using lex_ended by (auto simp: Tokenize_def split: if_splits)
  from soundE [OF parseComparison_sound [OF parseUnary_sound] this ts(2) [unfolded parseExpr_def]] obtain us where
    us: "ts = us @ rest" "ended rest" "expression (unary maxDepth) n us" .
  from us(2) ts(3) have "rest = [cur rest]" by (cases rest; cases "tl rest") auto
  with ts(1) us(1,3) show "\<exists>toks e. Tokenize input = Inr (toks @ [e]) \<and> expression (unary maxDepth) n toks" by metis
next
  assume "\<exists>toks e. Tokenize input = Inr (toks @ [e]) \<and> expression (unary maxDepth) n toks"
  then obtain toks e where ts: "Tokenize input = Inr (toks @ [e])" "expression (unary maxDepth) n toks" by blast
  then have "ended (toks @ [e])" using lex_ended by (auto simp: Tokenize_def split: if_splits)
  then have e: "tk_Kind e = TEOF" by (simp add: ended_def)
  with completeD [OF parseComparison_complete [OF parseUnary_complete] ts(2), of "[e]"] closing_follows
  have "parseExpr maxDepth (toks @ [e]) = Inr (n, [e])" by (simp add: parseExpr_def)
  with ts(1) e show "Parse input = Inr n" by (simp add: Parse_def)
qed

text \<open>No sentence has two trees.\<close>

lemma grammar_unambiguous:
  assumes "expression (unary d) m us" "expression (unary d) n us"
  shows "m = n"
proof -
  let ?e = "\<lparr>tk_Kind = TEOF, tk_Text = [], tk_Pos = 0\<rparr>"
  have "after_expression (cur [?e])" by (simp add: closing_follows)
  from completeD [OF parseComparison_complete [OF parseUnary_complete] assms(1) _ this]
    completeD [OF parseComparison_complete [OF parseUnary_complete] assms(2) _ this]
  show ?thesis by simp
qed

subsection \<open>References\<close>

fun idents :: "Node \<Rightarrow> string list" and idents_of :: "Node list \<Rightarrow> string list" where
  "idents (Ident x) = [x]"
| "idents (Unary f x) = idents x"
| "idents (Binary f l r) = idents l @ idents r"
| "idents (Call f args) = idents_of args"
| "idents n = []"
| "idents_of [] = []"
| "idents_of (n # ns) = idents n @ idents_of ns"

definition collectRefs :: "Node \<Rightarrow> string list" where
  "collectRefs n = sorted_list_of_set (set (idents n))"

definition References :: "string \<Rightarrow> formula_error + string list" where
  "References input = bindE (Parse input) (\<lambda>n. Inr (collectRefs n))"

lemma set_collectRefs [simp]: "set (collectRefs n) = set (idents n)"
  by (simp add: collectRefs_def)

lemma idents_of_set: "set (idents_of ns) = (\<Union>n \<in> set ns. set (idents n))"
  by (induction ns) auto

end
