(* ===== verification/FormulaEval.thy ===== *)
theory FormulaEval
  imports FormulaParser
begin

text \<open>
  Evaluation of formulas, \<open>internal/formula/eval.go\<close> and \<open>compile.go\<close>: values, the lazy and the eager
  functions, the guard on results, the cache of trees and validation. Numbers are binary64 with one
  zero, so the sign of a zero result is not told; the case folding of \<open>lower\<close> and \<open>contains\<close> is that
  of ASCII. Shows that a well-typed formula can fail only by a zero divisor or a result that is not
  finite, that evaluation reads exactly the references of the formula, that a formula which validates
  never meets an unknown name, and that the cache is not observable and bounded.
\<close>

subsection \<open>Float operations\<close>

fun f_uminus :: "f64 \<Rightarrow> f64" where
  "f_uminus NaN = NaN" | "f_uminus (Inf s) = Inf (\<not> s)" | "f_uminus (Fin x) = Fin (- x)"

fun f_add :: "f64 \<Rightarrow> f64 \<Rightarrow> f64" where
  "f_add (Fin x) (Fin y) = round_f64 (x + y)"
| "f_add NaN b = NaN"
| "f_add a NaN = NaN"
| "f_add (Inf s) (Inf t) = (if s = t then Inf s else NaN)"
| "f_add (Inf s) (Fin y) = Inf s"
| "f_add (Fin x) (Inf t) = Inf t"

definition f_sub :: "f64 \<Rightarrow> f64 \<Rightarrow> f64" where "f_sub a b = f_add a (f_uminus b)"

definition truncate_rat :: "rat \<Rightarrow> int" where "truncate_rat q = (if q < 0 then \<lceil>q\<rceil> else \<lfloor>q\<rfloor>)"

text \<open>\<open>math.Mod\<close>, whose finite results are exact.\<close>

fun f_mod :: "f64 \<Rightarrow> f64 \<Rightarrow> f64" where
  "f_mod (Fin x) (Fin y) = (if y = 0 then NaN else Fin (x - y * of_int (truncate_rat (x / y))))"
| "f_mod (Fin x) (Inf t) = Fin x"
| "f_mod a b = NaN"

definition f_eq :: "f64 \<Rightarrow> f64 \<Rightarrow> bool" where "f_eq a b \<longleftrightarrow> a \<noteq> NaN \<and> a = b"

fun f_floor :: "f64 \<Rightarrow> f64" where
  "f_floor (Fin x) = Fin (of_int \<lfloor>x\<rfloor>)" | "f_floor a = a"

fun f_ceil :: "f64 \<Rightarrow> f64" where
  "f_ceil (Fin x) = Fin (of_int \<lceil>x\<rceil>)" | "f_ceil a = a"

definition f_max :: "f64 \<Rightarrow> f64 \<Rightarrow> f64" where
  "f_max a b = (if a = Inf False \<or> b = Inf False then Inf False else if a = NaN \<or> b = NaN then NaN
     else if f_leq a b then b else a)"

definition f_min :: "f64 \<Rightarrow> f64 \<Rightarrow> f64" where
  "f_min a b = (if a = Inf True \<or> b = Inf True then Inf True else if a = NaN \<or> b = NaN then NaN
     else if f_leq a b then a else b)"

fun is_finite :: "f64 \<Rightarrow> bool" where
  "is_finite (Fin x) = True" | "is_finite a = False"

subsection \<open>Values\<close>

datatype Value = Num f64 | Str string | Truth bool

record Env =
  ev_Vars :: "(string, f64) go_map"
  ev_Strs :: "(string, string) go_map"

datatype eval_error =
  UnknownVariable string
| ExpectedNumber
| CannotCompare
| DivisionByZero
| ModuloByZero
| UnknownOperator
| BadArity
| ExpectsNumbers
| ExpectsStrings
| UnknownFunction string
| NotFinite
| ParseError formula_error

fun asNumber :: "Value \<Rightarrow> eval_error + f64" where
  "asNumber (Num x) = Inr x"
| "asNumber (Truth b) = Inr (Fin (if b then 1 else 0))"
| "asNumber (Str s) = Inl ExpectedNumber"

fun truthy :: "Value \<Rightarrow> bool" where
  "truthy (Truth b) = b"
| "truthy (Num x) = (x \<noteq> Fin 0)"
| "truthy (Str s) = (s \<noteq> [])"

definition nearlyEqual :: "f64 \<Rightarrow> f64 \<Rightarrow> bool" where
  "nearlyEqual a b \<longleftrightarrow> f_eq a b \<or>
     (let scale = f_max (Fin 1) (f_max (f_abs a) (f_abs b))
      in f_leq (f_abs (f_sub a b)) (f_mul (round_f64 (1 / 1000000000)) scale))"

subsection \<open>Operators and functions\<close>

definition equality :: "string \<Rightarrow> Value \<Rightarrow> Value \<Rightarrow> eval_error + Value" where
  "equality f l r = (case (l, r) of
       (Str a, Str b) \<Rightarrow> Inr (Truth (if f = ''=='' then a = b else a \<noteq> b))
     | _ \<Rightarrow> (case (asNumber l, asNumber r) of
         (Inr a, Inr b) \<Rightarrow> Inr (Truth (if f = ''=='' then nearlyEqual a b else \<not> nearlyEqual a b))
       | _ \<Rightarrow> Inl CannotCompare))"

definition arithmetic :: "string \<Rightarrow> f64 \<Rightarrow> f64 \<Rightarrow> eval_error + Value" where
  "arithmetic f l r =
     (if f = ''+'' then Inr (Num (f_add l r))
      else if f = ''-'' then Inr (Num (f_sub l r))
      else if f = ''*'' then Inr (Num (f_mul l r))
      else if f = ''/'' then (if r = Fin 0 then Inl DivisionByZero else Inr (Num (f_div l r)))
      else if f = ''%'' then (if r = Fin 0 then Inl ModuloByZero else Inr (Num (f_mod l r)))
      else if f = ''<'' then Inr (Truth (f_less l r))
      else if f = ''<='' then Inr (Truth (f_leq l r))
      else if f = ''>'' then Inr (Truth (f_less r l))
      else if f = ''>='' then Inr (Truth (f_leq r l))
      else Inl UnknownOperator)"

fun numbers :: "Value list \<Rightarrow> eval_error + f64 list" where
  "numbers [] = Inr []"
| "numbers (v # vs) = (case asNumber v of Inl e \<Rightarrow> Inl ExpectsNumbers
     | Inr x \<Rightarrow> bindE (numbers vs) (\<lambda>xs. Inr (x # xs)))"

definition total_of :: "f64 list \<Rightarrow> f64" where "total_of xs = foldl f_add (Fin 0) xs"

definition best_of :: "(f64 \<Rightarrow> f64 \<Rightarrow> bool) \<Rightarrow> f64 list \<Rightarrow> f64" where
  "best_of better xs = foldl (\<lambda>best x. if better x best then x else best) (hd xs) (tl xs)"

definition clamp :: "f64 \<Rightarrow> f64 \<Rightarrow> f64 \<Rightarrow> f64" where
  "clamp v lo hi = (let (lo, hi) = (if f_less hi lo then (hi, lo) else (lo, hi)) in f_max lo (f_min hi v))"

definition safediv :: "f64 \<Rightarrow> f64 \<Rightarrow> f64 \<Rightarrow> f64" where
  "safediv a b fallback =
     (if b = Fin 0 \<or> b = NaN then fallback
      else let q = f_div a b in if is_finite q then q else fallback)"

fun contains_text :: "string \<Rightarrow> string \<Rightarrow> bool" where
  "contains_text [] needle = (needle = [])"
| "contains_text (c # s) needle = (take (length needle) (c # s) = needle \<or> contains_text s needle)"

text \<open>A function of one argument that takes a number.\<close>

definition unary_math :: "(f64 \<Rightarrow> f64) \<Rightarrow> Value list \<Rightarrow> eval_error + Value" where
  "unary_math g args = (case args of [a] \<Rightarrow> bindE (asNumber a) (\<lambda>x. Inr (Num (g x))) | _ \<Rightarrow> Inl BadArity)"

text \<open>A function of three numbers.\<close>

definition ternary_math :: "(f64 \<Rightarrow> f64 \<Rightarrow> f64 \<Rightarrow> f64) \<Rightarrow> Value list \<Rightarrow> eval_error + Value" where
  "ternary_math g args = (case args of
       [a, b, c] \<Rightarrow> bindE (asNumber a) (\<lambda>x. bindE (asNumber b) (\<lambda>y. bindE (asNumber c) (\<lambda>z. Inr (Num (g x y z)))))
     | _ \<Rightarrow> Inl BadArity)"

definition eager_call :: "string \<Rightarrow> Value list \<Rightarrow> eval_error + Value" where
  "eager_call f args =
     (if f = ''sum'' then bindE (numbers args) (\<lambda>xs. Inr (Num (total_of xs)))
      else if f = ''avg'' then
        (if args = [] then Inl BadArity
         else bindE (numbers args) (\<lambda>xs. Inr (Num (f_div (total_of xs) (f_of_int (int (length xs)))))))
      else if f = ''min'' \<or> f = ''max'' then
        (if args = [] then Inl BadArity
         else bindE (numbers args) (\<lambda>xs. Inr (Num (best_of (if f = ''min'' then f_less else (\<lambda>x y. f_less y x)) xs))))
      else if f = ''count'' then Inr (Num (f_of_int (int (length args))))
      else if f = ''abs'' then unary_math f_abs args
      else if f = ''round'' then unary_math f_round args
      else if f = ''floor'' then unary_math f_floor args
      else if f = ''ceil'' then unary_math f_ceil args
      else if f = ''clamp'' then ternary_math clamp args
      else if f = ''safediv'' then ternary_math safediv args
      else if f = ''not'' then (case args of [a] \<Rightarrow> Inr (Truth (\<not> truthy a)) | _ \<Rightarrow> Inl BadArity)
      else if f = ''contains'' then (case args of
          [Str hay, Str needle] \<Rightarrow> Inr (Truth (contains_text (to_lower hay) (to_lower needle)))
        | [a, b] \<Rightarrow> Inl ExpectsStrings | _ \<Rightarrow> Inl BadArity)
      else if f = ''lower'' then (case args of [Str s] \<Rightarrow> Inr (Str (to_lower s)) | [a] \<Rightarrow> Inl ExpectsStrings | _ \<Rightarrow> Inl BadArity)
      else Inl (UnknownFunction f))"

subsection \<open>Evaluation\<close>

definition lookup_var :: "Env \<Rightarrow> string \<Rightarrow> eval_error + Value" where
  "lookup_var env x = (case map_of (ev_Vars env) x of Some v \<Rightarrow> Inr (Num v)
     | None \<Rightarrow> (case map_of (ev_Strs env) x of Some s \<Rightarrow> Inr (Str s) | None \<Rightarrow> Inl (UnknownVariable x)))"

fun eval :: "Node \<Rightarrow> Env \<Rightarrow> eval_error + Value"
  and eval_args :: "Node list \<Rightarrow> Env \<Rightarrow> eval_error + Value list"
  and eval_and :: "Node list \<Rightarrow> Env \<Rightarrow> eval_error + Value"
  and eval_or :: "Node list \<Rightarrow> Env \<Rightarrow> eval_error + Value"
where
  "eval (NumberLit v) env = Inr (Num v)"
| "eval (StringLit s) env = Inr (Str s)"
| "eval (Ident x) env = lookup_var env x"
| "eval (Unary f x) env =
     bindE (bindE (eval x env) asNumber) (\<lambda>v. Inr (Num (if f = ''-'' then f_uminus v else v)))"
| "eval (Binary f l r) env =
     (if f = ''=='' \<or> f = ''!='' then bindE (eval l env) (\<lambda>a. bindE (eval r env) (\<lambda>b. equality f a b))
      else bindE (bindE (eval l env) asNumber) (\<lambda>a. bindE (bindE (eval r env) asNumber) (\<lambda>b. arithmetic f a b)))"
| "eval (Call f args) env =
     (if f = ''if'' then
        (case args of [c, a, b] \<Rightarrow> bindE (eval c env) (\<lambda>v. if truthy v then eval a env else eval b env)
         | _ \<Rightarrow> Inl BadArity)
      else if f = ''and'' then (if length args < 2 then Inl BadArity else eval_and args env)
      else if f = ''or'' then (if length args < 2 then Inl BadArity else eval_or args env)
      else bindE (eval_args args env) (eager_call f))"
| "eval_args [] env = Inr []"
| "eval_args (n # ns) env = bindE (eval n env) (\<lambda>v. bindE (eval_args ns env) (\<lambda>vs. Inr (v # vs)))"
| "eval_and [] env = Inr (Truth True)"
| "eval_and (n # ns) env = bindE (eval n env) (\<lambda>v. if truthy v then eval_and ns env else Inr (Truth False))"
| "eval_or [] env = Inr (Truth False)"
| "eval_or (n # ns) env = bindE (eval n env) (\<lambda>v. if truthy v then Inr (Truth True) else eval_or ns env)"

definition finishEval :: "Node \<Rightarrow> Env \<Rightarrow> eval_error + Value" where
  "finishEval ast env = bindE (eval ast env) (\<lambda>v. case v of
       Num x \<Rightarrow> if is_finite x then Inr v else Inl NotFinite
     | _ \<Rightarrow> Inr v)"

fun parsed :: "formula_error + Node \<Rightarrow> eval_error + Node" where
  "parsed (Inl e) = Inl (ParseError e)" | "parsed (Inr n) = Inr n"

definition Validate :: "string \<Rightarrow> (string \<Rightarrow> bool) option \<Rightarrow> eval_error + unit" where
  "Validate expr known = bindE (parsed (Parse expr)) (\<lambda>ast. case known of None \<Rightarrow> Inr ()
     | Some k \<Rightarrow> (case [x \<leftarrow> collectRefs ast. \<not> k x] of [] \<Rightarrow> Inr () | x # _ \<Rightarrow> Inl (UnknownVariable x)))"

subsection \<open>The cache of trees\<close>

definition astCacheMax :: nat where "astCacheMax = 512"

definition parseCached :: "string \<Rightarrow> (string, Node) go_map \<Rightarrow> (formula_error + Node) \<times> (string, Node) go_map" where
  "parseCached input m = (case map_of m input of Some n \<Rightarrow> (Inr n, m)
     | None \<Rightarrow> (case Parse input of Inl e \<Rightarrow> (Inl e, m)
       | Inr n \<Rightarrow> (Inr n, map_put input n (if length m \<ge> astCacheMax then [] else m))))"

definition Eval :: "string \<Rightarrow> Env \<Rightarrow> (string, Node) go_map \<Rightarrow> (eval_error + Value) \<times> (string, Node) go_map" where
  "Eval input env m = (let (r, m') = parseCached input m in (bindE (parsed r) (\<lambda>ast. finishEval ast env), m'))"

text \<open>A program is its source and the tree compiled from it.\<close>

record Program =
  pg_src :: string
  pg_ast :: Node

definition Compile :: "string \<Rightarrow> formula_error + Program" where
  "Compile input = bindE (Parse input) (\<lambda>ast. Inr \<lparr>pg_src = input, pg_ast = ast\<rparr>)"

definition Program_Eval :: "Program \<Rightarrow> Env \<Rightarrow> eval_error + Value" where
  "Program_Eval p env = finishEval (pg_ast p) env"

definition Program_References :: "Program \<Rightarrow> string list" where
  "Program_References p = collectRefs (pg_ast p)"

definition functionNames :: "string list" where
  "functionNames = [''sum'', ''avg'', ''min'', ''max'', ''count'', ''abs'', ''round'', ''floor'', ''ceil'', ''clamp'',
     ''safediv'', ''if'', ''and'', ''or'', ''not'', ''contains'', ''lower'']"

subsection \<open>Which names an evaluation reads\<close>

lemma eval_cong:
  "(\<And>x. x \<in> set (idents n) \<Longrightarrow> lookup_var env x = lookup_var env' x) \<Longrightarrow> eval n env = eval n env'"
  "(\<And>x. x \<in> set (idents_of ns) \<Longrightarrow> lookup_var env x = lookup_var env' x) \<Longrightarrow> eval_args ns env = eval_args ns env'"
  "(\<And>x. x \<in> set (idents_of ns) \<Longrightarrow> lookup_var env x = lookup_var env' x) \<Longrightarrow> eval_and ns env = eval_and ns env'"
  "(\<And>x. x \<in> set (idents_of ns) \<Longrightarrow> lookup_var env x = lookup_var env' x) \<Longrightarrow> eval_or ns env = eval_or ns env'"
proof (induction n env and ns env and ns env and ns env rule: eval_eval_args_eval_and_eval_or.induct)
  case (6 f args env)
  then show ?case by (auto simp: idents_of_set split: list.splits if_splits intro!: bindE_cong)
qed (auto intro!: bindE_cong)

abbreviation unknown :: "string \<Rightarrow> eval_error + 'a" where "unknown x \<equiv> Inl (UnknownVariable x)"

lemma asNumber_no_unknown [simp]: "asNumber v \<noteq> unknown x"
  by (cases v) simp_all

lemma operators_no_unknown [simp]: "equality f a b \<noteq> unknown x" "arithmetic f u w \<noteq> unknown x"
  by (simp_all add: equality_def arithmetic_def split: Value.split sum.split)

lemma numbers_no_unknown [simp]: "numbers vs \<noteq> unknown x"
  by (induction vs) (auto simp: bindE_Inl_iff split: sum.splits)

lemma eager_no_unknown [simp]: "eager_call f vs \<noteq> unknown x"
  by (auto simp: eager_call_def unary_math_def ternary_math_def bindE_Inl_iff split: list.splits Value.splits)

lemma args_unknown:
  "eval_args ns env = unknown x \<Longrightarrow> \<exists>n \<in> set ns. eval n env = unknown x"
  "eval_and ns env = unknown x \<Longrightarrow> \<exists>n \<in> set ns. eval n env = unknown x"
  "eval_or ns env = unknown x \<Longrightarrow> \<exists>n \<in> set ns. eval n env = unknown x"
  by (induction ns) (auto simp: bindE_Inl_iff split: if_splits)

lemma call_unknown: "eval (Call f args) env = unknown x \<Longrightarrow> \<exists>n \<in> set args. eval n env = unknown x"
  by (auto simp: bindE_Inl_iff dest!: args_unknown split: if_splits list.splits)

lemma eval_unknown: "eval n env = unknown x \<Longrightarrow> x \<in> set (idents n) \<and> lookup_var env x = unknown x"
proof (induction n)
  case (Ident y)
  then show ?case by (auto simp: lookup_var_def split: option.splits)
next
  case (Call f args)
  from call_unknown [OF Call.prems] Call.IH show ?case by (auto simp: idents_of_set simp del: eval.simps)
qed (auto simp: bindE_Inl_iff split: if_splits)

subsection \<open>Types\<close>

datatype ty = NumT | StrT | TruthT

fun value_ty :: "Value \<Rightarrow> ty" where
  "value_ty (Num x) = NumT" | "value_ty (Str s) = StrT" | "value_ty (Truth b) = TruthT"

text \<open>Truth values count as numbers, strings do not.\<close>

abbreviation numeric_ty :: "ty \<Rightarrow> bool" where "numeric_ty T \<equiv> T \<noteq> StrT"

abbreviation arith_ops :: "string set" where "arith_ops \<equiv> {''+'', ''-'', ''*'', ''/'', ''%''}"
abbreviation order_ops :: "string set" where "order_ops \<equiv> {''<'', ''<='', ''>'', ''>=''}"

inductive typed :: "(string \<Rightarrow> ty option) \<Rightarrow> Node \<Rightarrow> ty \<Rightarrow> bool" for \<Gamma> where
  ty_number: "typed \<Gamma> (NumberLit v) NumT"
| ty_string: "typed \<Gamma> (StringLit s) StrT"
| ty_ident: "\<Gamma> x = Some T \<Longrightarrow> typed \<Gamma> (Ident x) T"
| ty_unary: "typed \<Gamma> x T \<Longrightarrow> numeric_ty T \<Longrightarrow> typed \<Gamma> (Unary f x) NumT"
| ty_equality: "f \<in> {''=='', ''!=''} \<Longrightarrow> typed \<Gamma> l S \<Longrightarrow> typed \<Gamma> r T \<Longrightarrow> numeric_ty S = numeric_ty T \<Longrightarrow>
    typed \<Gamma> (Binary f l r) TruthT"
| ty_arith: "f \<in> arith_ops \<Longrightarrow> typed \<Gamma> l S \<Longrightarrow> numeric_ty S \<Longrightarrow> typed \<Gamma> r T \<Longrightarrow> numeric_ty T \<Longrightarrow>
    typed \<Gamma> (Binary f l r) NumT"
| ty_order: "f \<in> order_ops \<Longrightarrow> typed \<Gamma> l S \<Longrightarrow> numeric_ty S \<Longrightarrow> typed \<Gamma> r T \<Longrightarrow> numeric_ty T \<Longrightarrow>
    typed \<Gamma> (Binary f l r) TruthT"
| ty_if: "typed \<Gamma> c S \<Longrightarrow> typed \<Gamma> a T \<Longrightarrow> typed \<Gamma> b T \<Longrightarrow> typed \<Gamma> (Call ''if'' [c, a, b]) T"
| ty_logic: "f \<in> {''and'', ''or''} \<Longrightarrow> 2 \<le> length args \<Longrightarrow> (\<forall>n \<in> set args. \<exists>T. typed \<Gamma> n T) \<Longrightarrow>
    typed \<Gamma> (Call f args) TruthT"
| ty_count: "(\<forall>n \<in> set args. \<exists>T. typed \<Gamma> n T) \<Longrightarrow> typed \<Gamma> (Call ''count'' args) NumT"
| ty_fold: "f \<in> {''sum'', ''avg'', ''min'', ''max''} \<Longrightarrow> f = ''sum'' \<or> args \<noteq> [] \<Longrightarrow>
    (\<forall>n \<in> set args. \<exists>T. typed \<Gamma> n T \<and> numeric_ty T) \<Longrightarrow> typed \<Gamma> (Call f args) NumT"
| ty_math: "f \<in> {''abs'', ''round'', ''floor'', ''ceil''} \<Longrightarrow> typed \<Gamma> x T \<Longrightarrow> numeric_ty T \<Longrightarrow> typed \<Gamma> (Call f [x]) NumT"
| ty_math3: "f \<in> {''clamp'', ''safediv''} \<Longrightarrow> typed \<Gamma> x R \<Longrightarrow> numeric_ty R \<Longrightarrow> typed \<Gamma> y S \<Longrightarrow> numeric_ty S \<Longrightarrow>
    typed \<Gamma> z T \<Longrightarrow> numeric_ty T \<Longrightarrow> typed \<Gamma> (Call f [x, y, z]) NumT"
| ty_not: "typed \<Gamma> x T \<Longrightarrow> typed \<Gamma> (Call ''not'' [x]) TruthT"
| ty_contains: "typed \<Gamma> x StrT \<Longrightarrow> typed \<Gamma> y StrT \<Longrightarrow> typed \<Gamma> (Call ''contains'' [x, y]) TruthT"
| ty_lower: "typed \<Gamma> x StrT \<Longrightarrow> typed \<Gamma> (Call ''lower'' [x]) StrT"

definition env_typed :: "(string \<Rightarrow> ty option) \<Rightarrow> Env \<Rightarrow> bool" where
  "env_typed \<Gamma> env \<longleftrightarrow> (\<forall>x T. \<Gamma> x = Some T \<longrightarrow> (\<exists>v. lookup_var env x = Inr v \<and> value_ty v = T))"

text \<open>What a well-typed evaluation may come to: a value as told, or a zero divisor.\<close>

definition comes_to :: "eval_error + 'a \<Rightarrow> ('a \<Rightarrow> bool) \<Rightarrow> bool" where
  "comes_to r P \<longleftrightarrow> (case r of Inr v \<Rightarrow> P v | Inl e \<Rightarrow> e = DivisionByZero \<or> e = ModuloByZero)"

lemma comes_to_simps [simp]:
  "comes_to (Inr v) P = P v" "comes_to (Inl e) P \<longleftrightarrow> e = DivisionByZero \<or> e = ModuloByZero"
  by (simp_all add: comes_to_def)

lemma comes_to_bind: "comes_to r P \<Longrightarrow> (\<And>v. P v \<Longrightarrow> comes_to (g v) Q) \<Longrightarrow> comes_to (bindE r g) Q"
  by (cases r) auto

lemma asNumber_ty: "numeric_ty (value_ty v) \<Longrightarrow> \<exists>x. asNumber v = Inr x"
  by (cases v) auto

lemma number_comes: "comes_to r (\<lambda>v. value_ty v = T) \<Longrightarrow> numeric_ty T \<Longrightarrow> comes_to (bindE r asNumber) (\<lambda>_. True)"
  by (erule comes_to_bind) (use asNumber_ty in fastforce)

lemma numbers_ty: "\<forall>v \<in> set vs. numeric_ty (value_ty v) \<Longrightarrow> \<exists>xs. numbers vs = Inr xs"
proof (induction vs)
  case (Cons v vs)
  then obtain x xs where "asNumber v = Inr x" "numbers vs = Inr xs" using asNumber_ty [of v] by auto
  then show ?case by simp
qed simp

lemma eval_args_comes:
  "\<forall>n \<in> set ns. comes_to (eval n env) P \<Longrightarrow> comes_to (eval_args ns env) (\<lambda>vs. length vs = length ns \<and> (\<forall>v \<in> set vs. P v))"
  by (induction ns) (auto intro!: comes_to_bind [of _ P] elim!: comes_to_bind)

lemma logic_comes:
  "\<forall>n \<in> set ns. comes_to (eval n env) (\<lambda>_. True) \<Longrightarrow> comes_to (eval_and ns env) (\<lambda>v. value_ty v = TruthT)"
  "\<forall>n \<in> set ns. comes_to (eval n env) (\<lambda>_. True) \<Longrightarrow> comes_to (eval_or ns env) (\<lambda>v. value_ty v = TruthT)"
  by (induction ns) (auto intro!: comes_to_bind [of _ "\<lambda>_. True"])

lemma comes_to_mono: "comes_to r P \<Longrightarrow> (\<And>v. P v \<Longrightarrow> Q v) \<Longrightarrow> comes_to r Q"
  by (cases r) auto

lemma unary_math_ty: "numeric_ty (value_ty v) \<Longrightarrow> comes_to (unary_math g [v]) (\<lambda>v. value_ty v = NumT)"
  using asNumber_ty [of v] by (auto simp: unary_math_def)

lemma ternary_math_ty:
  "numeric_ty (value_ty u) \<Longrightarrow> numeric_ty (value_ty v) \<Longrightarrow> numeric_ty (value_ty w) \<Longrightarrow>
   comes_to (ternary_math g [u, v, w]) (\<lambda>v. value_ty v = NumT)"
  using asNumber_ty [of u] asNumber_ty [of v] asNumber_ty [of w] by (auto simp: ternary_math_def)

lemma args_comes:
  assumes "f \<notin> {''if'', ''and'', ''or''}" "comes_to (eval_args args env) P" "\<And>vs. P vs \<Longrightarrow> comes_to (eager_call f vs) Q"
  shows "comes_to (eval (Call f args) env) Q"
  using comes_to_bind [OF assms(2,3)] assms(1) by simp

lemma eval_args_1: "comes_to (eval x env) (\<lambda>v. value_ty v = R) \<Longrightarrow>
    comes_to (eval_args [x] env) (\<lambda>vs. \<exists>u. vs = [u] \<and> value_ty u = R)"
  by (cases "eval x env") simp_all

lemma eval_args_2: "comes_to (eval x env) (\<lambda>v. value_ty v = R) \<Longrightarrow> comes_to (eval y env) (\<lambda>v. value_ty v = S) \<Longrightarrow>
    comes_to (eval_args [x, y] env) (\<lambda>vs. \<exists>u v. vs = [u, v] \<and> value_ty u = R \<and> value_ty v = S)"
  by (cases "eval x env"; cases "eval y env") simp_all

lemma eval_args_3: "comes_to (eval x env) (\<lambda>v. value_ty v = R) \<Longrightarrow> comes_to (eval y env) (\<lambda>v. value_ty v = S) \<Longrightarrow>
    comes_to (eval z env) (\<lambda>v. value_ty v = T) \<Longrightarrow>
    comes_to (eval_args [x, y, z] env) (\<lambda>vs. \<exists>u v w. vs = [u, v, w] \<and> value_ty u = R \<and> value_ty v = S \<and> value_ty w = T)"
  by (cases "eval x env"; cases "eval y env"; cases "eval z env") simp_all

lemma eager_simps:
  "f \<in> {''abs'', ''round'', ''floor'', ''ceil''} \<Longrightarrow> \<exists>g. eager_call f = unary_math g"
  "f \<in> {''clamp'', ''safediv''} \<Longrightarrow> \<exists>g. eager_call f = ternary_math g"
  "eager_call ''not'' [u] = Inr (Truth (\<not> truthy u))"
  "value_ty u = StrT \<Longrightarrow> value_ty v = StrT \<Longrightarrow> comes_to (eager_call ''contains'' [u, v]) (\<lambda>v. value_ty v = TruthT)"
  "value_ty u = StrT \<Longrightarrow> comes_to (eager_call ''lower'' [u]) (\<lambda>v. value_ty v = StrT)"
  subgoal by (elim insertE emptyE) (auto simp: eager_call_def fun_eq_iff)
  subgoal by (elim insertE emptyE) (auto simp: eager_call_def fun_eq_iff)
  subgoal by (simp add: eager_call_def)
  subgoal by (cases u; cases v) (simp_all add: eager_call_def)
  subgoal by (cases u) (simp_all add: eager_call_def)
  done

lemma typed_comes_to:
  assumes "typed \<Gamma> n T" "env_typed \<Gamma> env"
  shows "comes_to (eval n env) (\<lambda>v. value_ty v = T)"
  using assms(1)
proof induction
  case (ty_ident x T)
  with assms(2) show ?case by (force simp: env_typed_def)
next
  case (ty_unary x T f)
  from number_comes [OF ty_unary.IH ty_unary.hyps(2)] show ?case by (auto elim!: comes_to_bind)
next
  case (ty_equality f l S r T)
  have "comes_to (equality f a b) (\<lambda>v. value_ty v = TruthT)" if "value_ty a = S" "value_ty b = T" for a b
    using that ty_equality.hyps(4) by (cases a; cases b) (auto simp: equality_def)
  with ty_equality show ?case by (auto intro!: comes_to_bind [OF ty_equality.IH(1)] comes_to_bind [OF ty_equality.IH(2)])
next
  case (ty_arith f l S r T)
  have "comes_to (arithmetic f a b) (\<lambda>v. value_ty v = NumT)" for a b using ty_arith.hyps(1) by (auto simp: arithmetic_def)
  then show ?case using ty_arith.hyps(1)
    by (auto intro!: comes_to_bind [OF number_comes [OF ty_arith.IH(1) ty_arith.hyps(3)]]
        comes_to_bind [OF number_comes [OF ty_arith.IH(2) ty_arith.hyps(5)]])
next
  case (ty_order f l S r T)
  have "comes_to (arithmetic f a b) (\<lambda>v. value_ty v = TruthT)" for a b using ty_order.hyps(1) by (auto simp: arithmetic_def)
  then show ?case using ty_order.hyps(1)
    by (auto intro!: comes_to_bind [OF number_comes [OF ty_order.IH(1) ty_order.hyps(3)]]
        comes_to_bind [OF number_comes [OF ty_order.IH(2) ty_order.hyps(5)]])
next
  case (ty_if c S a T b)
  then show ?case by (auto intro!: comes_to_bind [OF ty_if.IH(1)])
next
  case (ty_logic f args)
  then have "\<forall>n \<in> set args. comes_to (eval n env) (\<lambda>_. True)" by (metis comes_to_mono)
  from logic_comes [OF this] ty_logic.hyps(1,2) show ?case by auto
next
  case (ty_count args)
  then have "\<forall>n \<in> set args. comes_to (eval n env) (\<lambda>_. True)" by (metis comes_to_mono)
  note args = eval_args_comes [OF this]
  have "comes_to (eager_call ''count'' vs) (\<lambda>v. value_ty v = NumT)" for vs by (simp add: eager_call_def)
  then have "comes_to (bindE (eval_args args env) (eager_call ''count'')) (\<lambda>v. value_ty v = NumT)"
    by (intro comes_to_bind [OF args])
  then show ?case by simp
next
  case (ty_fold f args)
  have "\<forall>n \<in> set args. comes_to (eval n env) (\<lambda>v. numeric_ty (value_ty v))"
  proof
    fix n assume "n \<in> set args"
    with ty_fold.IH obtain T where "comes_to (eval n env) (\<lambda>v. value_ty v = T)" "numeric_ty T" by blast
    then show "comes_to (eval n env) (\<lambda>v. numeric_ty (value_ty v))" by (auto intro: comes_to_mono)
  qed
  note args = eval_args_comes [OF this]
  have "comes_to (eager_call f vs) (\<lambda>v. value_ty v = NumT)"
    if "length vs = length args \<and> (\<forall>v \<in> set vs. numeric_ty (value_ty v))" for vs
  proof -
    from that numbers_ty obtain xs where "numbers vs = Inr xs" by blast
    moreover have "f = ''sum'' \<or> vs \<noteq> []" using that ty_fold.hyps(2) by auto
    ultimately show ?thesis using ty_fold.hyps(1) by (elim insertE emptyE) (simp_all add: eager_call_def)
  qed
  then have "comes_to (bindE (eval_args args env) (eager_call f)) (\<lambda>v. value_ty v = NumT)"
    by (intro comes_to_bind [OF args])
  with ty_fold.hyps(1) show ?case by auto
next
  case (ty_math f x T)
  from eager_simps(1) [OF ty_math.hyps(1)] obtain g where g: "eager_call f = unary_math g" by blast
  show ?case
    using ty_math.hyps by (intro args_comes [OF _ eval_args_1 [OF ty_math.IH]]) (auto simp: g intro: unary_math_ty)
next
  case (ty_math3 f x R y S z T)
  from eager_simps(2) [OF ty_math3.hyps(1)] obtain g where g: "eager_call f = ternary_math g" by blast
  show ?case
    using ty_math3.hyps by (intro args_comes [OF _ eval_args_3 [OF ty_math3.IH]]) (auto simp: g intro: ternary_math_ty)
next
  case (ty_not x T)
  show ?case by (intro args_comes [OF _ eval_args_1 [OF ty_not.IH]]) (auto simp: eager_simps(3))
next
  case (ty_contains x y)
  show ?case by (intro args_comes [OF _ eval_args_2 [OF ty_contains.IH]]) (auto intro: eager_simps(4))
next
  case (ty_lower x)
  show ?case by (intro args_comes [OF _ eval_args_1 [OF ty_lower.IH]]) (auto intro: eager_simps(5))
qed simp_all

subsection \<open>Properties\<close>

text \<open>C16: A formula that is well typed over the environment's names evaluates to a finite value of its
  type, or reports a zero divisor or a result that is not finite: no type mismatch, unknown name,
  unknown function or wrong number of arguments can come up, whichever branches are taken.\<close>
theorem well_typed_formulas_evaluate:
  assumes "Compile input = Inr p" "typed \<Gamma> (pg_ast p) T" "env_typed \<Gamma> env"
  shows "case Program_Eval p env of
      Inr v \<Rightarrow> value_ty v = T \<and> (\<forall>x. v = Num x \<longrightarrow> is_finite x)
    | Inl e \<Rightarrow> e \<in> {DivisionByZero, ModuloByZero, NotFinite}"
  using typed_comes_to [OF assms(2,3)]
  by (cases "eval (pg_ast p) env") (auto simp: Program_Eval_def finishEval_def split: Value.splits)

definition sample_env :: Env where
  "sample_env = \<lparr>ev_Vars = [(''a'', Fin 6), (''b'', Fin 0)], ev_Strs = [(''s'', ''Uber'')]\<rparr>"

definition sample_types :: "string \<Rightarrow> ty option" where
  "sample_types x = (if x \<in> {''a'', ''b''} then Some NumT else if x = ''s'' then Some StrT else None)"

lemma sample_typed: "env_typed sample_types sample_env"
  by (auto simp: env_typed_def sample_types_def sample_env_def lookup_var_def)

definition sample_guard :: Node where
  "sample_guard = Call ''if'' [Binary ''=='' (Ident ''b'') (NumberLit (Fin 0)), Ident ''a'', Binary ''/'' (Ident ''a'') (Ident ''b'')]"

lemma sample_parse: "Parse ''if(b == 0, a, a / b)'' = Inr sample_guard"
  by code_simp

lemma well_typed_formulas_evaluate_witness:
  "case Program_Eval \<lparr>pg_src = ''if(b == 0, a, a / b)'', pg_ast = sample_guard\<rparr> sample_env of
      Inr v \<Rightarrow> value_ty v = NumT \<and> (\<forall>x. v = Num x \<longrightarrow> is_finite x)
    | Inl e \<Rightarrow> e \<in> {DivisionByZero, ModuloByZero, NotFinite}"
proof -
  have names: "typed sample_types (Ident ''a'') NumT" "typed sample_types (Ident ''b'') NumT"
    by (auto intro: ty_ident simp: sample_types_def)
  have "typed sample_types (Binary ''=='' (Ident ''b'') (NumberLit (Fin 0))) TruthT"
    by (rule ty_equality [OF _ names(2) ty_number]) simp_all
  moreover have "typed sample_types (Binary ''/'' (Ident ''a'') (Ident ''b'')) NumT"
    by (rule ty_arith [OF _ names(1) _ names(2)]) simp_all
  ultimately have "typed sample_types sample_guard NumT"
    unfolding sample_guard_def by (intro ty_if names(1))
  then show ?thesis
    using well_typed_formulas_evaluate [of "''if(b == 0, a, a / b)''" "\<lparr>pg_src = ''if(b == 0, a, a / b)'', pg_ast = sample_guard\<rparr>"
        sample_types NumT sample_env] sample_typed
    by (simp add: Compile_def sample_parse)
qed

text \<open>C30: The references of a formula are all that its evaluation reads: environments that agree on them
  give the same result. And a formula that validates against names the environment has never reports
  an unknown variable.\<close>
theorem references_decide_evaluation:
  assumes "References input = Inr names" "Compile input = Inr p"
  shows "((\<forall>x \<in> set names. lookup_var env x = lookup_var env' x) \<longrightarrow> Program_Eval p env = Program_Eval p env') \<and>
    (Validate input (Some known) = Inr () \<longrightarrow> (\<forall>x. known x \<longrightarrow> x \<in> dom (map_of (ev_Vars env)) \<union> dom (map_of (ev_Strs env))) \<longrightarrow>
      Program_Eval p env \<noteq> Inl (UnknownVariable y))"
proof -
  from assms have n: "Parse input = Inr (pg_ast p)" "names = collectRefs (pg_ast p)"
    by (auto simp: References_def Compile_def bindE_Inr_iff)
  have "Program_Eval p env = Program_Eval p env'" if "\<forall>x \<in> set names. lookup_var env x = lookup_var env' x"
    using eval_cong(1) [of "pg_ast p" env env'] that n(2) by (simp add: Program_Eval_def finishEval_def)
  moreover have False if valid: "Validate input (Some known) = Inr ()"
    "\<forall>x. known x \<longrightarrow> x \<in> dom (map_of (ev_Vars env)) \<union> dom (map_of (ev_Strs env))"
    "Program_Eval p env = Inl (UnknownVariable y)"
  proof -
    have "eval (pg_ast p) env = unknown y"
    proof (cases "eval (pg_ast p) env")
      case (Inr v)
      with valid(3) show ?thesis by (cases v) (auto simp: Program_Eval_def finishEval_def split: if_splits)
    qed (use valid(3) in \<open>simp add: Program_Eval_def finishEval_def\<close>)
    from eval_unknown [OF this] have y: "y \<in> set (collectRefs (pg_ast p))" "lookup_var env y = unknown y" by simp_all
    have "[x \<leftarrow> collectRefs (pg_ast p). \<not> known x] = []"
      using valid(1) n(1) by (auto simp: Validate_def split: list.splits)
    with y(1) have "known y" by (auto simp: filter_empty_conv)
    with valid(2) y(2) show False by (auto simp: lookup_var_def split: option.splits)
  qed
  ultimately show ?thesis by blast
qed

lemma sample_refs: "References ''if(b == 0, a, a / b)'' = Inr [''a'', ''b'']"
proof -
  have "set (idents sample_guard) = set [''a'', ''b'']" by (auto simp: sample_guard_def)
  moreover have "sorted_list_of_set (set [''a'', ''b'']) = [''a'', ''b'']" by code_simp
  ultimately show ?thesis by (simp only: References_def sample_parse bindE_simps collectRefs_def)
qed

lemma references_decide_evaluation_witness:
  "Program_Eval \<lparr>pg_src = ''if(b == 0, a, a / b)'', pg_ast = sample_guard\<rparr> sample_env =
   Program_Eval \<lparr>pg_src = ''if(b == 0, a, a / b)'', pg_ast = sample_guard\<rparr> (sample_env\<lparr>ev_Strs := []\<rparr>)"
  using references_decide_evaluation [of "''if(b == 0, a, a / b)''" "[''a'', ''b'']"
      "\<lparr>pg_src = ''if(b == 0, a, a / b)'', pg_ast = sample_guard\<rparr>" sample_env "sample_env\<lparr>ev_Strs := []\<rparr>"]
  by (simp add: sample_refs Compile_def sample_parse sample_env_def lookup_var_def)

fun eval_run :: "(string \<times> Env) list \<Rightarrow> (string, Node) go_map \<Rightarrow> (eval_error + Value) list \<times> (string, Node) go_map" where
  "eval_run [] m = ([], m)"
| "eval_run ((input, env) # es) m = (let (r, m1) = Eval input env m; (rs, m2) = eval_run es m1 in (r # rs, m2))"

definition fresh_eval :: "string \<Rightarrow> Env \<Rightarrow> eval_error + Value" where
  "fresh_eval input env = bindE (parsed (Parse input)) (\<lambda>ast. finishEval ast env)"

definition cache_ok :: "(string, Node) go_map \<Rightarrow> bool" where
  "cache_ok m \<longleftrightarrow> (\<forall>input n. map_of m input = Some n \<longrightarrow> Parse input = Inr n) \<and> length m \<le> astCacheMax"

lemma length_map_put: "length (map_put k v m) = length m + (if map_of m k = None then 1 else 0)"
  by (induction m) auto

lemma Eval_cached:
  assumes "cache_ok m" "Eval input env m = (r, m')"
  shows "r = fresh_eval input env \<and> cache_ok m'"
proof (cases "map_of m input")
  case None
  show ?thesis
  proof (cases "Parse input")
    case (Inr n)
    let ?m = "if length m \<ge> astCacheMax then [] else m"
    have "length (map_put input n ?m) \<le> astCacheMax"
      using None by (simp add: length_map_put) (simp add: astCacheMax_def)
    moreover have "cache_ok ?m" using assms(1) by (simp add: cache_ok_def)
    ultimately have "cache_ok (map_put input n ?m)"
      using Inr by (auto simp: cache_ok_def update_conv' split: if_splits)
    with assms None Inr show ?thesis by (auto simp: Eval_def parseCached_def fresh_eval_def)
  qed (use assms None in \<open>auto simp: Eval_def parseCached_def fresh_eval_def\<close>)
next
  case (Some n)
  with assms have "Parse input = Inr n" by (auto simp: cache_ok_def)
  with assms Some show ?thesis by (auto simp: Eval_def parseCached_def fresh_eval_def)
qed

text \<open>C31: The cache of trees is not observable: in any sequence of evaluations every result is that of
  parsing the formula afresh, and the cache never holds more than its bound.\<close>

theorem cached_evaluation_is_fresh:
  "case eval_run es [] of (rs, m) \<Rightarrow> rs = map (\<lambda>(input, env). fresh_eval input env) es \<and> length m \<le> astCacheMax"
proof -
  have "rs = map (\<lambda>(input, env). fresh_eval input env) es \<and> cache_ok m'" if "cache_ok m" "eval_run es m = (rs, m')" for m m' rs
    using that
  proof (induction es arbitrary: m rs)
    case (Cons e es)
    obtain input env where e: "e = (input, env)" by (cases e)
    obtain r m1 rs' where *: "Eval input env m = (r, m1)" "eval_run es m1 = (rs', m')" "rs = r # rs'"
      using Cons.prems(2) e by (auto split: prod.splits)
    from Eval_cached [OF Cons.prems(1) *(1)] Cons.IH [OF _ *(2)] *(3) e show ?case by simp
  qed simp
  from this [of "[]"] show ?thesis by (auto simp: cache_ok_def split: prod.splits)
qed

text \<open>A test for zero guards the division it stands before, whatever the formulas are.\<close>

lemma zero_guard_works:
  assumes "eval (Call ''if'' [Binary ''=='' d (NumberLit (Fin 0)), n, Binary ''/'' t d]) env = Inl DivisionByZero"
  shows "eval d env = Inl DivisionByZero \<or> eval n env = Inl DivisionByZero \<or> eval t env = Inl DivisionByZero"
proof (rule ccontr)
  assume none: "\<not> ?thesis"
  have near: "nearlyEqual (Fin 0) (Fin 0)" by (simp add: nearlyEqual_def f_eq_def)
  have num: "asNumber v \<noteq> Inl DivisionByZero" for v by (cases v) simp_all
  show False
  proof (cases "eval d env")
    case (Inr v)
    show False
    proof (cases "asNumber v")
      case (Inl e)
      then have "equality ''=='' v (Num (Fin 0)) = Inl CannotCompare" by (cases v) (simp_all add: equality_def)
      with assms Inr show False by simp
    next
      case x: (Inr x)
      then have "equality ''=='' v (Num (Fin 0)) = Inr (Truth (nearlyEqual x (Fin 0)))" by (cases v) (simp_all add: equality_def)
      with assms none Inr x near num show False
        by (cases "eval t env") (auto simp: arithmetic_def bindE_Inl_iff split: if_splits)
    qed
  qed (use assms none in simp)
qed

text \<open>Exactly the documented names are functions.\<close>

lemma documented_functions:
  "eager_call f vs = Inl (UnknownFunction g) \<longleftrightarrow> g = f \<and> f \<notin> set functionNames - {''if'', ''and'', ''or''}"
proof -
  have "numbers vs \<noteq> Inl (UnknownFunction g)" for vs by (induction vs) (auto simp: bindE_Inl_iff split: sum.splits)
  moreover have "asNumber v \<noteq> Inl (UnknownFunction g)" for v by (cases v) simp_all
  ultimately show ?thesis
    by (auto simp: eager_call_def unary_math_def ternary_math_def bindE_Inl_iff functionNames_def split: list.splits Value.splits)
qed

end
