(* ===== verification/Spec2Isabelle.thy ===== *)
theory Spec2Isabelle
  imports Go_Prelude Money Allocation MoneyFormat Split Float64 Domain Currency_Rates Ledger NetWorth NetWorthFacts Clock Replica Json ReplicaState Convergence Snapshots History SyncQueue WorkspaceStore SyncServer CoverSplit Budgets RefreshSessions CategoryTree TaskTree Reconcile TransferPair Rules Paging Calendar Periods Recurring CatchUp FormulaParser FormulaEval
begin

text \<open>
  Verification library of the CashFlux core: the pure Go packages under \<open>src/internal\<close> that
  compute with money and keep replicas of the data in step, and the server's storage of pushed
  workspaces. The user interface and the rest of the server call these; they are not modelled (last
  section).

  Parts and theories, in the order the code layers them.

  \<^item> \<open>Go_Prelude\<close>: what the models use of Go: int64 with its wrap-around (\<open>wrap64\<close>, \<open>is_i64\<close>,
    truncating division), errors as \<open>Inl\<close>, loops that stop at the first error (\<open>foldE\<close>), byte
    strings with \<open>TrimSpace\<close> and case mapping, and maps as association lists whose order is the
    order a run ranges over them.
  \<^item> \<open>Money\<close> (\<open>money/arithmetic.go\<close>, \<open>money.go\<close>): checked int64 operations, rounding modes,
    Money values. Every operation is the exact integer or rational result, rounded once, or the
    overflow error; the contract the accumulations use is the locale \<open>checked_addition\<close>.
  \<^item> \<open>Allocation\<close> (\<open>money/allocation.go\<close>): \<open>Allocate\<close> with its 128-bit quotas and radix sort;
    it is the largest-remainder method and never panics (locale \<open>apportion\<close>).
  \<^item> \<open>MoneyFormat\<close> (\<open>money/format.go\<close>): decimal rendering and parsing; what is accepted, its value,
    and the round trip.
  \<^item> \<open>Split\<close> (\<open>split/\<close>): equal, weighted and percentage splits, settling up, reconciliation of split
    lines.
  \<^item> \<open>Float64\<close>: binary64 as correctly rounded rationals, for the currency conversion.
  \<^item> \<open>Domain\<close> (\<open>domain/entities.go\<close>, \<open>enums.go\<close>, \<open>account_kind.go\<close>, \<open>category_split.go\<close>,
    \<open>transaction_owners.go\<close>): account and transaction records and their methods.
  \<^item> \<open>Currency_Rates\<close> (\<open>currency/currency.go\<close>): the registry and \<open>Convert\<close>, with its exact path.
  \<^item> \<open>Ledger\<close>, \<open>NetWorth\<close>, \<open>NetWorthFacts\<close> (\<open>ledger/\<close>): balances one by one and in one pass, the
    register, period totals, net worth and its series, ownership shares, category spend. The
    single-pass and series forms are shown equal to the per-account reference.
  \<^item> \<open>Clock\<close> (\<open>changes/hlc.go\<close>): hybrid logical clocks and stamps as instances of \<open>linorder\<close>, and
    the runs of a clock as an inductive step relation with its invariant.
  \<^item> \<open>Json\<close>: \<open>json.Valid\<close> of the standard library, which validation relies on.
  \<^item> \<open>Replica\<close>, \<open>ReplicaState\<close>, \<open>Convergence\<close> (\<open>changes/batch.go\<close>, \<open>validate.go\<close>, \<open>state.go\<close>): batches,
    the merge of field writes, removals and record tombstones, the bounded set of seen change ids.
    The elementary updates commute and are idempotent (locale \<open>convergent\<close>), hence replicas that
    accepted the same updates agree.
  \<^item> \<open>Snapshots\<close> (\<open>changes/snapshot.go\<close>, \<open>diff.go\<close>): export and import of merge clocks, differences
    of documents. A snapshot restores its state and continues the log.
  \<^item> \<open>History\<close> (\<open>history/\<close>): differences of datasets and the undo/redo stack, which refines the editor
    that keeps the versions themselves.
  \<^item> \<open>SyncQueue\<close> (\<open>syncstate/\<close>): the client's queue of pushes, whose it is and what may be sent, and
    \<open>DecidePut\<close>, by which the server accepts a push. The queue refines a map from bindings.
  \<^item> \<open>WorkspaceStore\<close>, \<open>SyncServer\<close> (\<open>server/repository.go\<close>, \<open>workspace_encryption.go\<close>): the registry and
    snapshot tables with their transactions, and the server as an inductive step relation of
    concurrent pushes. Commits form one chain of versions, so no update is lost; encryption of a
    workspace is final; the retry loop of a push settles.
  \<^item> \<open>CoverSplit\<close>, \<open>Budgets\<close> (\<open>budgeting/coversplit.go\<close>, \<open>transfer.go\<close>, \<open>rollover_chain.go\<close>, the budget of
    \<open>domain/entities.go\<close>): covers split under ceilings, funded as far as the ceilings allow within the
    loop's bound; balanced transfers and moves; rollover chains that carry exactly what was left.
  \<^item> \<open>RefreshSessions\<close> (\<open>server/authservice.go\<close>, \<open>session.go\<close>, \<open>repository.go\<close>): the table of
    refresh tokens under the statements that claim, revoke and delete its rows, one SQL statement or
    transaction a step. A token is spent once, a family has one live token, reuse ends the family, and
    a response lost in transit can be asked for again. Signatures and hashes are parameters.
  \<^item> \<open>Walks\<close>, \<open>CategoryTree\<close>, \<open>TaskTree\<close> (\<open>categorytree/\<close>, \<open>tasktree/\<close>, \<open>tasksort/\<close>): a depth-first walk with
    a set of the visited and what it reaches; the tree of categories and the nested, paged list of
    tasks, for parent links that may dangle or form cycles. Listings have every entry once, closures
    are the reflexive transitive closure of the links, deletion keeps the rest of the tree. The order of
    category names is a parameter; task titles compare by their ASCII case folding.
  \<^item> \<open>Reconcile\<close> (\<open>reconcile/\<close>, the transactions table of \<open>store/crud.go\<close>): differences and previews, the
    sign of a debt, the history, and the journal of a dialog over any ledger (locale
    \<open>transaction_ledger\<close>). Cancelling puts back every row the dialog changed.
  \<^item> \<open>TransferPair\<close> (\<open>acctref/\<close>, \<open>transferpair/\<close>, \<open>checkTransfers\<close> of \<open>integrity/integrity.go\<close>): the account a
    description names, the matcher of the two rows of a transfer, its review queue and the check for
    orphans. Verdicts are characterised by the candidates there are, and do not depend on the ledger's order.
    Two lemmas show rows that are verified and should not be.
  \<^item> \<open>Rules\<close> (\<open>rules/\<close>): the phrases and conditions of categorisation rules, first match wins, conflicts,
    previews, and the migration of amount conditions. Rules reported as shadowed never fire; the migration
    keeps what rules match and is idempotent, with its exception and the previews' overcount shown.
    Date conditions and the cleaning of payees are arguments.
  \<^item> \<open>Paging\<close> (\<open>pagination/\<close>, \<open>backoff/\<close>): the pages of a list are the list; delays double to their cap.
  \<^item> \<open>Calendar\<close>, \<open>Periods\<close> (\<open>dateutil/\<close>, \<open>period/\<close>): the Gregorian calendar, month, week and fiscal-month
    boundaries, the window of the dashboard. Every unit is a numbering of consecutive ranges of days
    (locale \<open>calendar_unit\<close>), so the ranges partition the calendar and counting units is exact.
    Locations are fixed offsets from UTC.
  \<^item> \<open>Recurring\<close> (\<open>domain/recurring_advance.go\<close>, \<open>store/transaction_batch.go\<close>, the posting in
    \<open>appstate/appstate.go\<close>): cadences, and the transaction that posts a due occurrence. Whatever stale
    copies, retries and refused statements the attempts meet, the occurrences are posted once each, in
    order, with none left out. The rows of an occurrence are an argument.
  \<^item> \<open>CatchUp\<close> (\<open>PostDueRecurring\<close> of \<open>appstate/appstate.go\<close>): the loop that posts what is due, for all
    automatic items, as a run of those attempts. It stops short of today only at its bound of 600 or at
    an occurrence it reports, and a database that serves leaves nothing to report.
  \<^item> \<open>FormulaParser\<close>, \<open>FormulaEval\<close> (\<open>formula/\<close>): tokenizer, parser and evaluator of user formulas. The
    parser accepts exactly an unambiguous grammar stated by inductive relations, within the nesting
    bound of the code; well-typed formulas fail only by zero divisors or results that are not finite;
    evaluation reads exactly the references; the cache of trees is not observable.

  State corresponds to the code field by field: a struct is a record with the struct's fields in
  order (prefixed where Isabelle has one name space), a method that changes its receiver returns
  the new record, a Go error is a constructor of an error type and its text is dropped, a panic is
  \<open>None\<close>. Locks make each call one step, so runs are sequences of calls. Times are nanoseconds since
  the epoch.

  Fuel: only the JSON validator takes any; \<open>2 * length + 2\<close> exceeds the number of nested calls, as
  every pair of calls consumes a byte. The loops of the formula parser take the number of tokens left,
  of which every round uses one; its nesting is bounded by the code's own 2000. The retry loop of a push is the
  code's own bound of five attempts. All other loops are structural recursions or folds, or carry
  a termination proof.

  Not modelled: rendering, screens, styles and translations (no contract); the application state and
  its JSON store, the server's HTTP, accounts, blobs and billing (effects of other systems);
  encryption itself;
  AI calls; float-heavy planners (debt payoff, forecasts, tax lots), which estimate and promise no
  exact result. Of \<open>changes/codec.go\<close> only the object writer is modelled: decoding and canonical
  re-encoding of JSON values are parameters. The evaluation of envelopes over the ledger (\<open>budgeting/view.go\<close>)
  and what plans on it mix the parts above with display settings and are left out, as are the merge of
  whole datasets (\<open>syncmerge/\<close>), stored blobs and their collection, and the reports and suggestions that
  only read the ledger.
\<close>

end
